(* ===== verification/LB_Prelude.thy ===== *)
theory LB_Prelude
  imports Main "HOL-Library.Word" "HOL-Library.Monad_Syntax"
begin

text \<open>
  Shared vocabulary of the development: the C integer types as words, memory buffers as byte
  lists with bounds-checked reads and writes, the in-memory byte images of multi-byte integers,
  unsigned decimal printing, and the generic lemmas about these that the component theories
  use. A value \<open>None\<close> of the buffer operations stands for an access outside the buffer,
  which is undefined behaviour in C; a theorem that an operation returns \<open>Some\<close> is
  therefore a memory-safety statement.
\<close>

unbundle bit_operations_syntax

named_theorems buf_simps \<open>reads, writes and copies inside a buffer\<close>
named_theorems mem_simps \<open>byte images of multi-byte integers\<close>

section \<open>C types\<close>

type_synonym u8 = "8 word"
type_synonym u16 = "16 word"
type_synonym u32 = "32 word"
type_synonym u64 = "64 word"

text \<open>The signed 32-bit integers of the source are 32-bit words read with \<^term>\<open>sint\<close>.\<close>

type_synonym i32 = "32 word"

type_synonym buffer = "u8 list"

text \<open>\<open>UINT32_MAX\<close> and \<open>(int32_t)-1\<close> have the same bit pattern.\<close>

abbreviation UINT32_MAX :: u32 where
  "UINT32_MAX \<equiv> - 1"

lemma unat_u8_less: "unat (w :: u8) < 256"
  using unsigned_less [of w] by simp

lemma unat_u16_less: "unat (w :: u16) < 65536"
  using unsigned_less [of w] by simp

lemma unat_u32_less: "unat (w :: u32) < 4294967296"
  using unsigned_less [of w] by simp

lemma unat_u64_less: "unat (w :: u64) < 18446744073709551616"
  using unsigned_less [of w] by simp

text \<open>Widening conversions keep the value.\<close>

lemma unat_ucast_widen [simp]:
  "unat (ucast (w8 :: u8) :: u16) = unat w8"
  "unat (ucast (w8 :: u8) :: u32) = unat w8"
  "unat (ucast (w16 :: u16) :: u32) = unat w16"
  "unat (ucast (w16 :: u16) :: u64) = unat w16"
  "unat (ucast (w32 :: u32) :: u64) = unat w32"
  using unat_u8_less [of w8] unat_u16_less [of w16] unat_u32_less [of w32]
  by (simp_all add: unsigned_ucast_eq take_bit_eq_mod)

lemma unat_inc: "x \<noteq> - 1 \<Longrightarrow> unat (x + 1) = unat x + 1" for x :: "'a :: len word"
proof -
  assume "x \<noteq> - 1"
  then have "1 + x \<noteq> 0" by (metis add.commute eq_neg_iff_add_eq_0)
  then show ?thesis using unatSuc [of x] by (simp add: add.commute)
qed

section \<open>Buffers\<close>

definition rd :: "buffer \<Rightarrow> nat \<Rightarrow> u8 option" where
  "rd buf i = (if i < length buf then Some (buf ! i) else None)"

definition wr :: "buffer \<Rightarrow> nat \<Rightarrow> u8 \<Rightarrow> buffer option" where
  "wr buf i v = (if i < length buf then Some (buf[i := v]) else None)"

text \<open>\<open>memcpy\<close> out of a buffer, and into one.\<close>

definition rd_block :: "buffer \<Rightarrow> nat \<Rightarrow> nat \<Rightarrow> u8 list option" where
  "rd_block buf i n = (if i + n \<le> length buf then Some (take n (drop i buf)) else None)"

definition wr_block :: "buffer \<Rightarrow> nat \<Rightarrow> u8 list \<Rightarrow> buffer option" where
  "wr_block buf i bs =
     (if i + length bs \<le> length buf
      then Some (take i buf @ bs @ drop (i + length bs) buf) else None)"

lemma map_option_bind [simp]: "map_option f (x \<bind> g) = x \<bind> (\<lambda>y. map_option f (g y))"
  by (cases x) simp_all

lemma rd_in [buf_simps]: "i < length buf \<Longrightarrow> rd buf i = Some (buf ! i)"
  by (simp add: rd_def)

lemma wr_in [buf_simps]: "i < length buf \<Longrightarrow> wr buf i v = Some (buf[i := v])"
  by (simp add: wr_def)

lemma rd_block_in [buf_simps]:
  "i + n \<le> length buf \<Longrightarrow> rd_block buf i n = Some (take n (drop i buf))"
  by (simp add: rd_block_def)

lemma wr_block_in [buf_simps]:
  "i + length bs \<le> length buf \<Longrightarrow>
     wr_block buf i bs = Some (take i buf @ bs @ drop (i + length bs) buf)"
  by (simp add: wr_block_def)

lemma rd_eq_None_iff: "rd buf i = None \<longleftrightarrow> length buf \<le> i"
  by (simp add: rd_def)

lemma wr_append [buf_simps]: "wr (xs @ y # ys) (length xs) v = Some (xs @ v # ys)"
  by (simp add: wr_def)

text \<open>Writing and reading past a prefix: the offset of the prefix cancels.\<close>

lemma wr_shift [buf_simps]:
  "wr (as @ bs) (length as + i) v = map_option (\<lambda>x. as @ x) (wr bs i v)"
  by (auto simp: wr_def list_update_append)

lemma rd_shift [buf_simps]: "rd (as @ bs) (length as + i) = rd bs i"
  by (simp add: rd_def nth_append)

lemma wr_block_shift [buf_simps]:
  "wr_block (as @ bs) (length as + i) v = map_option (\<lambda>x. as @ x) (wr_block bs i v)"
  by (auto simp: wr_block_def)

text \<open>Evaluation on a buffer given by its bytes.\<close>

lemma rd_Cons [buf_simps]:
  "rd (x # xs) 0 = Some x"
  "rd (x # xs) (Suc i) = rd xs i"
  "rd (x # xs) (numeral k) = rd xs (pred_numeral k)"
  by (simp_all add: rd_def nth_Cons_numeral less_Suc_eq_0_disj numeral_eq_Suc)

lemma wr_Cons [buf_simps]:
  "wr (x # xs) 0 v = Some (v # xs)"
  "wr (x # xs) (Suc i) v = map_option (\<lambda>ys. x # ys) (wr xs i v)"
  "wr (x # xs) (numeral k) v = map_option (\<lambda>ys. x # ys) (wr xs (pred_numeral k) v)"
  by (simp_all add: wr_def numeral_eq_Suc)

lemma wr_length: "wr buf i v = Some buf' \<Longrightarrow> length buf' = length buf"
  by (auto simp: wr_def split: if_splits)

lemma wr_block_length: "wr_block buf i bs = Some buf' \<Longrightarrow> length buf' = length buf"
  by (auto simp: wr_block_def split: if_splits)

text \<open>A buffer long enough to be written at offset \<open>n\<close> splits there.\<close>

lemma split_at:
  assumes "n \<le> length xs"
  obtains ys zs where "xs = ys @ zs" "length ys = n"
  using assms by (metis append_take_drop_id length_take min.absorb2)

lemma split_block:
  assumes "i + n \<le> length xs"
  obtains as bs cs where "xs = as @ bs @ cs" "length as = i" "length bs = n"
proof -
  from assms obtain as r where r: "xs = as @ r" "length as = i"
    by (metis add_leD1 split_at)
  with assms have "n \<le> length r" by simp
  then obtain bs cs where "r = bs @ cs" "length bs = n"
    by (rule split_at)
  with r that show thesis by blast
qed

lemma wr_block_append [buf_simps]:
  "length as = i \<Longrightarrow> length bs = length cs \<Longrightarrow>
     wr_block (as @ bs @ ds) i cs = Some (as @ cs @ ds)"
  by (simp add: wr_block_def)

section \<open>Byte images of integers\<close>

text \<open>
  \<open>memcpy\<close> between a byte buffer and a \<open>uint16_t\<close> or \<open>uint32_t\<close> copies the object's
  bytes in memory order; the order is little-endian, as on the x86-64 Linux hosts the program
  targets. Addresses and ports that the source calls opaque network-byte-order values are
  such images.
\<close>

definition mem_of_u16 :: "u16 \<Rightarrow> u8 list" where
  "mem_of_u16 w = [ucast w, ucast (drop_bit 8 w)]"

definition mem_of_u32 :: "u32 \<Rightarrow> u8 list" where
  "mem_of_u32 w =
     [ucast w, ucast (drop_bit 8 w), ucast (drop_bit 16 w), ucast (drop_bit 24 w)]"

definition u16_of_mem :: "u8 list \<Rightarrow> u16" where
  "u16_of_mem bs = ucast (bs ! 0) OR push_bit 8 (ucast (bs ! 1))"

definition u32_of_mem :: "u8 list \<Rightarrow> u32" where
  "u32_of_mem bs =
     ucast (bs ! 0) OR push_bit 8 (ucast (bs ! 1)) OR
     push_bit 16 (ucast (bs ! 2)) OR push_bit 24 (ucast (bs ! 3))"

text \<open>\<open>(uint16_t)((hi << 8) | lo)\<close>, and the two bytes of a big-endian store.\<close>

definition be16 :: "u8 \<Rightarrow> u8 \<Rightarrow> u16" where
  "be16 hi lo = ucast (push_bit 8 (ucast hi :: u32) OR (ucast lo :: u32))"

definition hi8 :: "u16 \<Rightarrow> u8" where
  "hi8 w = ucast (drop_bit 8 w)"

definition lo8 :: "u16 \<Rightarrow> u8" where
  "lo8 w = ucast (w AND 0xFF)"

lemma mem_of_u16_length [simp]: "length (mem_of_u16 w) = 2"
  by (simp add: mem_of_u16_def)

lemma mem_of_u32_length [simp]: "length (mem_of_u32 w) = 4"
  by (simp add: mem_of_u32_def)

lemma u16_of_mem_of_u16 [mem_simps, simp]: "u16_of_mem (mem_of_u16 w) = w"
  by (rule bit_word_eqI) (auto simp: u16_of_mem_def mem_of_u16_def bit_simps)

lemma u32_of_mem_of_u32 [mem_simps, simp]: "u32_of_mem (mem_of_u32 w) = w"
proof (rule bit_word_eqI)
  fix n assume "n < LENGTH(32)"
  moreover have "n < 8 \<or> 8 \<le> n \<and> n < 16 \<or> 16 \<le> n \<and> n < 24 \<or> 24 \<le> n" by arith
  ultimately show "bit (u32_of_mem (mem_of_u32 w)) n = bit w n"
    by (auto simp: u32_of_mem_def mem_of_u32_def bit_simps)
qed

lemma lo8_eq: "lo8 w = ucast w"
proof -
  have "(0xFF :: u16) = mask 8" by (simp add: mask_eq_exp_minus_1)
  then have "w AND 0xFF = take_bit 8 w" by (simp only: take_bit_eq_mask)
  then show ?thesis
    by (intro bit_word_eqI) (simp add: lo8_def bit_simps)
qed

lemma be16_hi8_lo8 [mem_simps, simp]: "be16 (hi8 w) (lo8 w) = w"
  by (rule bit_word_eqI) (auto simp: be16_def hi8_def lo8_eq bit_simps)

lemma mem_of_u16_inject [simp]: "mem_of_u16 v = mem_of_u16 w \<longleftrightarrow> v = w"
  by (metis u16_of_mem_of_u16)

lemma mem_of_u32_inject [simp]: "mem_of_u32 v = mem_of_u32 w \<longleftrightarrow> v = w"
  by (metis u32_of_mem_of_u32)

section \<open>Decimal printing\<close>

text \<open>The \<open>%u\<close>, \<open>%llu\<close> and \<open>%zu\<close> conversions of a non-negative value.\<close>

definition digit_char :: "nat \<Rightarrow> char" where
  "digit_char d = char_of (48 + d)"

fun dec :: "nat \<Rightarrow> string" where
  "dec n = (if n < 10 then [digit_char n] else dec (n div 10) @ [digit_char (n mod 10)])"

declare dec.simps [simp del]

lemma dec_length:
  assumes "n < 10 ^ k" "0 < k"
  shows "0 < length (dec n) \<and> length (dec n) \<le> k"
  using assms
proof (induction k arbitrary: n)
  case 0
  then show ?case by simp
next
  case (Suc k)
  show ?case
  proof (cases "n < 10")
    case True
    then show ?thesis by (simp add: dec.simps)
  next
    case False
    with Suc.prems have "0 < k" by (cases k) auto
    moreover from Suc.prems have "n div 10 < 10 ^ k"
      by (simp add: less_mult_imp_div_less mult.commute)
    ultimately show ?thesis
      using Suc.IH [of "n div 10"] False by (simp add: dec.simps [of n])
  qed
qed

text \<open>The bytes of a C string, as a hash function or a socket sees them.\<close>

definition bytes_of_string :: "string \<Rightarrow> u8 list" where
  "bytes_of_string s = map of_char s"

section \<open>Loops over a list\<close>

text \<open>A loop whose body may fail, run over a list.\<close>

primrec mfold :: "('a \<Rightarrow> 's \<Rightarrow> 's option) \<Rightarrow> 'a list \<Rightarrow> 's \<Rightarrow> 's option" where
  "mfold f [] s = Some s"
| "mfold f (x # xs) s = do { s \<leftarrow> f x s; mfold f xs s }"

lemma mfold_append: "mfold f (xs @ ys) s = do { s \<leftarrow> mfold f xs s; mfold f ys s }"
  by (induction xs arbitrary: s) simp_all

lemma mfold_map: "mfold f (map g xs) s = mfold (\<lambda>x. f (g x)) xs s"
  by (induction xs arbitrary: s) simp_all

lemma mfold_concat: "mfold f (concat xss) s = mfold (mfold f) xss s"
  by (induction xss arbitrary: s) (simp_all add: mfold_append)

lemma mfold_inv:
  assumes "P s" "\<And>x s. x \<in> set xs \<Longrightarrow> P s \<Longrightarrow> \<exists>s'. f x s = Some s' \<and> P s'"
  shows "\<exists>s'. mfold f xs s = Some s' \<and> P s'"
  using assms
proof (induction xs arbitrary: s)
  case (Cons x xs)
  obtain s1 where "f x s = Some s1" "P s1" using Cons.prems(2) [of x s] Cons.prems(1) by auto
  then show ?case using Cons.IH [of s1] Cons.prems(2) by auto
qed simp

end
