(* ===== verification/Net_Headers.thy ===== *)
theory Net_Headers
  imports LB_Prelude
begin

text \<open>
  Ethernet, IPv4, TCP/UDP and minimal GRE headers: \<open>src/net/eth.c\<close>, \<open>ipv4.c\<close>,
  \<open>tcp_udp.c\<close> and the header part of \<open>gre.c\<close>. A parser takes the bytes from its
  pointer up to the length it is given; its result is \<open>None\<close> for an access outside them,
  \<open>Some None\<close> for a return of -1 and \<open>Some (Some v)\<close> for a return of 0 with \<open>v\<close>
  written to \<open>*out\<close>. A builder takes the whole output buffer and the offset its \<open>out\<close>
  pointer has in it. The lemmas show that no parser leaves its input, that each builder writes
  exactly its header, that parsing what was built gives the fields back, and that the computed
  IPv4 checksum verifies.
\<close>

section \<open>Ethernet\<close>

definition ETH_ADDR_LEN :: nat where "ETH_ADDR_LEN = 6"
definition ETH_HDR_LEN :: nat where "ETH_HDR_LEN = 14"
definition ETH_TYPE_IP :: u16 where "ETH_TYPE_IP = 0x0800"
definition ETH_TYPE_ARP :: u16 where "ETH_TYPE_ARP = 0x0806"

record eth_hdr_view =
  dst_mac :: "u8 list"
  src_mac :: "u8 list"
  ethertype :: u16

definition eth_parse :: "buffer \<Rightarrow> eth_hdr_view option option" where
  "eth_parse buf =
     (if length buf < ETH_HDR_LEN then Some None
      else do {
        d \<leftarrow> rd_block buf 0 ETH_ADDR_LEN;
        s \<leftarrow> rd_block buf ETH_ADDR_LEN ETH_ADDR_LEN;
        hi \<leftarrow> rd buf 12;
        lo \<leftarrow> rd buf 13;
        Some (Some \<lparr>dst_mac = d, src_mac = s, ethertype = be16 hi lo\<rparr>)
      })"

text \<open>The copy loop of \<open>eth_build\<close>, with \<open>k\<close> iterations left.\<close>

fun eth_build_macs ::
  "nat \<Rightarrow> nat \<Rightarrow> buffer \<Rightarrow> nat \<Rightarrow> u8 list \<Rightarrow> u8 list \<Rightarrow> buffer option" where
  "eth_build_macs 0 i out off dst src = Some out"
| "eth_build_macs (Suc k) i out off dst src =
     do {
       d \<leftarrow> rd dst i;
       out \<leftarrow> wr out (off + i) d;
       s \<leftarrow> rd src i;
       out \<leftarrow> wr out (off + (ETH_ADDR_LEN + i)) s;
       eth_build_macs k (Suc i) out off dst src
     }"

definition eth_build ::
  "buffer \<Rightarrow> nat \<Rightarrow> u8 list \<Rightarrow> u8 list \<Rightarrow> u16 \<Rightarrow> buffer option" where
  "eth_build out off dst src ethertype_host =
     do {
       out \<leftarrow> eth_build_macs ETH_ADDR_LEN 0 out off dst src;
       out \<leftarrow> wr out (off + 12) (hi8 ethertype_host);
       wr out (off + 13) (lo8 ethertype_host)
     }"

section \<open>IPv4\<close>

definition IPV4_MIN_HDR_LEN :: nat where "IPV4_MIN_HDR_LEN = 20"

record ipv4_hdr_view =
  ihl_words :: u8
  ip_protocol :: u8
  ip_total_length :: u16
  ip_src :: u32
  ip_dst :: u32
  header_len_bytes :: nat

definition ipv4_parse :: "buffer \<Rightarrow> ipv4_hdr_view option option" where
  "ipv4_parse buf =
     (let len = length buf in
      if len < IPV4_MIN_HDR_LEN then Some None
      else do {
        b0 \<leftarrow> rd buf 0;
        let version = drop_bit 4 b0;
        let ihl = b0 AND 0x0F;
        if version \<noteq> 4 \<or> ihl < 5 then Some None
        else let header_len = unat ihl * 4 in
        if header_len > len then Some None
        else do {
          b2 \<leftarrow> rd buf 2;
          b3 \<leftarrow> rd buf 3;
          let total_length = be16 b2 b3;
          if unat total_length < header_len \<or> unat total_length > len then Some None
          else do {
            proto \<leftarrow> rd buf 9;
            s \<leftarrow> rd_block buf 12 4;
            d \<leftarrow> rd_block buf 16 4;
            Some (Some \<lparr>ihl_words = ihl, ip_protocol = proto, ip_total_length = total_length,
              ip_src = u32_of_mem s, ip_dst = u32_of_mem d, header_len_bytes = header_len\<rparr>)
          }
        }
      })"

text \<open>The two loops of \<open>ipv4_checksum\<close>: the word sum and the carry folding.\<close>

function ipv4_checksum_sum ::
  "buffer \<Rightarrow> nat \<Rightarrow> nat \<Rightarrow> nat \<Rightarrow> u32 \<Rightarrow> (nat \<times> u32) option" where
  "ipv4_checksum_sum buf off len i acc =
     (if i + 1 < len then do {
        a \<leftarrow> rd buf (off + i);
        b \<leftarrow> rd buf (off + (i + 1));
        ipv4_checksum_sum buf off len (i + 2) (acc + ucast (be16 a b))
      }
      else Some (i, acc))"
  by pat_completeness auto
termination
  by (relation "measure (\<lambda>(buf, off, len, i, acc). len - i)") auto

declare ipv4_checksum_sum.simps [simp del]

lemma unat_and_0xFFFF: "unat (s AND 0xFFFF :: u32) = unat s mod 65536"
proof -
  have "(0xFFFF :: u32) = mask 16" by (simp add: mask_eq_exp_minus_1)
  then have "s AND 0xFFFF = take_bit 16 s" by (simp only: take_bit_eq_mask)
  then show ?thesis by (simp add: take_bit_eq_mod unat_mod_distrib)
qed

lemma unat_drop_bit_16: "unat (drop_bit 16 s :: u32) = unat s div 65536"
  by (simp add: drop_bit_eq_div unat_div_distrib)

lemma unat_fold_once:
  "unat ((s AND 0xFFFF) + drop_bit 16 s :: u32) = unat s mod 65536 + unat s div 65536"
proof -
  note unat_u32_less [of s]
  moreover have "unat s mod 65536 + unat s div 65536 \<le> unat s"
    using div_mult_mod_eq [of "unat s" 65536] by linarith
  ultimately have "unat s mod 65536 + unat s div 65536 < 4294967296" by linarith
  then show ?thesis
    by (simp add: unat_word_ariths unat_and_0xFFFF unat_drop_bit_16)
qed

lemma drop_bit_16_nonzero: "drop_bit 16 (s :: u32) \<noteq> 0 \<longleftrightarrow> 65536 \<le> unat s"
  by (metis unat_drop_bit_16 unat_eq_zero div_eq_0_iff not_less zero_neq_numeral)

function ipv4_checksum_fold :: "u32 \<Rightarrow> u32" where
  "ipv4_checksum_fold acc =
     (if drop_bit 16 acc \<noteq> 0 then ipv4_checksum_fold ((acc AND 0xFFFF) + drop_bit 16 acc)
      else acc)"
  by pat_completeness auto
termination
proof (relation "measure unat")
  fix acc :: u32
  assume "drop_bit 16 acc \<noteq> 0"
  then have "65536 \<le> unat acc" by (simp only: drop_bit_16_nonzero)
  then have "0 < unat acc div 65536" by (simp add: div_greater_zero_iff)
  then have "unat acc mod 65536 + unat acc div 65536 < unat acc"
    using div_mult_mod_eq [of "unat acc" 65536] by linarith
  then show "((acc AND 0xFFFF) + drop_bit 16 acc, acc) \<in> measure unat"
    by (simp only: in_measure unat_fold_once)
qed simp

declare ipv4_checksum_fold.simps [simp del]

text \<open>The odd last byte.\<close>

fun ipv4_checksum_tail :: "buffer \<Rightarrow> nat \<Rightarrow> nat \<Rightarrow> nat \<times> u32 \<Rightarrow> u32 option" where
  "ipv4_checksum_tail buf off len (i, acc) =
     (if i < len then map_option (\<lambda>a. acc + push_bit 8 (ucast a)) (rd buf (off + i))
      else Some acc)"

definition ipv4_checksum :: "buffer \<Rightarrow> nat \<Rightarrow> nat \<Rightarrow> u16 option" where
  "ipv4_checksum buf off len =
     do {
       st \<leftarrow> ipv4_checksum_sum buf off len 0 0;
       acc \<leftarrow> ipv4_checksum_tail buf off len st;
       Some (ucast (NOT (ipv4_checksum_fold acc)))
     }"

definition ipv4_build ::
  "buffer \<Rightarrow> nat \<Rightarrow> u32 \<Rightarrow> u32 \<Rightarrow> u8 \<Rightarrow> u16 \<Rightarrow> u8 \<Rightarrow> buffer option" where
  "ipv4_build out off src dst proto total_len_host ttl =
     do {
       out \<leftarrow> wr out (off + 0) 0x45;
       out \<leftarrow> wr out (off + 1) 0x00;
       out \<leftarrow> wr out (off + 2) (hi8 total_len_host);
       out \<leftarrow> wr out (off + 3) (lo8 total_len_host);
       out \<leftarrow> wr out (off + 4) 0x00;
       out \<leftarrow> wr out (off + 5) 0x00;
       out \<leftarrow> wr out (off + 6) 0x40;
       out \<leftarrow> wr out (off + 7) 0x00;
       out \<leftarrow> wr out (off + 8) ttl;
       out \<leftarrow> wr out (off + 9) proto;
       out \<leftarrow> wr out (off + 10) 0x00;
       out \<leftarrow> wr out (off + 11) 0x00;
       out \<leftarrow> wr_block out (off + 12) (mem_of_u32 src);
       out \<leftarrow> wr_block out (off + 16) (mem_of_u32 dst);
       csum \<leftarrow> ipv4_checksum out off IPV4_MIN_HDR_LEN;
       out \<leftarrow> wr out (off + 10) (hi8 csum);
       wr out (off + 11) (lo8 csum)
     }"

text \<open>\<open>ipv4_format\<close>: \<open>snprintf\<close> keeps at most \<open>out_cap - 1\<close> characters.\<close>

definition ipv4_dotted :: "u32 \<Rightarrow> string" where
  "ipv4_dotted addr =
     (let b = mem_of_u32 addr in
      dec (unat (b ! 0)) @ ''.'' @ dec (unat (b ! 1)) @ ''.'' @
      dec (unat (b ! 2)) @ ''.'' @ dec (unat (b ! 3)))"

definition ipv4_format :: "u32 \<Rightarrow> nat \<Rightarrow> string" where
  "ipv4_format addr out_cap = take (out_cap - 1) (ipv4_dotted addr)"

section \<open>TCP and UDP ports\<close>

definition TCP_MIN_HDR_LEN :: nat where "TCP_MIN_HDR_LEN = 20"
definition UDP_HDR_LEN :: nat where "UDP_HDR_LEN = 8"

definition tcp_parse_ports :: "buffer \<Rightarrow> (u16 \<times> u16) option option" where
  "tcp_parse_ports buf =
     (if length buf < TCP_MIN_HDR_LEN then Some None
      else do {
        s \<leftarrow> rd_block buf 0 2;
        d \<leftarrow> rd_block buf 2 2;
        Some (Some (u16_of_mem s, u16_of_mem d))
      })"

definition udp_parse_ports :: "buffer \<Rightarrow> (u16 \<times> u16) option option" where
  "udp_parse_ports buf =
     (if length buf < UDP_HDR_LEN then Some None
      else do {
        s \<leftarrow> rd_block buf 0 2;
        d \<leftarrow> rd_block buf 2 2;
        Some (Some (u16_of_mem s, u16_of_mem d))
      })"

section \<open>Minimal GRE header\<close>

definition GRE_HDR_LEN :: nat where "GRE_HDR_LEN = 4"
definition IPPROTO_GRE_VAL :: u8 where "IPPROTO_GRE_VAL = 47"

record gre_hdr_view =
  flags_version :: u16
  protocol_type :: u16

definition gre_parse :: "buffer \<Rightarrow> gre_hdr_view option option" where
  "gre_parse buf =
     (if length buf < GRE_HDR_LEN then Some None
      else do {
        b0 \<leftarrow> rd buf 0;
        b1 \<leftarrow> rd buf 1;
        let flags_version = be16 b0 b1;
        if flags_version \<noteq> 0 then Some None
        else do {
          b2 \<leftarrow> rd buf 2;
          b3 \<leftarrow> rd buf 3;
          Some (Some \<lparr>flags_version = flags_version, protocol_type = be16 b2 b3\<rparr>)
        }
      })"

definition gre_build :: "buffer \<Rightarrow> nat \<Rightarrow> u16 \<Rightarrow> buffer option" where
  "gre_build out off protocol_type_host =
     do {
       out \<leftarrow> wr out (off + 0) 0x00;
       out \<leftarrow> wr out (off + 1) 0x00;
       out \<leftarrow> wr out (off + 2) (hi8 protocol_type_host);
       wr out (off + 3) (lo8 protocol_type_host)
     }"

lemmas net_lens = ETH_ADDR_LEN_def ETH_HDR_LEN_def IPV4_MIN_HDR_LEN_def
  TCP_MIN_HDR_LEN_def UDP_HDR_LEN_def GRE_HDR_LEN_def

section \<open>No parser reads outside its input\<close>

lemmas net_parse_defs = eth_parse_def ipv4_parse_def tcp_parse_ports_def udp_parse_ports_def
  gre_parse_def net_lens rd_def rd_block_def Let_def

lemma eth_parse_safe: "eth_parse buf \<noteq> None"
  by (auto simp: net_parse_defs)

lemma ipv4_parse_safe: "ipv4_parse buf \<noteq> None"
  by (auto simp: net_parse_defs)

lemma tcp_parse_ports_safe: "tcp_parse_ports buf \<noteq> None"
  by (auto simp: net_parse_defs)

lemma udp_parse_ports_safe: "udp_parse_ports buf \<noteq> None"
  by (auto simp: net_parse_defs)

lemma gre_parse_safe: "gre_parse buf \<noteq> None"
  by (auto simp: net_parse_defs)

lemma ipv4_parse_fields:
  assumes "ipv4_parse buf = Some (Some h)"
  shows "20 \<le> header_len_bytes h" "header_len_bytes h \<le> unat (ip_total_length h)"
    and "unat (ip_total_length h) \<le> length buf" "ip_protocol h = buf ! 9"
    and "ip_src h = u32_of_mem (take 4 (drop 12 buf))"
    and "ip_dst h = u32_of_mem (take 4 (drop 16 buf))"
    and "ip_total_length h = be16 (buf ! 2) (buf ! 3)"
  using assms
  by (auto simp: net_parse_defs word_less_nat_alt not_less split: if_splits)

lemma length_6_conv: "length xs = 6 \<longleftrightarrow> (\<exists>a b c d e f. xs = [a, b, c, d, e, f])"
  by (auto simp: numeral_eq_Suc length_Suc_conv)

lemma length_4_conv: "length xs = 4 \<longleftrightarrow> (\<exists>a b c d. xs = [a, b, c, d])"
  by (auto simp: numeral_eq_Suc length_Suc_conv)

lemma length_add_conv:
  "length xs = m + n \<longleftrightarrow> (\<exists>ys zs. xs = ys @ zs \<and> length ys = m \<and> length zs = n)"
  by (auto simp: length_append) (metis append_take_drop_id length_drop length_take
      add_diff_cancel_left' le_add1 min.absorb2)

lemma eth_build_macs_shift:
  "eth_build_macs k i (as @ r) (length as) dst src =
     map_option (\<lambda>x. as @ x) (eth_build_macs k i r 0 dst src)"
  by (induction k arbitrary: i r) (simp_all add: wr_shift bind_map_option comp_def)

lemma eth_build_shift:
  "eth_build (as @ r) (length as) dst src et =
     map_option (\<lambda>x. as @ x) (eth_build r 0 dst src et)"
  by (simp add: eth_build_def eth_build_macs_shift wr_shift bind_map_option comp_def)

lemma ipv4_checksum_sum_shift:
  "ipv4_checksum_sum (as @ r) (length as) len i acc = ipv4_checksum_sum r 0 len i acc"
proof (induction r "0::nat" len i acc rule: ipv4_checksum_sum.induct)
  case (1 r len i acc)
  show ?case
  proof (cases "i + 1 < len \<and> rd r i \<noteq> None \<and> rd r (i + 1) \<noteq> None")
    case True
    then obtain a b where "i + 1 < len" "rd r i = Some a" "rd r (i + 1) = Some b" by blast
    then show ?thesis
      using 1 [of a b] rd_shift [of as r "i + 1"]
      by (simp add: ipv4_checksum_sum.simps [of _ _ len i] rd_shift)
  next
    case False
    then show ?thesis
      using rd_shift [of as r "i + 1"]
      by (cases "rd r i") (auto simp: ipv4_checksum_sum.simps [of _ _ len i] rd_shift)
  qed
qed

lemma ipv4_checksum_tail_shift:
  "ipv4_checksum_tail (as @ r) (length as) len st = ipv4_checksum_tail r 0 len st"
  by (cases st) (simp add: rd_shift)

lemma ipv4_checksum_shift:
  "ipv4_checksum (as @ r) (length as) len = ipv4_checksum r 0 len"
  by (simp add: ipv4_checksum_def ipv4_checksum_sum_shift ipv4_checksum_tail_shift)

lemma ipv4_build_shift:
  "ipv4_build (as @ r) (length as) src dst proto n ttl =
     map_option (\<lambda>x. as @ x) (ipv4_build r 0 src dst proto n ttl)"
  by (simp only: ipv4_build_def wr_shift wr_block_shift bind_map_option comp_def
      ipv4_checksum_shift map_option_bind add_0_left)

lemma gre_build_shift:
  "gre_build (as @ r) (length as) p = map_option (\<lambda>x. as @ x) (gre_build r 0 p)"
  by (simp only: gre_build_def wr_shift bind_map_option comp_def map_option_bind add_0_left)

lemma eth_build_writes:
  assumes "length bs = ETH_HDR_LEN" "length dst = ETH_ADDR_LEN" "length src = ETH_ADDR_LEN"
  shows "eth_build (as @ bs @ cs) (length as) dst src et =
           Some (as @ (dst @ src @ [hi8 et, lo8 et]) @ cs)"
proof -
  from assms(1) have "length bs = 6 + (4 + 4)" by (simp add: net_lens)
  then obtain b0 b1 b2 b3 b4 b5 b6 b7 b8 b9 b10 b11 b12 b13 where b:
    "bs = [b0, b1, b2, b3, b4, b5] @ [b6, b7, b8, b9] @ [b10, b11, b12, b13]"
    unfolding length_add_conv length_6_conv length_4_conv by blast
  from assms(2) obtain d0 d1 d2 d3 d4 d5 where d: "dst = [d0, d1, d2, d3, d4, d5]"
    by (auto simp: net_lens length_6_conv)
  from assms(3) obtain s0 s1 s2 s3 s4 s5 where s: "src = [s0, s1, s2, s3, s4, s5]"
    by (auto simp: net_lens length_6_conv)
  show ?thesis
    unfolding b d s eth_build_shift
    by (simp add: eth_build_def net_lens eval_nat_numeral buf_simps)
qed

lemma gre_build_writes:
  assumes "length bs = GRE_HDR_LEN"
  shows "gre_build (as @ bs @ cs) (length as) p = Some (as @ [0, 0, hi8 p, lo8 p] @ cs)"
proof -
  from assms obtain b0 b1 b2 b3 where b: "bs = [b0, b1, b2, b3]"
    by (auto simp: net_lens length_4_conv)
  show ?thesis
    unfolding b gre_build_shift by (simp add: gre_build_def buf_simps)
qed

text \<open>The sum of the big-endian 16-bit words, with an odd last byte padded by zero (RFC 1071).\<close>

fun ones_sum :: "u8 list \<Rightarrow> nat" where
  "ones_sum (a # b # r) = unat (be16 a b) + ones_sum r"
| "ones_sum [a] = unat a * 256"
| "ones_sum [] = 0"

lemma ones_sum_append: "even (length xs) \<Longrightarrow> ones_sum (xs @ ys) = ones_sum xs + ones_sum ys"
  by (induction xs rule: ones_sum.induct) auto

lemma ones_sum_le: "ones_sum bs \<le> 65535 * length bs"
proof (induction bs rule: ones_sum.induct)
  case (1 a b r)
  then show ?case using unat_u16_less [of "be16 a b"] by simp
next
  case (2 a)
  then show ?case using unat_u8_less [of a] by simp
qed simp

lemma ipv4_checksum_loop:
  "ipv4_checksum_sum (pre @ bs @ post) 0 (length pre + length bs) (length pre) acc \<bind>
     ipv4_checksum_tail (pre @ bs @ post) 0 (length pre + length bs) =
   Some (acc + of_nat (ones_sum bs))"
proof (induction bs arbitrary: pre acc rule: ones_sum.induct)
  case (1 a b r)
  have "ipv4_checksum_sum (pre @ (a # b # r) @ post) 0 (length pre + length (a # b # r))
          (length pre) acc =
        ipv4_checksum_sum ((pre @ [a, b]) @ r @ post) 0 (length (pre @ [a, b]) + length r)
          (length (pre @ [a, b])) (acc + ucast (be16 a b))"
    by (subst ipv4_checksum_sum.simps) (simp add: rd_def nth_append)
  then show ?case
    using 1 [of "pre @ [a, b]" "acc + ucast (be16 a b)"] by (simp add: add.assoc)
next
  case (2 a)
  then show ?case
    by (subst ipv4_checksum_sum.simps) (simp add: rd_def push_bit_eq_mult mult.commute)
next
  case 3
  then show ?case by (subst ipv4_checksum_sum.simps) simp
qed

lemma ipv4_checksum_eq:
  "ipv4_checksum (bs @ post) 0 (length bs) =
     Some (ucast (NOT (ipv4_checksum_fold (of_nat (ones_sum bs)))))"
proof -
  have "ipv4_checksum (bs @ post) 0 (length bs) =
    (ipv4_checksum_sum (bs @ post) 0 (length bs) 0 0 \<bind>
     ipv4_checksum_tail (bs @ post) 0 (length bs)) \<bind>
       (\<lambda>acc. Some (ucast (NOT (ipv4_checksum_fold acc))))"
    by (simp add: ipv4_checksum_def Option.bind_assoc)
  then show ?thesis
    using ipv4_checksum_loop [of "[]" bs post 0] by (simp del: Option.bind_assoc)
qed

lemma ipv4_checksum_fold_spec:
  "unat (ipv4_checksum_fold s) < 65536 \<and>
   unat (ipv4_checksum_fold s) mod 65535 = unat s mod 65535 \<and>
   (unat (ipv4_checksum_fold s) = 0 \<longleftrightarrow> s = 0)"
proof (induction s rule: ipv4_checksum_fold.induct)
  case (1 s)
  show ?case
  proof (cases "drop_bit 16 s = 0")
    case True
    then show ?thesis
      using drop_bit_16_nonzero [of s] by (simp add: ipv4_checksum_fold.simps [of s] unat_eq_zero)
  next
    case False
    let ?t = "(s AND 0xFFFF) + drop_bit 16 s"
    have t: "unat ?t = unat s mod 65536 + unat s div 65536" by (rule unat_fold_once)
    have "unat s = unat ?t + 65535 * (unat s div 65536)"
      unfolding t using div_mult_mod_eq [of "unat s" 65536] by linarith
    then have "unat ?t mod 65535 = unat s mod 65535"
      by (metis mod_mult_self2)
    moreover from False have "65536 \<le> unat s" using drop_bit_16_nonzero [of s] by simp
    then have "?t \<noteq> 0" "s \<noteq> 0" using t by (auto simp: div_greater_zero_iff unat_eq_zero [symmetric])
    ultimately show ?thesis
      using 1 [OF False] False by (simp add: ipv4_checksum_fold.simps [of s])
  qed
qed


lemma unat_ucast_NOT_fold:
  "unat (ucast (NOT (ipv4_checksum_fold s)) :: u16) = 65535 - unat (ipv4_checksum_fold s)"
proof -
  define f where "f = ipv4_checksum_fold s"
  have f: "unat f < 65536" using ipv4_checksum_fold_spec [of s] by (simp add: f_def)
  have m1: "unat (- 1 :: u32) = 4294967295"
    by (simp add: unsigned_minus_1_eq_mask mask_eq_exp_minus_1)
  have "NOT f = - 1 - f" by (simp add: not_eq_complement)
  then have "unat (NOT f) = 4294967295 - unat f"
    using unat_u32_less [of f] by (simp add: unat_sub_if_size word_size m1)
  then have "unat (ucast (NOT f) :: u16) = (4294967295 - unat f) mod 65536"
    by (simp add: unsigned_ucast_eq take_bit_eq_mod)
  also have "4294967295 - unat f = (65535 - unat f) + 65535 * 65536" using f by simp
  also have "\<dots> mod 65536 = (65535 - unat f) mod 65536" by (rule mod_mult_self1)
  also have "\<dots> = 65535 - unat f" by simp
  finally show ?thesis by (simp only: f_def)
qed

lemma residue_65535:
  assumes "x < 65536" "x mod 65535 = 0" "x \<noteq> (0::nat)"
  shows "x = 65535"
proof -
  from assms(2) have "65535 dvd x" by (rule dvd_eq_mod_eq_0 [THEN iffD2])
  then obtain k where "x = 65535 * k" by (rule dvdE)
  with assms show ?thesis by simp
qed

lemma ipv4_checksum_verifies_gen:
  assumes c: "ipv4_checksum (xs @ [0, 0] @ ys @ post) 0 (length (xs @ [0, 0] @ ys)) = Some c"
    and even: "even (length xs)" and pos: "0 < ones_sum xs + ones_sum ys"
    and bound: "length (xs @ [0, 0] @ ys) < 65536"
  shows "ipv4_checksum (xs @ [hi8 c, lo8 c] @ ys @ post) 0 (length (xs @ [0, 0] @ ys)) = Some 0"
proof -
  define S where "S = ones_sum xs + ones_sum ys"
  let ?f = "ipv4_checksum_fold (of_nat S)" and ?z = "xs @ [0, 0] @ ys"
  have z: "ones_sum ?z = S"
    using even by (simp add: ones_sum_append S_def be16_def)
  have "S \<le> 65535 * length ?z" using ones_sum_le [of ?z] z by simp
  also have "\<dots> \<le> 65535 * 65535" using bound by simp
  finally have S: "S \<le> 4294836225" by simp
  have "c = ucast (NOT ?f)"
    using c ipv4_checksum_eq [of ?z post] z by simp
  then have uc: "unat c = 65535 - unat ?f" by (simp add: unat_ucast_NOT_fold)
  have uS: "unat (of_nat S :: u32) = S" using S by (simp add: unat_of_nat)
  then have f: "unat ?f < 65536" "unat ?f mod 65535 = S mod 65535" "unat ?f \<noteq> 0"
    using ipv4_checksum_fold_spec [of "of_nat S"] pos by (auto simp: S_def unat_eq_zero [symmetric])
  let ?T = "S + unat c"
  have T: "ones_sum (xs @ [hi8 c, lo8 c] @ ys) = ?T"
    using even by (simp add: ones_sum_append S_def)
  have "?T < 4294967296" using S unat_u16_less [of c] by simp
  then have uT: "unat (of_nat ?T :: u32) = ?T" by (simp add: unat_of_nat del: of_nat_add)
  have "(S + (65535 - unat ?f)) mod 65535 = (unat ?f + (65535 - unat ?f)) mod 65535"
    using f(2) by (metis mod_add_left_eq)
  then have "?T mod 65535 = 0" using f(1) by (simp add: uc)
  moreover have "?T \<noteq> 0" using pos by (auto simp: S_def)
  ultimately have g: "unat (ipv4_checksum_fold (of_nat ?T)) = 65535"
    using ipv4_checksum_fold_spec [of "of_nat ?T"] uT
    by (intro residue_65535) (simp_all add: unat_eq_zero [symmetric] del: of_nat_add)
  have "ipv4_checksum (xs @ [hi8 c, lo8 c] @ ys @ post) 0 (length ?z) =
          Some (ucast (NOT (ipv4_checksum_fold (of_nat ?T))))"
    using ipv4_checksum_eq [of "xs @ [hi8 c, lo8 c] @ ys" post] T by simp
  moreover have "unat (ucast (NOT (ipv4_checksum_fold (of_nat ?T))) :: u16) = 0"
    by (simp only: unat_ucast_NOT_fold g)
  ultimately show ?thesis by (simp only: unat_eq_zero)
qed

text \<open>The header \<open>ipv4_build\<close> leaves behind, as a function of its checksum field.\<close>

definition ipv4_header :: "u32 \<Rightarrow> u32 \<Rightarrow> u8 \<Rightarrow> u16 \<Rightarrow> u8 \<Rightarrow> u16 \<Rightarrow> u8 list" where
  "ipv4_header src dst proto n ttl csum =
     [0x45, 0, hi8 n, lo8 n, 0, 0, 0x40, 0, ttl, proto, hi8 csum, lo8 csum] @
     mem_of_u32 src @ mem_of_u32 dst"

definition ipv4_header_csum :: "u32 \<Rightarrow> u32 \<Rightarrow> u8 \<Rightarrow> u16 \<Rightarrow> u8 \<Rightarrow> u16" where
  "ipv4_header_csum src dst proto n ttl =
     ucast (NOT (ipv4_checksum_fold (of_nat (ones_sum (ipv4_header src dst proto n ttl 0)))))"

lemma ipv4_header_length [simp]: "length (ipv4_header src dst proto n ttl c) = 20"
  by (simp add: ipv4_header_def)

lemma hi8_0 [simp]: "hi8 0 = 0" and lo8_0 [simp]: "lo8 0 = 0"
  by (simp_all add: hi8_def lo8_def)

lemma ipv4_build_writes:
  assumes "length bs = IPV4_MIN_HDR_LEN"
  shows "ipv4_build (as @ bs @ cs) (length as) src dst proto n ttl =
     Some (as @ ipv4_header src dst proto n ttl (ipv4_header_csum src dst proto n ttl) @ cs)"
proof -
  from assms have "length bs = 4 + (4 + (4 + (4 + 4)))" by (simp add: net_lens)
  then obtain b0 b1 b2 b3 b4 b5 b6 b7 b8 b9 b10 b11 b12 b13 b14 b15 b16 b17 b18 b19 where b:
    "bs = [b0, b1, b2, b3] @ [b4, b5, b6, b7] @ [b8, b9, b10, b11] @ [b12, b13, b14, b15] @
          [b16, b17, b18, b19]"
    unfolding length_add_conv length_4_conv by blast
  have "ipv4_checksum (ipv4_header src dst proto n ttl 0 @ cs) 0 20 =
          Some (ipv4_header_csum src dst proto n ttl)"
    using ipv4_checksum_eq [of "ipv4_header src dst proto n ttl 0" cs]
    by (simp add: ipv4_header_csum_def)
  then have c: "ipv4_checksum ([0x45, 0, hi8 n, lo8 n, 0, 0, 0x40, 0, ttl, proto, 0, 0] @
      mem_of_u32 src @ mem_of_u32 dst @ cs) 0 20 = Some (ipv4_header_csum src dst proto n ttl)"
    by (simp add: ipv4_header_def)
  show ?thesis
    unfolding b ipv4_build_shift
    using c by (simp add: ipv4_build_def wr_Cons net_lens wr_block_def ipv4_header_def)
qed

lemma ipv4_header_verifies:
  "ipv4_checksum (ipv4_header src dst proto n ttl (ipv4_header_csum src dst proto n ttl) @ cs)
     0 IPV4_MIN_HDR_LEN = Some 0"
proof -
  let ?c = "ipv4_header_csum src dst proto n ttl"
  let ?x = "[0x45, 0, hi8 n, lo8 n, 0, 0, 0x40, 0, ttl, proto]"
  let ?y = "mem_of_u32 src @ mem_of_u32 dst"
  have "ipv4_checksum (?x @ [0, 0] @ ?y @ cs) 0 (length (?x @ [0, 0] @ ?y)) = Some ?c"
    using ipv4_checksum_eq [of "?x @ [0, 0] @ ?y" cs]
    by (simp add: ipv4_header_csum_def ipv4_header_def)
  moreover have "0 < ones_sum ?x + ones_sum ?y" by (simp add: be16_def)
  ultimately have "ipv4_checksum (?x @ [hi8 ?c, lo8 ?c] @ ?y @ cs) 0
      (length (?x @ [0, 0] @ ?y)) = Some 0"
    by (intro ipv4_checksum_verifies_gen) auto
  then show ?thesis by (simp add: ipv4_header_def net_lens)
qed

section \<open>Parsing what was built\<close>

lemma eth_parse_built:
  assumes "length dst = ETH_ADDR_LEN" "length src = ETH_ADDR_LEN"
  shows "eth_parse ((dst @ src @ [hi8 et, lo8 et]) @ rest) =
           Some (Some \<lparr>dst_mac = dst, src_mac = src, ethertype = et\<rparr>)"
  using assms by (simp add: net_parse_defs nth_append)

lemma gre_parse_built:
  "gre_parse ([0, 0, hi8 p, lo8 p] @ rest) =
     Some (Some \<lparr>flags_version = 0, protocol_type = p\<rparr>)"
  by (simp add: net_parse_defs be16_def [of 0])

lemma ipv4_parse_built:
  assumes "20 \<le> unat n" "unat n \<le> 20 + length rest"
  shows "ipv4_parse (ipv4_header src dst proto n ttl c @ rest) =
           Some (Some \<lparr>ihl_words = 5, ip_protocol = proto, ip_total_length = n,
             ip_src = src, ip_dst = dst, header_len_bytes = 20\<rparr>)"
proof -
  have s: "take 4 (drop 12 (ipv4_header src dst proto n ttl c @ rest)) = mem_of_u32 src"
    and d: "take 4 (drop 16 (ipv4_header src dst proto n ttl c @ rest)) = mem_of_u32 dst"
    by (simp_all add: ipv4_header_def mem_of_u32_def)
  have b: "(ipv4_header src dst proto n ttl c @ rest) ! 0 = 0x45"
    "(ipv4_header src dst proto n ttl c @ rest) ! 2 = hi8 n"
    "(ipv4_header src dst proto n ttl c @ rest) ! 3 = lo8 n"
    "(ipv4_header src dst proto n ttl c @ rest) ! 9 = proto"
    by (simp_all add: ipv4_header_def)
  show ?thesis
    using assms s d b by (simp add: net_parse_defs)
qed

text \<open>\<open>ipv4_format\<close> into 16 bytes never truncates: every dotted quad has at most 15
  characters.\<close>

lemma ipv4_dotted_length: "length (ipv4_dotted addr) \<le> 15"
proof -
  have "length (dec (unat (b :: u8))) \<le> 3" for b
    using dec_length [of "unat b" 3] unat_u8_less [of b] by simp
  note l = this [of "mem_of_u32 addr ! 0"] this [of "mem_of_u32 addr ! 1"]
    this [of "mem_of_u32 addr ! 2"] this [of "mem_of_u32 addr ! 3"]
  show ?thesis using l by (simp add: ipv4_dotted_def Let_def)
qed

lemma ipv4_format_complete: "16 \<le> cap \<Longrightarrow> ipv4_format addr cap = ipv4_dotted addr"
  using ipv4_dotted_length [of addr] by (simp add: ipv4_format_def)

end
