(* ===== verification/Arp_Resolve.thy ===== *)
theory Arp_Resolve
  imports Net_Headers
begin

text \<open>
  \<open>src/net/arp_resolve.c\<close>: the ARP request, the filter for the reply and the waiting loop. The
  outcomes of the system calls are arguments: for each turn of the loop the clock reading and what
  \<open>poll\<close> and \<open>recv\<close> gave. The result \<open>None\<close> of the loop means that it is still waiting after the given
  turns, or an access outside the buffer. The lemmas give the bytes of the request and equate the
  loop with a search for the first turn that decides it.
\<close>

unbundle bit_operations_syntax

definition ARP_PAYLOAD_LEN :: nat where "ARP_PAYLOAD_LEN = 28"
definition ARP_FRAME_LEN :: nat where "ARP_FRAME_LEN = ETH_HDR_LEN + ARP_PAYLOAD_LEN"
definition ARP_HTYPE_ETHERNET :: u8 where "ARP_HTYPE_ETHERNET = 1"
definition ARP_OP_REQUEST :: u8 where "ARP_OP_REQUEST = 1"
definition ARP_OP_REPLY :: u16 where "ARP_OP_REPLY = 2"

definition k_broadcast_mac :: "u8 list" where "k_broadcast_mac = [0xFF, 0xFF, 0xFF, 0xFF, 0xFF, 0xFF]"
definition k_zero_mac :: "u8 list" where "k_zero_mac = [0, 0, 0, 0, 0, 0]"

definition build_arp_frame :: "buffer \<Rightarrow> u8 list \<Rightarrow> u32 \<Rightarrow> u32 \<Rightarrow> buffer option" where
  "build_arp_frame out smac src_ip target_ip =
     do {
       out \<leftarrow> eth_build out 0 k_broadcast_mac smac ETH_TYPE_ARP;
       let p = ETH_HDR_LEN;
       out \<leftarrow> wr out (p + 0) 0x00;
       out \<leftarrow> wr out (p + 1) ARP_HTYPE_ETHERNET;
       out \<leftarrow> wr out (p + 2) 0x08;
       out \<leftarrow> wr out (p + 3) 0x00;
       out \<leftarrow> wr out (p + 4) (of_nat ETH_ADDR_LEN);
       out \<leftarrow> wr out (p + 5) 4;
       out \<leftarrow> wr out (p + 6) 0x00;
       out \<leftarrow> wr out (p + 7) ARP_OP_REQUEST;
       out \<leftarrow> wr_block out (p + 8) smac;
       out \<leftarrow> wr_block out (p + 14) (mem_of_u32 src_ip);
       out \<leftarrow> wr_block out (p + 18) k_zero_mac;
       wr_block out (p + 24) (mem_of_u32 target_ip)
     }"

text \<open>The address in a frame, when the frame is a reply from the target.\<close>

definition arp_reply_mac :: "u32 \<Rightarrow> buffer \<Rightarrow> u8 list option option" where
  "arp_reply_mac target_ip rx =
     (if length rx < ARP_FRAME_LEN then Some None
      else do {
        e \<leftarrow> eth_parse rx;
        case e of
          None \<Rightarrow> Some None
        | Some eth \<Rightarrow>
          if ethertype eth \<noteq> ETH_TYPE_ARP then Some None
          else do {
            let p = ETH_HDR_LEN;
            hi \<leftarrow> rd rx (p + 6);
            lo \<leftarrow> rd rx (p + 7);
            if be16 hi lo \<noteq> ARP_OP_REPLY then Some None
            else do {
              spa \<leftarrow> rd_block rx (p + 14) 4;
              if u32_of_mem spa \<noteq> target_ip then Some None
              else do {
                mac \<leftarrow> rd_block rx (p + 8) ETH_ADDR_LEN;
                Some (Some mac)
              }
            }
          }
      })"

text \<open>What \<open>poll\<close> and \<open>recv\<close> gave in one turn; a failed receive is an empty frame.\<close>

datatype arp_poll = Arp_eintr | Arp_error | Arp_timeout | Arp_frame buffer

text \<open>The receive buffer has 128 bytes; longer frames are cut.\<close>

fun arp_loop :: "int \<Rightarrow> u32 \<Rightarrow> (int \<times> arp_poll) list \<Rightarrow> u8 list option option" where
  "arp_loop deadline target_ip [] = None"
| "arp_loop deadline target_ip ((now, r) # turns) =
     (if deadline - now \<le> 0 then Some None
      else case r of
        Arp_eintr \<Rightarrow> arp_loop deadline target_ip turns
      | Arp_error \<Rightarrow> Some None
      | Arp_timeout \<Rightarrow> arp_loop deadline target_ip turns
      | Arp_frame f \<Rightarrow>
        do {
          found \<leftarrow> arp_reply_mac target_ip (take 128 f);
          case found of
            None \<Rightarrow> arp_loop deadline target_ip turns
          | Some mac \<Rightarrow> Some (Some mac)
        })"

record arp_setup =
  as_socket :: bool
  as_ifindex :: bool
  as_bind :: bool
  as_send :: bool
  as_now_ms :: int
  as_req :: buffer

text \<open>The frame handed to \<open>sendto\<close>, if it comes to that, and the result.\<close>

definition arp_resolve ::
  "arp_setup \<Rightarrow> (int \<times> arp_poll) list \<Rightarrow> u32 \<Rightarrow> u8 list \<Rightarrow> u32 \<Rightarrow> int \<Rightarrow> (buffer option \<times> u8 list option) option" where
  "arp_resolve env turns target_ip smac src_ip timeout_ms =
     (if \<not> as_socket env then Some (None, None)
      else if \<not> as_ifindex env then Some (None, None)
      else if \<not> as_bind env then Some (None, None)
      else do {
        req \<leftarrow> build_arp_frame (as_req env) smac src_ip target_ip;
        if \<not> as_send env then Some (Some req, None)
        else do {
          mac \<leftarrow> arp_loop (as_now_ms env + timeout_ms) target_ip turns;
          Some (Some req, mac)
        }
      })"

section \<open>The request\<close>

definition arp_request :: "u8 list \<Rightarrow> u32 \<Rightarrow> u32 \<Rightarrow> buffer" where
  "arp_request smac src_ip target_ip =
     [0xFF, 0xFF, 0xFF, 0xFF, 0xFF, 0xFF] @ smac @ [0x08, 0x06] @ [0x00, 1, 0x08, 0x00, 6, 4, 0x00, 1] @
     smac @ mem_of_u32 src_ip @ [0, 0, 0, 0, 0, 0] @ mem_of_u32 target_ip"

lemma build_arp_frame_eq:
  assumes "length out = ARP_FRAME_LEN" "length smac = ETH_ADDR_LEN"
  shows "build_arp_frame out smac src_ip target_ip = Some (arp_request smac src_ip target_ip)"
proof -
  have len: "length out = 42" using assms(1) by (simp add: ARP_FRAME_LEN_def ARP_PAYLOAD_LEN_def net_lens)
  define cs where "cs = drop 14 out"
  have o: "out = [] @ take 14 out @ cs" "length (take 14 out) = ETH_HDR_LEN" "length cs = 28"
    using len by (simp_all add: cs_def net_lens)
  have "eth_build out 0 k_broadcast_mac smac ETH_TYPE_ARP =
      Some ([] @ (k_broadcast_mac @ smac @ [hi8 ETH_TYPE_ARP, lo8 ETH_TYPE_ARP]) @ cs)"
    using eth_build_writes [OF o(2), of k_broadcast_mac smac "[]" cs ETH_TYPE_ARP] assms(2) o(1)
    by (simp add: k_broadcast_mac_def ETH_ADDR_LEN_def)
  moreover obtain a0 a1 a2 a3 a4 a5 where "smac = [a0, a1, a2, a3, a4, a5]"
    using assms(2) unfolding ETH_ADDR_LEN_def length_6_conv by blast
  moreover have "hi8 ETH_TYPE_ARP = 8" "lo8 ETH_TYPE_ARP = 6" by code_simp+
  moreover have "mem_of_u32 w = [mem_of_u32 w ! 0, mem_of_u32 w ! 1, mem_of_u32 w ! 2, mem_of_u32 w ! 3]" for w
    by (simp add: mem_of_u32_def)
  moreover obtain c0 c1 c2 c3 c4 c5 c6 c7 rest where "cs = [c0, c1, c2, c3, c4, c5, c6, c7] @ rest" "length rest = 20"
    using o(3) by (auto simp: eval_nat_numeral length_Suc_conv)
  ultimately show ?thesis
    by (simp add: build_arp_frame_def arp_request_def k_broadcast_mac_def k_zero_mac_def wr_def wr_block_def
        ARP_HTYPE_ETHERNET_def ARP_OP_REQUEST_def ETH_HDR_LEN_def ETH_ADDR_LEN_def)
qed

section \<open>The reply\<close>

text \<open>A reply from the target: the operation and the sender's protocol address are all the code looks
  at behind the Ethernet header.\<close>

definition arp_matches :: "u32 \<Rightarrow> buffer \<Rightarrow> bool" where
  "arp_matches target_ip f \<longleftrightarrow>
     42 \<le> length f \<and> take 2 (drop 12 f) = [0x08, 0x06] \<and> take 2 (drop 20 f) = [0, 2] \<and>
     take 4 (drop 28 f) = mem_of_u32 target_ip"

lemma u8_no_bit: "8 \<le> k \<Longrightarrow> \<not> bit (w :: u8) (k + n)"
  using bit_imp_le_length [of w "k + n"] by auto

lemma hi8_lo8_be16: "hi8 (be16 hi lo) = hi" "lo8 (be16 hi lo) = lo"
  by (rule bit_word_eqI; auto simp: be16_def hi8_def lo8_eq bit_simps u8_no_bit)+

lemma be16_eq_iff: "be16 hi lo = w \<longleftrightarrow> hi = hi8 w \<and> lo = lo8 w"
  using hi8_lo8_be16 [of hi lo] be16_hi8_lo8 [of w] by metis

lemma mem_of_u32_of_mem:
  assumes "length xs = 4"
  shows "mem_of_u32 (u32_of_mem xs) = xs"
proof -
  obtain a b c d where xs: "xs = [a, b, c, d]" using assms unfolding length_4_conv by blast
  show ?thesis unfolding xs mem_of_u32_def u32_of_mem_def
    by (auto intro!: bit_word_eqI simp: bit_simps u8_no_bit)
qed

lemma arp_reply_mac_eq:
  "arp_reply_mac target_ip f = Some (if arp_matches target_ip f then Some (take 6 (drop 22 f)) else None)"
proof (cases "42 \<le> length f")
  case False
  then show ?thesis by (simp add: arp_reply_mac_def arp_matches_def ARP_FRAME_LEN_def ARP_PAYLOAD_LEN_def net_lens)
next
  case True
  have t: "hi8 ETH_TYPE_ARP = 8" "lo8 ETH_TYPE_ARP = 6" "hi8 2 = 0" "lo8 2 = 2" by code_simp+
  have two: "take 2 (drop k f) = [x, y] \<longleftrightarrow> f ! k = x \<and> f ! (k + 1) = y" if "k + 1 < 42" for k x y
  proof -
    have "drop k f = f ! k # f ! (k + 1) # drop (k + 2) f"
      using True that Cons_nth_drop_Suc [of k f] Cons_nth_drop_Suc [of "k + 1" f] by simp
    then show ?thesis by simp
  qed
  have mem: "u32_of_mem (take 4 (drop 28 f)) = target_ip \<longleftrightarrow> take 4 (drop 28 f) = mem_of_u32 target_ip"
    using mem_of_u32_of_mem [of "take 4 (drop 28 f)"] u32_of_mem_of_u32 [of target_ip] True by auto
  show ?thesis
    using True
    by (simp add: mem two [of 12, simplified] two [of 20, simplified] t arp_reply_mac_def arp_matches_def eth_parse_def rd_def rd_block_def be16_eq_iff
        ARP_FRAME_LEN_def ARP_PAYLOAD_LEN_def ARP_OP_REPLY_def net_lens)
qed

section \<open>The loop\<close>

text \<open>The turns that end the loop.\<close>

fun arp_decides :: "int \<Rightarrow> u32 \<Rightarrow> int \<times> arp_poll \<Rightarrow> bool" where
  "arp_decides deadline target_ip (now, r) \<longleftrightarrow>
     deadline \<le> now \<or> r = Arp_error \<or> (case r of Arp_frame f \<Rightarrow> arp_matches target_ip (take 128 f) | _ \<Rightarrow> False)"

fun arp_answer :: "int \<Rightarrow> int \<times> arp_poll \<Rightarrow> u8 list option" where
  "arp_answer deadline (now, r) =
     (if deadline \<le> now then None
      else case r of Arp_frame f \<Rightarrow> Some (take 6 (drop 22 (take 128 f))) | _ \<Rightarrow> None)"

lemma arp_loop_eq:
  "arp_loop deadline target_ip turns =
     map_option (arp_answer deadline) (find (arp_decides deadline target_ip) turns)"
proof (induction turns)
  case (Cons turn turns)
  obtain now r where t: "turn = (now, r)" by (cases turn)
  show ?case using Cons unfolding t by (cases r) (simp_all add: arp_reply_mac_eq)
qed simp

text \<open>C39. Address resolution. The frame that is sent is the broadcast ARP request for the target from
  this host, byte for byte. The waiting loop then returns exactly when some turn decides it: the
  deadline has passed or waiting failed, which is reported as an error, or a frame is an ARP reply
  whose sender protocol address is the target, and then the sender hardware address of the first
  such frame is the result. All other frames, of any content and length, are skipped.\<close>

theorem arp_resolve_exact:
  assumes "as_socket env" "as_ifindex env" "as_bind env" "as_send env" "length (as_req env) = ARP_FRAME_LEN"
    "length smac = ETH_ADDR_LEN"
  shows "arp_resolve env turns target_ip smac src_ip timeout_ms =
    map_option (\<lambda>turn. (Some (arp_request smac src_ip target_ip), arp_answer (as_now_ms env + timeout_ms) turn))
      (find (arp_decides (as_now_ms env + timeout_ms) target_ip) turns)"
  using assms build_arp_frame_eq [OF assms(5,6), of src_ip target_ip]
  by (cases "find (arp_decides (as_now_ms env + timeout_ms) target_ip) turns")
    (simp_all add: arp_resolve_def arp_loop_eq)

text \<open>The reply of a host with the address \<open>ip\<close> and the MAC \<open>mac\<close>.\<close>

definition arp_reply :: "u8 list \<Rightarrow> u32 \<Rightarrow> u8 list \<Rightarrow> u32 \<Rightarrow> buffer" where
  "arp_reply mac ip to_mac to_ip =
     to_mac @ mac @ [0x08, 0x06] @ [0x00, 1, 0x08, 0x00, 6, 4, 0x00, 2] @ mac @ mem_of_u32 ip @ to_mac @ mem_of_u32 to_ip"

theorem arp_resolve_exact_witness:
  "arp_resolve \<lparr>as_socket = True, as_ifindex = True, as_bind = True, as_send = True, as_now_ms = 100,
      as_req = replicate ARP_FRAME_LEN 0\<rparr>
      [(101, Arp_eintr), (102, Arp_frame [1, 2, 3]),
       (103, Arp_frame (arp_reply [2, 0, 0, 0, 0, 7] 0x0C00000A [2, 0, 0, 0, 0, 9] 0x0100000A)),
       (104, Arp_frame (arp_reply [2, 0, 0, 0, 0, 1] 0x0B00000A [2, 0, 0, 0, 0, 9] 0x0100000A))]
      0x0B00000A [2, 0, 0, 0, 0, 9] 0x0100000A 2000 =
    Some (Some (arp_request [2, 0, 0, 0, 0, 9] 0x0100000A 0x0B00000A), Some [2, 0, 0, 0, 0, 1])"
proof -
  have m: "mem_of_u32 0x0B00000A = [10, 0, 0, 11]" "mem_of_u32 0x0C00000A = [10, 0, 0, 12]"
    "mem_of_u32 0x0100000A = [10, 0, 0, 1]" by code_simp+
  show ?thesis
    by (subst arp_resolve_exact) (simp_all add: ETH_ADDR_LEN_def arp_matches_def arp_reply_def m)
qed

end
