(* ===== verification/C_String.thy ===== *)
theory C_String
  imports LB_Prelude
begin

text \<open>
  The parts of the C library that the configuration, the admin commands and the reporting code
  use on strings: character classes, \<open>strtol\<close> and \<open>strtoul\<close> in base 10 with their saturation,
  the \<open>%15s\<close> and \<open>%lu\<close> conversions of \<open>sscanf\<close>, \<open>strrchr\<close>, the IPv4 case of \<open>inet_pton\<close>
  and \<open>snprintf\<close> into a bounded buffer. A C string is the list of its characters without the
  terminating NUL. The lemmas show that reading inverts decimal printing.
\<close>

section \<open>Character classes\<close>

definition isspace :: "char \<Rightarrow> bool" where
  "isspace c \<longleftrightarrow> c = CHR '' '' \<or> (9 \<le> (of_char c :: nat) \<and> (of_char c :: nat) \<le> 13)"

definition isdigit :: "char \<Rightarrow> bool" where
  "isdigit c \<longleftrightarrow> 48 \<le> (of_char c :: nat) \<and> (of_char c :: nat) \<le> 57"

definition digit_value :: "char \<Rightarrow> nat" where
  "digit_value c = of_char c - 48"

definition dec_value :: "string \<Rightarrow> nat" where
  "dec_value ds = foldl (\<lambda>n c. 10 * n + digit_value c) 0 ds"

text \<open>The C string in a character array: everything before the first NUL.\<close>

definition cstring :: "char list \<Rightarrow> string" where
  "cstring buf = takeWhile (\<lambda>c. c \<noteq> CHR 0x00) buf"

section \<open>Numbers\<close>

definition LONG_MAX :: int where "LONG_MAX = 2 ^ 63 - 1"
definition LONG_MIN :: int where "LONG_MIN = - (2 ^ 63)"

text \<open>White space, an optional sign, digits: the sign, the digits and what follows.\<close>

fun split_sign :: "string \<Rightarrow> bool \<times> string" where
  "split_sign [] = (False, [])"
| "split_sign (c # s) =
     (if c = CHR ''-'' then (True, s) else if c = CHR ''+'' then (False, s) else (False, c # s))"

definition split_number :: "string \<Rightarrow> bool \<times> string \<times> string" where
  "split_number s =
     (let (neg, t) = split_sign (dropWhile isspace s) in
      (neg, takeWhile isdigit t, dropWhile isdigit t))"

text \<open>The value and the rest of the string; without digits nothing is consumed.\<close>

definition strtol :: "string \<Rightarrow> int \<times> string" where
  "strtol s =
     (case split_number s of (neg, ds, rest) \<Rightarrow>
        if ds = [] then (0, s)
        else
          let v = (if neg then - int (dec_value ds) else int (dec_value ds)) in
          (if v < LONG_MIN then LONG_MIN else if v > LONG_MAX then LONG_MAX else v, rest))"

text \<open>A negative number is negated modulo \<open>2 ^ 64\<close>; a value out of range saturates.\<close>

definition ulong_value :: "bool \<Rightarrow> string \<Rightarrow> u64" where
  "ulong_value neg ds =
     (if dec_value ds \<ge> 2 ^ 64 then - 1
      else if neg then - of_nat (dec_value ds) else of_nat (dec_value ds))"

definition strtoul :: "string \<Rightarrow> u64 \<times> string" where
  "strtoul s =
     (case split_number s of (neg, ds, rest) \<Rightarrow>
        if ds = [] then (0, s) else (ulong_value neg ds, rest))"

section \<open>Scanning\<close>

definition scan_s :: "nat \<Rightarrow> string \<Rightarrow> (string \<times> string) option" where
  "scan_s width s =
     (let t = dropWhile isspace s; w = take width (takeWhile (\<lambda>c. \<not> isspace c) t) in
      if w = [] then None else Some (w, drop (length w) t))"

definition scan_lu :: "string \<Rightarrow> (u64 \<times> string) option" where
  "scan_lu s =
     (case split_number s of (neg, ds, rest) \<Rightarrow>
        if ds = [] then None else Some (ulong_value neg ds, rest))"

text \<open>The position of the last occurrence.\<close>

fun strrchr :: "string \<Rightarrow> char \<Rightarrow> nat option" where
  "strrchr [] c = None"
| "strrchr (x # s) c =
     (case strrchr s c of
        Some i \<Rightarrow> Some (Suc i)
      | None \<Rightarrow> if x = c then Some 0 else None)"

fun split_at :: "char \<Rightarrow> string \<Rightarrow> string list" where
  "split_at c [] = [[]]"
| "split_at c (x # s) =
     (if x = c then [] # split_at c s
      else case split_at c s of [] \<Rightarrow> [[x]] | w # ws \<Rightarrow> (x # w) # ws)"

text \<open>An octet of a dotted quad: digits without a leading zero, at most 255.\<close>

definition octet :: "string \<Rightarrow> u8 option" where
  "octet w =
     (if w \<noteq> [] \<and> list_all isdigit w \<and> (length w = 1 \<or> hd w \<noteq> CHR ''0'') \<and> dec_value w \<le> 255
      then Some (of_nat (dec_value w)) else None)"

definition inet_pton4 :: "string \<Rightarrow> u32 option" where
  "inet_pton4 s =
     (case map octet (split_at (CHR ''.'') s) of
        [Some a, Some b, Some c, Some d] \<Rightarrow> Some (u32_of_mem [a, b, c, d])
      | _ \<Rightarrow> None)"

text \<open>\<open>snprintf\<close> into \<open>room\<close> bytes: what is stored before the NUL, and the returned length.\<close>

definition snprintf :: "nat \<Rightarrow> string \<Rightarrow> string \<times> nat" where
  "snprintf room s = (take (room - 1) s, length s)"

section \<open>Reading inverts printing\<close>

lemma digit_char_props:
  assumes "d < 10"
  shows "isdigit (digit_char d)" "digit_value (digit_char d) = d"
    "digit_char d = CHR ''0'' \<longleftrightarrow> d = 0"
proof -
  have [simp]: "of_char (digit_char d) = 48 + d"
    using assms by (simp add: digit_char_def of_char_of)
  show "isdigit (digit_char d)" using assms by (simp add: isdigit_def)
  show "digit_value (digit_char d) = d" by (simp add: digit_value_def)
  have "digit_char d = CHR ''0'' \<longleftrightarrow> of_char (digit_char d) = (of_char CHR ''0'' :: nat)"
    by (simp only: of_char_eq_iff)
  also have "\<dots> \<longleftrightarrow> d = 0" by simp
  finally show "digit_char d = CHR ''0'' \<longleftrightarrow> d = 0" .
qed

lemma isdigit_not_space [simp]: "isdigit c \<Longrightarrow> \<not> isspace c"
  by (auto simp: isdigit_def isspace_def)

lemma dec_digits: "list_all isdigit (dec n)"
proof (induction n rule: dec.induct)
  case (1 n)
  then show ?case by (subst dec.simps) (simp add: digit_char_props(1))
qed

lemma dec_not_Nil [simp]: "dec n \<noteq> []"
  by (subst dec.simps) simp

lemma dec_value_dec [simp]: "dec_value (dec n) = n"
proof (induction n rule: dec.induct)
  case (1 n)
  show ?case
  proof (cases "n < 10")
    case True
    then show ?thesis by (simp add: dec.simps [of n] dec_value_def digit_char_props(2))
  next
    case False
    have "dec_value (dec (n div 10)) = n div 10" using 1 False .
    then show ?thesis
      using False by (simp add: dec.simps [of n] dec_value_def digit_char_props(2))
  qed
qed

lemma dec_no_leading_zero: "0 < n \<Longrightarrow> hd (dec n) \<noteq> CHR ''0''"
proof (induction n rule: dec.induct)
  case (1 n)
  then show ?case
    by (cases "n < 10") (simp_all add: dec.simps [of n] digit_char_props(3) hd_append)
qed

lemma takeWhile_isdigit_dec:
  assumes "rest = [] \<or> \<not> isdigit (hd rest)"
  shows "takeWhile isdigit (dec n @ rest) = dec n" "dropWhile isdigit (dec n @ rest) = rest"
proof -
  have d: "\<forall>c \<in> set (dec n). isdigit c" using dec_digits by (simp add: list_all_iff)
  show "takeWhile isdigit (dec n @ rest) = dec n"
    using d assms by (cases rest) (simp_all add: takeWhile_append)
  show "dropWhile isdigit (dec n @ rest) = rest"
    using d assms by (cases rest) (simp_all add: dropWhile_append)
qed

lemma hd_dec_isdigit: "isdigit (hd (dec n))"
  using dec_digits [of n] by (cases "dec n") simp_all

lemma split_number_dec:
  assumes "rest = [] \<or> \<not> isdigit (hd rest)"
  shows "split_number (dec n @ rest) = (False, dec n, rest)"
proof -
  obtain c cs where c: "dec n = c # cs" by (cases "dec n") simp_all
  have d: "isdigit c" using hd_dec_isdigit [of n] c by simp
  then have "c \<noteq> CHR ''-''" "c \<noteq> CHR ''+''" by (auto simp: isdigit_def)
  then have "split_sign (dropWhile isspace (dec n @ rest)) = (False, dec n @ rest)"
    using c d by simp
  then show ?thesis using takeWhile_isdigit_dec [OF assms] by (simp add: split_number_def)
qed

lemma split_number_spaces:
  assumes "list_all isspace ws"
  shows "split_number (ws @ s) = split_number s"
proof -
  have "dropWhile isspace (ws @ s) = dropWhile isspace s"
    using assms by (simp add: dropWhile_append list_all_iff)
  then show ?thesis by (simp add: split_number_def)
qed

lemma strtol_dec:
  assumes "rest = [] \<or> \<not> isdigit (hd rest)" "int n \<le> LONG_MAX"
  shows "strtol (dec n @ rest) = (int n, rest)"
  using assms(2) by (auto simp: strtol_def split_number_dec [OF assms(1)] LONG_MIN_def)

lemma scan_lu_dec:
  assumes "list_all isspace ws" "rest = [] \<or> \<not> isdigit (hd rest)" "n < 2 ^ 64"
  shows "scan_lu (ws @ dec n @ rest) = Some (of_nat n, rest)"
  using assms(3) by (simp add: scan_lu_def split_number_spaces [OF assms(1)]
      split_number_dec [OF assms(2)] ulong_value_def)

lemma scan_s_word:
  assumes "w \<noteq> []" "length w \<le> width" "list_all (\<lambda>c. \<not> isspace c) w" "isspace c"
  shows "scan_s width (w @ c # s) = Some (w, c # s)"
proof -
  have "dropWhile isspace (w @ c # s) = w @ c # s" using assms(1,3) by (cases w) simp_all
  moreover have "takeWhile (\<lambda>c. \<not> isspace c) (w @ c # s) = w"
    using assms(3,4) by (simp add: takeWhile_append list_all_iff)
  moreover have "0 < width" using assms(1,2) by (cases w) auto
  ultimately show ?thesis using assms(1,2) by (simp add: scan_s_def)
qed

lemma strtol_range: "LONG_MIN \<le> fst (strtol s)" "fst (strtol s) \<le> LONG_MAX"
  by (auto simp: strtol_def Let_def LONG_MIN_def LONG_MAX_def split: prod.splits)

lemma strrchr_append:
  assumes "c \<notin> set t"
  shows "strrchr (s @ c # t) c = Some (length s)"
proof -
  have "strrchr t c = None" using assms by (induction t) auto
  then show ?thesis by (induction s) simp_all
qed

lemma strrchr_less: "strrchr s c = Some i \<Longrightarrow> i < length s"
  by (induction s arbitrary: i) (auto split: option.splits if_splits)

lemma split_at_word:
  assumes "c \<notin> set w"
  shows "split_at c (w @ c # s) = w # split_at c s" "split_at c w = [w]"
  using assms by (induction w) auto

lemma octet_dec:
  assumes "n \<le> 255"
  shows "octet (dec n) = Some (of_nat n)"
proof -
  have "length (dec n) = 1 \<or> hd (dec n) \<noteq> CHR ''0''"
    using dec_no_leading_zero [of n] by (cases "n = 0") (simp_all add: dec.simps)
  then show ?thesis using assms dec_digits [of n] by (simp add: octet_def)
qed

lemma nondigit_not_in_dec: "\<not> isdigit c \<Longrightarrow> c \<notin> set (dec n)"
  using dec_digits [of n] by (auto simp: list_all_iff)

lemma inet_pton4_quad:
  fixes a b c d :: u8
  shows "inet_pton4 (dec (unat a) @ ''.'' @ dec (unat b) @ ''.'' @ dec (unat c) @ ''.'' @ dec (unat d)) =
    Some (u32_of_mem [a, b, c, d])"
proof -
  have nd: "CHR ''.'' \<notin> set (dec n)" for n by (rule nondigit_not_in_dec) (simp add: isdigit_def)
  have oc: "octet (dec (unat x)) = Some x" for x :: u8
    using octet_dec [of "unat x"] unat_u8_less [of x] by simp
  show ?thesis using nd by (simp add: inet_pton4_def split_at_word oc)
qed

end
