(* ===== verification/Config.thy ===== *)
theory Config
  imports C_String Net_Headers
begin

text \<open>
  \<open>src/config/config.c\<close> and \<open>config.h\<close>: the command line. The arguments are scanned by the C
  library's \<open>getopt_long\<close>, modelled below with long options, unambiguous abbreviations, attached
  and separate option arguments, clusters of short options, \<open>--\<close> and skipped operands; the parser
  then folds the options into the \<open>config\<close> record exactly in the order given. Character arrays are
  lists of their full size, and \<open>strncpy\<close> pads as in C. The lemmas show which bounds hold for every
  accepted command line, and that every configuration within the bounds has a command line that
  the parser reads back.
\<close>

section \<open>The option scanner\<close>

definition GETOPT_ERROR :: int where "GETOPT_ERROR = 63"

text \<open>A long option has a name, whether it takes an argument, and a code.\<close>

type_synonym long_option = "string \<times> bool \<times> int"
type_synonym short_option = "char \<times> bool"

text \<open>An exact match wins; otherwise the name may be an abbreviation of one option.\<close>

definition find_long :: "long_option list \<Rightarrow> string \<Rightarrow> long_option option" where
  "find_long longs name =
     (case filter (\<lambda>l. fst l = name) longs of
        l # _ \<Rightarrow> Some l
      | [] \<Rightarrow>
        (case filter (\<lambda>l. take (length name) (fst l) = name) longs of
           [l] \<Rightarrow> Some l
         | _ \<Rightarrow> None))"

text \<open>The options of one cluster, and the arguments that are left.\<close>

fun getopt_short :: "short_option list \<Rightarrow> string \<Rightarrow> string list \<Rightarrow> (int \<times> string) list \<times> string list" where
  "getopt_short shorts [] args = ([], args)"
| "getopt_short shorts (c # cs) args =
     (case map_of shorts c of
        None \<Rightarrow> (case getopt_short shorts cs args of (os, rest) \<Rightarrow> ((GETOPT_ERROR, []) # os, rest))
      | Some False \<Rightarrow> (case getopt_short shorts cs args of (os, rest) \<Rightarrow> ((of_char c, []) # os, rest))
      | Some True \<Rightarrow>
        (if cs \<noteq> [] then ([(of_char c, cs)], args)
         else case args of
           [] \<Rightarrow> ([(GETOPT_ERROR, [])], [])
         | a # rest \<Rightarrow> ([(of_char c, a)], rest)))"

text \<open>The option of one long argument without its dashes, and the arguments that are left.\<close>

definition getopt_one_long :: "long_option list \<Rightarrow> string \<Rightarrow> string list \<Rightarrow> (int \<times> string) \<times> string list" where
  "getopt_one_long longs body args =
     (let name = takeWhile (\<lambda>c. c \<noteq> CHR ''='') body;
          attached = (if CHR ''='' \<in> set body then Some (drop (length name + 1) body) else None) in
      case find_long longs name of
        None \<Rightarrow> ((GETOPT_ERROR, []), args)
      | Some (_, takes_arg, code) \<Rightarrow>
        (case attached of
           Some v \<Rightarrow> (if takes_arg then (code, v) else (GETOPT_ERROR, []), args)
         | None \<Rightarrow>
           (if \<not> takes_arg then ((code, []), args)
            else case args of
              [] \<Rightarrow> ((GETOPT_ERROR, []), [])
            | a # rest \<Rightarrow> ((code, a), rest))))"

lemma getopt_short_length: "length (snd (getopt_short shorts cs args)) \<le> length args"
  by (induction shorts cs args rule: getopt_short.induct)
    (auto split: option.splits bool.splits list.splits prod.splits)

lemma getopt_one_long_length: "length (snd (getopt_one_long longs body args)) \<le> length args"
  by (auto simp: getopt_one_long_def Let_def split: option.splits list.splits)

text \<open>All options in the order \<open>getopt_long\<close> returns them.\<close>

function getopt_long :: "short_option list \<Rightarrow> long_option list \<Rightarrow> string list \<Rightarrow> (int \<times> string) list" where
  "getopt_long shorts longs args =
     (case args of
        [] \<Rightarrow> []
      | a # rest \<Rightarrow>
        if a = ''--'' then []
        else if take 2 a = ''--'' then
          (case getopt_one_long longs (drop 2 a) rest of (opt, rest') \<Rightarrow> opt # getopt_long shorts longs rest')
        else if take 1 a = ''-'' \<and> a \<noteq> ''-'' then
          (case getopt_short shorts (drop 1 a) rest of (os, rest') \<Rightarrow> os @ getopt_long shorts longs rest')
        else getopt_long shorts longs rest)"
  by pat_completeness auto
termination
proof (relation "measure (\<lambda>(_, _, args). length args)"; simp)
  show "length rest' < Suc (length rest)" if "(opt, rest') = getopt_one_long longs body rest"
    for longs body and rest rest' :: "string list" and opt
    using getopt_one_long_length [of longs body rest] that by (metis le_imp_less_Suc snd_conv)
  show "length rest' < Suc (length rest)" if "(os, rest') = getopt_short shorts cs rest"
    for shorts cs and rest rest' :: "string list" and os
    using getopt_short_length [of shorts cs rest] that by (metis le_imp_less_Suc snd_conv)
qed

declare getopt_long.simps [simp del]

section \<open>Data\<close>

definition CONFIG_MAX_BACKENDS :: nat where "CONFIG_MAX_BACKENDS = 64"
definition CONFIG_IFACE_LEN :: nat where "CONFIG_IFACE_LEN = 16"
definition CONFIG_ADMIN_FIFO_LEN :: nat where "CONFIG_ADMIN_FIFO_LEN = 256"

record config_backend =
  cb_addr :: u32
  cb_port :: u16

record config =
  cf_iface :: "char list"
  cf_vip :: u32
  cf_director_ip :: u32
  cf_ttl :: u8
  cf_table_size :: u32
  cf_max_flows :: u64
  cf_backends :: "config_backend list"
  cf_n_backends :: nat
  cf_hc_interval_ms :: u32
  cf_hc_timeout_ms :: u32
  cf_hc_rise :: u32
  cf_hc_fall :: u32
  cf_ct_tcp_timeout_ms :: u32
  cf_ct_udp_timeout_ms :: u32
  cf_tui_enabled :: bool
  cf_metrics_port :: u16
  cf_admin_fifo :: "char list"

definition OPT_HC_INTERVAL_MS :: int where "OPT_HC_INTERVAL_MS = 1001"
definition OPT_HC_TIMEOUT_MS :: int where "OPT_HC_TIMEOUT_MS = 1002"
definition OPT_HC_RISE :: int where "OPT_HC_RISE = 1003"
definition OPT_HC_FALL :: int where "OPT_HC_FALL = 1004"
definition OPT_TUI :: int where "OPT_TUI = 1005"
definition OPT_METRICS_PORT :: int where "OPT_METRICS_PORT = 1006"
definition OPT_ADMIN_FIFO :: int where "OPT_ADMIN_FIFO = 1007"
definition OPT_CT_TCP_TIMEOUT_MS :: int where "OPT_CT_TCP_TIMEOUT_MS = 1008"
definition OPT_CT_UDP_TIMEOUT_MS :: int where "OPT_CT_UDP_TIMEOUT_MS = 1009"

definition CT_TIMEOUT_MAX_MS :: int where "CT_TIMEOUT_MAX_MS = 3600000"

definition short_opts :: "short_option list" where
  "short_opts = [(CHR ''i'', True), (CHR ''v'', True), (CHR ''d'', True), (CHR ''b'', True),
     (CHR ''t'', True), (CHR ''m'', True), (CHR ''f'', True), (CHR ''h'', False)]"

definition long_opts :: "long_option list" where
  "long_opts =
     [(''iface'', True, of_char CHR ''i''), (''vip'', True, of_char CHR ''v''),
      (''director-ip'', True, of_char CHR ''d''), (''backend'', True, of_char CHR ''b''),
      (''ttl'', True, of_char CHR ''t''), (''table-size'', True, of_char CHR ''m''),
      (''max-flows'', True, of_char CHR ''f''), (''hc-interval-ms'', True, OPT_HC_INTERVAL_MS),
      (''hc-timeout-ms'', True, OPT_HC_TIMEOUT_MS), (''hc-rise'', True, OPT_HC_RISE),
      (''hc-fall'', True, OPT_HC_FALL), (''tui'', False, OPT_TUI),
      (''metrics-port'', True, OPT_METRICS_PORT), (''admin-fifo'', True, OPT_ADMIN_FIFO),
      (''ct-tcp-timeout-ms'', True, OPT_CT_TCP_TIMEOUT_MS),
      (''ct-udp-timeout-ms'', True, OPT_CT_UDP_TIMEOUT_MS), (''help'', False, of_char CHR ''h'')]"

section \<open>Values\<close>

definition parse_ip :: "string \<Rightarrow> u32 option" where
  "parse_ip s = inet_pton4 s"

text \<open>The buffer for the address has 64 bytes.\<close>

definition parse_backend_spec :: "string \<Rightarrow> config_backend option" where
  "parse_backend_spec spec =
     (case strrchr spec (CHR '':'') of
        None \<Rightarrow> None
      | Some ip_len \<Rightarrow>
        if ip_len = 0 \<or> ip_len \<ge> 64 then None
        else case parse_ip (take ip_len spec) of
          None \<Rightarrow> None
        | Some ip \<Rightarrow>
          let digits = drop (ip_len + 1) spec; (port, rest) = strtol digits in
          if rest = digits \<or> rest \<noteq> [] \<or> port \<le> 0 \<or> port > 65535 then None
          else Some \<lparr>cb_addr = ip, cb_port = of_int port\<rparr>)"

definition strncpy :: "char list \<Rightarrow> string \<Rightarrow> nat \<Rightarrow> char list" where
  "strncpy dst src n = take n (src @ replicate n (CHR 0x00)) @ drop n dst"

section \<open>The parser\<close>

record config_parse =
  pc_out :: config
  have_iface :: bool
  have_vip :: bool
  have_director :: bool

definition config_defaults :: config where
  "config_defaults =
     \<lparr>cf_iface = replicate CONFIG_IFACE_LEN (CHR 0x00), cf_vip = 0, cf_director_ip = 0, cf_ttl = 64,
      cf_table_size = 65537, cf_max_flows = 1000000,
      cf_backends = replicate CONFIG_MAX_BACKENDS \<lparr>cb_addr = 0, cb_port = 0\<rparr>, cf_n_backends = 0,
      cf_hc_interval_ms = 1000, cf_hc_timeout_ms = 500, cf_hc_rise = 2, cf_hc_fall = 3,
      cf_ct_tcp_timeout_ms = 120000, cf_ct_udp_timeout_ms = 45000, cf_tui_enabled = False,
      cf_metrics_port = 9105, cf_admin_fifo = replicate CONFIG_ADMIN_FIFO_LEN (CHR 0x00)\<rparr>"

text \<open>How the parser returns early: with 1 after printing the usage, or with -1, with or without
  the usage.\<close>

datatype config_stop = Config_help | Config_error bool

text \<open>A numeric option read by \<open>strtol\<close> without looking at what follows the number.\<close>

definition num_option ::
  "string \<Rightarrow> (int \<Rightarrow> bool) \<Rightarrow> (int \<Rightarrow> config \<Rightarrow> config) \<Rightarrow> config_parse \<Rightarrow> config_stop + config_parse" where
  "num_option optarg ok set_field p =
     (let v = fst (strtol optarg) in
      if ok v then Inr (p\<lparr>pc_out := set_field v (pc_out p)\<rparr>) else Inl (Config_error False))"

definition timeout_option ::
  "string \<Rightarrow> (u32 \<Rightarrow> config \<Rightarrow> config) \<Rightarrow> config_parse \<Rightarrow> config_stop + config_parse" where
  "timeout_option optarg set_field p =
     (let (v, rest) = strtol optarg in
      if rest = optarg \<or> rest \<noteq> [] \<or> v \<le> 0 \<or> v > CT_TIMEOUT_MAX_MS then Inl (Config_error False)
      else Inr (p\<lparr>pc_out := set_field (of_int v) (pc_out p)\<rparr>))"

definition backend_option :: "string \<Rightarrow> config_parse \<Rightarrow> config_stop + config_parse" where
  "backend_option optarg p =
     (let out = pc_out p in
      if cf_n_backends out \<ge> CONFIG_MAX_BACKENDS then Inl (Config_error False)
      else case parse_backend_spec optarg of
        None \<Rightarrow> Inl (Config_error False)
      | Some b \<Rightarrow> Inr (p\<lparr>pc_out := out\<lparr>cf_backends := (cf_backends out)[cf_n_backends out := b],
                         cf_n_backends := cf_n_backends out + 1\<rparr>\<rparr>))"

text \<open>The body of the loop.\<close>

definition config_option :: "int \<Rightarrow> string \<Rightarrow> config_parse \<Rightarrow> config_stop + config_parse" where
  "config_option c optarg p =
     (if c = of_char CHR ''i'' then
        Inr (p\<lparr>pc_out := (pc_out p)\<lparr>cf_iface := strncpy (cf_iface (pc_out p)) optarg (CONFIG_IFACE_LEN - 1)\<rparr>,
               have_iface := True\<rparr>)
      else if c = of_char CHR ''v'' then
        (case parse_ip optarg of
           None \<Rightarrow> Inl (Config_error False)
         | Some ip \<Rightarrow> Inr (p\<lparr>pc_out := (pc_out p)\<lparr>cf_vip := ip\<rparr>, have_vip := True\<rparr>))
      else if c = of_char CHR ''d'' then
        (case parse_ip optarg of
           None \<Rightarrow> Inl (Config_error False)
         | Some ip \<Rightarrow> Inr (p\<lparr>pc_out := (pc_out p)\<lparr>cf_director_ip := ip\<rparr>, have_director := True\<rparr>))
      else if c = of_char CHR ''b'' then backend_option optarg p
      else if c = of_char CHR ''t'' then
        num_option optarg (\<lambda>v. 0 < v \<and> v \<le> 255) (\<lambda>v cf. cf\<lparr>cf_ttl := of_int v\<rparr>) p
      else if c = of_char CHR ''m'' then
        num_option optarg (\<lambda>v. 2 < v \<and> v \<le> 2 ^ 32 - 1) (\<lambda>v cf. cf\<lparr>cf_table_size := of_int v\<rparr>) p
      else if c = of_char CHR ''f'' then
        num_option optarg (\<lambda>v. 0 < v) (\<lambda>v cf. cf\<lparr>cf_max_flows := of_int v\<rparr>) p
      else if c = OPT_HC_INTERVAL_MS then
        num_option optarg (\<lambda>v. 0 < v) (\<lambda>v cf. cf\<lparr>cf_hc_interval_ms := of_int v\<rparr>) p
      else if c = OPT_HC_TIMEOUT_MS then
        num_option optarg (\<lambda>v. 0 < v) (\<lambda>v cf. cf\<lparr>cf_hc_timeout_ms := of_int v\<rparr>) p
      else if c = OPT_HC_RISE then
        num_option optarg (\<lambda>v. 0 < v) (\<lambda>v cf. cf\<lparr>cf_hc_rise := of_int v\<rparr>) p
      else if c = OPT_HC_FALL then
        num_option optarg (\<lambda>v. 0 < v) (\<lambda>v cf. cf\<lparr>cf_hc_fall := of_int v\<rparr>) p
      else if c = OPT_TUI then Inr (p\<lparr>pc_out := (pc_out p)\<lparr>cf_tui_enabled := True\<rparr>\<rparr>)
      else if c = OPT_METRICS_PORT then
        num_option optarg (\<lambda>v. 0 \<le> v \<and> v \<le> 65535) (\<lambda>v cf. cf\<lparr>cf_metrics_port := of_int v\<rparr>) p
      else if c = OPT_ADMIN_FIFO then
        Inr (p\<lparr>pc_out := (pc_out p)\<lparr>cf_admin_fifo :=
          strncpy (cf_admin_fifo (pc_out p)) optarg (CONFIG_ADMIN_FIFO_LEN - 1)\<rparr>\<rparr>)
      else if c = OPT_CT_TCP_TIMEOUT_MS then timeout_option optarg (\<lambda>v cf. cf\<lparr>cf_ct_tcp_timeout_ms := v\<rparr>) p
      else if c = OPT_CT_UDP_TIMEOUT_MS then timeout_option optarg (\<lambda>v cf. cf\<lparr>cf_ct_udp_timeout_ms := v\<rparr>) p
      else if c = of_char CHR ''h'' then Inl Config_help
      else Inl (Config_error True))"

fun config_loop :: "(int \<times> string) list \<Rightarrow> config_parse \<Rightarrow> config_stop + config_parse" where
  "config_loop [] p = Inr p"
| "config_loop ((c, optarg) # opts) p =
     (case config_option c optarg p of Inl stop \<Rightarrow> Inl stop | Inr p' \<Rightarrow> config_loop opts p')"

definition config_parse_args :: "string list \<Rightarrow> config_stop + config" where
  "config_parse_args argv =
     (case config_loop (getopt_long short_opts long_opts (drop 1 argv))
             \<lparr>pc_out = config_defaults, have_iface = False, have_vip = False, have_director = False\<rparr> of
        Inl stop \<Rightarrow> Inl stop
      | Inr p \<Rightarrow>
        if \<not> have_iface p \<or> \<not> have_vip p \<or> \<not> have_director p \<or> cf_n_backends (pc_out p) = 0
        then Inl (Config_error True)
        else Inr (pc_out p))"

section \<open>Bounds\<close>

definition nul_terminated :: "nat \<Rightarrow> char list \<Rightarrow> bool" where
  "nul_terminated n buf \<longleftrightarrow> length buf = n \<and> 0 < n \<and> buf ! (n - 1) = CHR 0x00"

definition config_bounds :: "config \<Rightarrow> bool" where
  "config_bounds c \<longleftrightarrow>
     nul_terminated CONFIG_IFACE_LEN (cf_iface c) \<and> nul_terminated CONFIG_ADMIN_FIFO_LEN (cf_admin_fifo c) \<and>
     length (cf_backends c) = CONFIG_MAX_BACKENDS \<and> cf_n_backends c \<le> CONFIG_MAX_BACKENDS \<and>
     list_all (\<lambda>b. cb_port b \<noteq> 0) (take (cf_n_backends c) (cf_backends c)) \<and>
     0 < cf_ttl c \<and> 2 < cf_table_size c \<and> 0 < cf_max_flows c \<and> cf_max_flows c < 2 ^ 63 \<and>
     0 < cf_ct_tcp_timeout_ms c \<and> cf_ct_tcp_timeout_ms c \<le> 3600000 \<and>
     0 < cf_ct_udp_timeout_ms c \<and> cf_ct_udp_timeout_ms c \<le> 3600000"

lemma nul_terminated_strncpy:
  assumes "nul_terminated n buf"
  shows "nul_terminated n (strncpy buf s (n - 1))"
proof -
  define xs where "xs = take (n - 1) (s @ replicate (n - 1) (CHR 0x00))"
  have "length xs = n - 1" unfolding xs_def length_take by simp
  then show ?thesis
    using assms unfolding nul_terminated_def strncpy_def xs_def [symmetric] by (auto simp: nth_append)
qed

lemma unat_of_int_small:
  assumes "0 \<le> v" "v < 2 ^ LENGTH('a::len)"
  shows "unat (of_int v :: 'a word) = nat v"
proof -
  have "(of_int v :: 'a word) = of_nat (nat v)" using assms(1) by simp
  moreover have "nat v < 2 ^ LENGTH('a)" using assms by (simp add: nat_less_iff)
  ultimately show ?thesis by (simp add: unsigned_of_nat take_bit_nat_eq_self)
qed

lemma parse_backend_spec_port:
  assumes "parse_backend_spec spec = Some b"
  shows "cb_port b \<noteq> 0"
proof -
  obtain v where v: "\<not> v \<le> 0" "\<not> 65535 < v" "cb_port b = of_int v"
    using assms by (auto simp: parse_backend_spec_def Let_def split: option.splits prod.splits if_splits)
  have "unat (cb_port b) = nat v" unfolding v(3) by (rule unat_of_int_small) (use v in simp_all)
  then show ?thesis using v(1) by auto
qed

lemma config_defaults_bounds: "config_bounds config_defaults"
  by (simp add: config_bounds_def config_defaults_def nul_terminated_def CONFIG_IFACE_LEN_def
      CONFIG_ADMIN_FIFO_LEN_def CONFIG_MAX_BACKENDS_def)

lemma num_option_Inr:
  assumes "num_option optarg ok set_field p = Inr p'"
  shows "\<exists>v. ok v \<and> v \<le> 2 ^ 63 - 1 \<and> p' = p\<lparr>pc_out := set_field v (pc_out p)\<rparr>"
  using assms strtol_range(2) [of optarg]
  by (intro exI [of _ "fst (strtol optarg)"]) (auto simp: num_option_def Let_def LONG_MAX_def split: if_splits)

lemma timeout_option_Inr:
  assumes "timeout_option optarg set_field p = Inr p'"
  shows "\<exists>v. 0 < v \<and> v \<le> 3600000 \<and> p' = p\<lparr>pc_out := set_field v (pc_out p)\<rparr>"
proof -
  obtain v where v: "\<not> v \<le> 0" "\<not> 3600000 < v" "p' = p\<lparr>pc_out := set_field (of_int v) (pc_out p)\<rparr>"
    using assms by (auto simp: timeout_option_def CT_TIMEOUT_MAX_MS_def split: prod.splits if_splits)
  have "unat (of_int v :: u32) = nat v" by (rule unat_of_int_small) (use v in simp_all)
  then have "0 < (of_int v :: u32) \<and> (of_int v :: u32) \<le> 3600000"
    using v by (simp add: word_less_nat_alt word_le_nat_alt)
  then show ?thesis using v(3) by blast
qed

lemma backend_option_bounds:
  assumes "backend_option optarg p = Inr p'" "config_bounds (pc_out p)"
  shows "config_bounds (pc_out p')"
proof -
  let ?c = "pc_out p"
  obtain b where b: "cf_n_backends ?c < CONFIG_MAX_BACKENDS" "parse_backend_spec optarg = Some b"
      "p' = p\<lparr>pc_out := ?c\<lparr>cf_backends := (cf_backends ?c)[cf_n_backends ?c := b],
         cf_n_backends := cf_n_backends ?c + 1\<rparr>\<rparr>"
    using assms(1) by (auto simp: backend_option_def Let_def split: if_splits option.splits)
  have "take (cf_n_backends ?c + 1) ((cf_backends ?c)[cf_n_backends ?c := b]) =
      take (cf_n_backends ?c) (cf_backends ?c) @ [b]"
    using b(1) assms(2) by (simp add: config_bounds_def take_Suc_conv_app_nth)
  then show ?thesis using assms(2) b(1) parse_backend_spec_port [OF b(2)] unfolding b(3)
    by (simp add: config_bounds_def)
qed

lemma config_option_bounds:
  assumes "config_option c optarg p = Inr p'" "config_bounds (pc_out p)"
  shows "config_bounds (pc_out p')"
proof -
  have u: "0 < v \<Longrightarrow> v \<le> 255 \<Longrightarrow> 0 < (of_int v :: u8)"
    "2 < v \<Longrightarrow> v \<le> 2 ^ 32 - 1 \<Longrightarrow> 2 < (of_int v :: u32)"
    "0 < v \<Longrightarrow> v \<le> 2 ^ 63 - 1 \<Longrightarrow> 0 < (of_int v :: u64) \<and> (of_int v :: u64) < 2 ^ 63" for v
    using unat_of_int_small [of v, where 'a = 8] unat_of_int_small [of v, where 'a = 32]
      unat_of_int_small [of v, where 'a = 64]
    by (simp_all add: word_less_nat_alt)
  show ?thesis
  proof (cases "c = of_char CHR ''b''")
    case True
    then show ?thesis using assms backend_option_bounds by (simp add: config_option_def)
  next
    case False
    then show ?thesis
      using assms u unfolding config_option_def
      by (auto simp: config_bounds_def nul_terminated_strncpy [unfolded One_nat_def]
          dest!: num_option_Inr timeout_option_Inr split: if_splits option.splits)
  qed
qed

lemma config_loop_bounds:
  assumes "config_loop opts p = Inr p'" "config_bounds (pc_out p)"
  shows "config_bounds (pc_out p')"
  using assms
  by (induction opts p rule: config_loop.induct) (auto split: sum.splits dest: config_option_bounds)

section \<open>Printing a configuration\<close>

lemma config_parse_bounds:
  assumes "config_parse_args argv = Inr c"
  shows "config_bounds c \<and> 0 < cf_n_backends c"
proof (cases "config_loop (getopt_long short_opts long_opts (drop 1 argv))
    \<lparr>pc_out = config_defaults, have_iface = False, have_vip = False, have_director = False\<rparr>")
  case (Inl stop)
  then show ?thesis using assms by (simp add: config_parse_args_def)
next
  case (Inr p)
  have "config_bounds (pc_out p)" by (rule config_loop_bounds [OF Inr]) (simp add: config_defaults_bounds)
  moreover have "c = pc_out p \<and> 0 < cf_n_backends (pc_out p)"
    using assms Inr by (simp add: config_parse_args_def split: if_splits)
  ultimately show ?thesis by simp
qed

definition backend_spec :: "config_backend \<Rightarrow> string" where
  "backend_spec b = ipv4_dotted (cb_addr b) @ '':'' @ dec (unat (cb_port b))"

text \<open>The options that describe a configuration.\<close>

definition config_tail_args :: "config \<Rightarrow> (string \<times> int \<times> string) list" where
  "config_tail_args c =
     [(''ttl'', of_char CHR ''t'', dec (unat (cf_ttl c))),
      (''table-size'', of_char CHR ''m'', dec (unat (cf_table_size c))),
      (''max-flows'', of_char CHR ''f'', dec (unat (cf_max_flows c))),
      (''hc-interval-ms'', OPT_HC_INTERVAL_MS, dec (unat (cf_hc_interval_ms c))),
      (''hc-timeout-ms'', OPT_HC_TIMEOUT_MS, dec (unat (cf_hc_timeout_ms c))),
      (''hc-rise'', OPT_HC_RISE, dec (unat (cf_hc_rise c))),
      (''hc-fall'', OPT_HC_FALL, dec (unat (cf_hc_fall c))),
      (''metrics-port'', OPT_METRICS_PORT, dec (unat (cf_metrics_port c))),
      (''admin-fifo'', OPT_ADMIN_FIFO, cstring (cf_admin_fifo c)),
      (''ct-tcp-timeout-ms'', OPT_CT_TCP_TIMEOUT_MS, dec (unat (cf_ct_tcp_timeout_ms c))),
      (''ct-udp-timeout-ms'', OPT_CT_UDP_TIMEOUT_MS, dec (unat (cf_ct_udp_timeout_ms c)))]"

definition config_args :: "config \<Rightarrow> (string \<times> int \<times> string) list" where
  "config_args c =
     [(''iface'', of_char CHR ''i'', cstring (cf_iface c)),
      (''vip'', of_char CHR ''v'', ipv4_dotted (cf_vip c)),
      (''director-ip'', of_char CHR ''d'', ipv4_dotted (cf_director_ip c))] @
     map (\<lambda>b. (''backend'', of_char CHR ''b'', backend_spec b)) (take (cf_n_backends c) (cf_backends c)) @
     config_tail_args c"

definition config_argv :: "string \<Rightarrow> config \<Rightarrow> string list" where
  "config_argv prog c =
     prog # concat (map (\<lambda>(name, code, v). [''--'' @ name, v]) (config_args c)) @
     (if cf_tui_enabled c then [''--tui''] else [])"

text \<open>A configuration as the parser can produce it: the arrays are padded with zeros, some backend is
  given and no health-check parameter is zero.\<close>

definition padded :: "'a \<Rightarrow> nat \<Rightarrow> 'a list \<Rightarrow> 'a list" where
  "padded z n xs = xs @ replicate (n - length xs) z"

definition config_complete :: "config \<Rightarrow> bool" where
  "config_complete c \<longleftrightarrow> config_bounds c \<and> 0 < cf_n_backends c \<and>
     cf_iface c = padded (CHR 0x00) CONFIG_IFACE_LEN (cstring (cf_iface c)) \<and>
     cf_admin_fifo c = padded (CHR 0x00) CONFIG_ADMIN_FIFO_LEN (cstring (cf_admin_fifo c)) \<and>
     cf_backends c = padded \<lparr>cb_addr = 0, cb_port = 0\<rparr> CONFIG_MAX_BACKENDS (take (cf_n_backends c) (cf_backends c)) \<and>
     0 < cf_hc_interval_ms c \<and> 0 < cf_hc_timeout_ms c \<and> 0 < cf_hc_rise c \<and> 0 < cf_hc_fall c"

lemma getopt_long_arg:
  assumes "find_long longs name = Some (n, True, code)" "CHR ''='' \<notin> set name" "name \<noteq> []"
  shows "getopt_long shorts longs ((''--'' @ name) # v # rest) = (code, v) # getopt_long shorts longs rest"
proof -
  have t: "takeWhile (\<lambda>c. c \<noteq> CHR ''='') name = name" using assms(2) by (auto simp: takeWhile_eq_all_conv)
  show ?thesis
    using assms by (subst getopt_long.simps) (simp add: getopt_one_long_def t)
qed

lemma getopt_long_args:
  assumes "\<forall>(name, code, v) \<in> set opts.
    (\<exists>n. find_long longs name = Some (n, True, code)) \<and> CHR ''='' \<notin> set name \<and> name \<noteq> []"
  shows "getopt_long shorts longs (concat (map (\<lambda>(name, code, v). [''--'' @ name, v]) opts) @ rest) =
    map snd opts @ getopt_long shorts longs rest"
  using assms
proof (induction opts)
  case (Cons opt opts)
  obtain name code v where o: "opt = (name, code, v)" by (cases opt)
  then obtain n where "find_long longs name = Some (n, True, code)" "CHR ''='' \<notin> set name" "name \<noteq> []"
    using Cons.prems by auto
  from getopt_long_arg [OF this, of shorts v] show ?case using Cons o by simp
qed simp

lemma long_names:
  "find_long long_opts ''iface'' = Some (''iface'', True, of_char CHR ''i'')"
  "find_long long_opts ''vip'' = Some (''vip'', True, of_char CHR ''v'')"
  "find_long long_opts ''director-ip'' = Some (''director-ip'', True, of_char CHR ''d'')"
  "find_long long_opts ''backend'' = Some (''backend'', True, of_char CHR ''b'')"
  "find_long long_opts ''ttl'' = Some (''ttl'', True, of_char CHR ''t'')"
  "find_long long_opts ''table-size'' = Some (''table-size'', True, of_char CHR ''m'')"
  "find_long long_opts ''max-flows'' = Some (''max-flows'', True, of_char CHR ''f'')"
  "find_long long_opts ''hc-interval-ms'' = Some (''hc-interval-ms'', True, OPT_HC_INTERVAL_MS)"
  "find_long long_opts ''hc-timeout-ms'' = Some (''hc-timeout-ms'', True, OPT_HC_TIMEOUT_MS)"
  "find_long long_opts ''hc-rise'' = Some (''hc-rise'', True, OPT_HC_RISE)"
  "find_long long_opts ''hc-fall'' = Some (''hc-fall'', True, OPT_HC_FALL)"
  "find_long long_opts ''metrics-port'' = Some (''metrics-port'', True, OPT_METRICS_PORT)"
  "find_long long_opts ''admin-fifo'' = Some (''admin-fifo'', True, OPT_ADMIN_FIFO)"
  "find_long long_opts ''ct-tcp-timeout-ms'' = Some (''ct-tcp-timeout-ms'', True, OPT_CT_TCP_TIMEOUT_MS)"
  "find_long long_opts ''ct-udp-timeout-ms'' = Some (''ct-udp-timeout-ms'', True, OPT_CT_UDP_TIMEOUT_MS)"
  by code_simp+

lemma getopt_tui: "getopt_long short_opts long_opts [''--tui''] = [(OPT_TUI, [])]"
  by code_simp

lemma getopt_long_Nil [simp]: "getopt_long shorts longs [] = []"
  by (simp add: getopt_long.simps)

lemma getopt_config:
  "getopt_long short_opts long_opts (drop 1 (config_argv prog c)) =
     map snd (config_args c) @ (if cf_tui_enabled c then [(OPT_TUI, [])] else [])"
proof -
  have "\<forall>(name, code, v) \<in> set (config_args c).
      (\<exists>n. find_long long_opts name = Some (n, True, code)) \<and> CHR ''='' \<notin> set name \<and> name \<noteq> []"
    by (auto simp: config_args_def config_tail_args_def long_names)
  note opts = getopt_long_args [OF this, of short_opts]
  show ?thesis
    unfolding config_argv_def drop_Cons' using opts [of "[''--tui'']"] opts [of "[]"] by (simp add: getopt_tui)
qed

lemma parse_ip_dotted: "parse_ip (ipv4_dotted addr) = Some addr"
proof -
  obtain a b c d where m: "mem_of_u32 addr = [a, b, c, d]" by (simp add: mem_of_u32_def)
  then have "u32_of_mem [a, b, c, d] = addr" using u32_of_mem_of_u32 [of addr] by simp
  then show ?thesis using inet_pton4_quad [of a b c d] by (simp add: parse_ip_def ipv4_dotted_def m)
qed

lemma parse_backend_spec_print:
  assumes "cb_port b \<noteq> 0"
  shows "parse_backend_spec (backend_spec b) = Some b"
proof -
  let ?ip = "ipv4_dotted (cb_addr b)" and ?d = "dec (unat (cb_port b))"
  have "CHR '':'' \<notin> set ?d" by (rule nondigit_not_in_dec) (simp add: isdigit_def)
  then have r: "strrchr (backend_spec b) (CHR '':'') = Some (length ?ip)"
    unfolding backend_spec_def using strrchr_append by simp
  have len: "length ?ip \<noteq> 0" "length ?ip < 64" using ipv4_dotted_length [of "cb_addr b"]
    by (auto simp: ipv4_dotted_def Let_def)
  define n where "n = unat (cb_port b)"
  have n: "unat (cb_port b) = n" "cb_port b = of_nat n" by (simp_all add: n_def)
  have "n \<noteq> 0" "n \<le> 65535" using assms unat_u16_less [of "cb_port b"] unfolding n_def by (simp_all add: unat_eq_zero)
  then have s: "strtol (dec n) = (int n, [])" "0 < int n" "int n \<le> 65535"
    using strtol_dec [of "[]" n] by (simp_all add: LONG_MAX_def)
  have parts: "take (length ?ip) (backend_spec b) = ?ip" "drop (length ?ip + 1) (backend_spec b) = dec n"
    by (simp_all add: backend_spec_def n(1))
  show ?thesis
    unfolding parse_backend_spec_def r using len s parts parse_ip_dotted [of "cb_addr b"] n(2)
      dec_not_Nil [of n, symmetric] by (cases b) (simp add: Let_def)
qed

section \<open>Reading it back\<close>

lemma config_loop_append:
  "config_loop (xs @ ys) p = (case config_loop xs p of Inl stop \<Rightarrow> Inl stop | Inr p' \<Rightarrow> config_loop ys p')"
  by (induction xs p rule: config_loop.induct) (auto split: sum.split)

abbreviation no_backend :: config_backend where "no_backend \<equiv> \<lparr>cb_addr = 0, cb_port = 0\<rparr>"

lemma config_loop_backends:
  assumes "list_all (\<lambda>b. cb_port b \<noteq> 0) bs" "length (pre @ bs) \<le> CONFIG_MAX_BACKENDS"
    "cf_backends (pc_out p) = padded no_backend CONFIG_MAX_BACKENDS pre" "cf_n_backends (pc_out p) = length pre"
  shows "config_loop (map (\<lambda>b. (of_char CHR ''b'', backend_spec b)) bs) p =
    Inr (p\<lparr>pc_out := (pc_out p)\<lparr>cf_backends := padded no_backend CONFIG_MAX_BACKENDS (pre @ bs),
      cf_n_backends := length (pre @ bs)\<rparr>\<rparr>)"
  using assms
proof (induction bs arbitrary: p pre)
  case Nil
  then show ?case by (cases p; cases "pc_out p") simp
next
  case (Cons b bs)
  have "(padded no_backend CONFIG_MAX_BACKENDS pre)[length pre := b] = padded no_backend CONFIG_MAX_BACKENDS (pre @ [b])"
    using Cons.prems(2)
    by (cases "CONFIG_MAX_BACKENDS - length pre") (auto simp: padded_def list_update_append)
  moreover have "length pre < CONFIG_MAX_BACKENDS" using Cons.prems(2) by simp
  moreover have "parse_backend_spec (backend_spec b) = Some b"
    using Cons.prems(1) by (simp add: parse_backend_spec_print)
  ultimately have step: "config_option (of_char CHR ''b'') (backend_spec b) p =
      Inr (p\<lparr>pc_out := (pc_out p)\<lparr>cf_backends := padded no_backend CONFIG_MAX_BACKENDS (pre @ [b]),
        cf_n_backends := length (pre @ [b])\<rparr>\<rparr>)"
    using Cons.prems(3,4) by (simp add: config_option_def backend_option_def Let_def)
  show ?case using Cons.IH [of "pre @ [b]"] Cons.prems step by simp
qed

lemmas opt_codes = OPT_HC_INTERVAL_MS_def OPT_HC_TIMEOUT_MS_def OPT_HC_RISE_def OPT_HC_FALL_def OPT_TUI_def
  OPT_METRICS_PORT_def OPT_ADMIN_FIFO_def OPT_CT_TCP_TIMEOUT_MS_def OPT_CT_UDP_TIMEOUT_MS_def

lemma num_option_print:
  assumes "n < 2 ^ 63" "ok (int n)"
  shows "num_option (dec n) ok set_field p = Inr (p\<lparr>pc_out := set_field (int n) (pc_out p)\<rparr>)"
  using assms strtol_dec [of "[]" n] by (simp add: num_option_def LONG_MAX_def)

lemma timeout_option_print:
  assumes "0 < n" "n \<le> 3600000"
  shows "timeout_option (dec n) set_field p = Inr (p\<lparr>pc_out := set_field (of_nat n) (pc_out p)\<rparr>)"
  using assms strtol_dec [of "[]" n] dec_not_Nil [of n, symmetric] by (simp add: timeout_option_def LONG_MAX_def CT_TIMEOUT_MAX_MS_def)

lemma takeWhile_shorter: "x \<in> set xs \<Longrightarrow> \<not> P x \<Longrightarrow> length (takeWhile P xs) < length xs"
  by (induction xs) auto

lemma strncpy_print:
  assumes "buf = padded (CHR 0x00) n (cstring buf)" "nul_terminated n buf" "dst = replicate n (CHR 0x00)"
  shows "strncpy dst (cstring buf) (n - 1) = buf"
proof -
  let ?s = "cstring buf"
  have "n - 1 < length buf" "buf ! (n - 1) = CHR 0x00" using assms(2) by (simp_all add: nul_terminated_def)
  then have "CHR 0x00 \<in> set buf" by (metis nth_mem)
  then have "length ?s < length buf" unfolding cstring_def by (rule takeWhile_shorter) simp
  then have "length ?s < n" using assms(2) by (simp add: nul_terminated_def)
  then have "strncpy dst ?s (n - 1) = ?s @ replicate (n - 1 - length ?s) (CHR 0x00) @ [CHR 0x00]"
    unfolding strncpy_def assms(3) by (simp add: min_def)
  also have "\<dots> = padded (CHR 0x00) n ?s"
    using \<open>length ?s < n\<close> replicate_append_same [of "n - 1 - length ?s" "CHR 0x00"]
    by (simp add: padded_def Suc_diff_Suc flip: replicate_Suc)
  finally show ?thesis using assms(1) by simp
qed

text \<open>Each option of a printed configuration, read into any state of the parser.\<close>

lemma config_option_print:
  "config_option (of_char CHR ''v'') (ipv4_dotted a) p = Inr (p\<lparr>pc_out := (pc_out p)\<lparr>cf_vip := a\<rparr>, have_vip := True\<rparr>)"
  "config_option (of_char CHR ''d'') (ipv4_dotted a) p =
    Inr (p\<lparr>pc_out := (pc_out p)\<lparr>cf_director_ip := a\<rparr>, have_director := True\<rparr>)"
  "0 < ttl \<Longrightarrow> config_option (of_char CHR ''t'') (dec (unat ttl)) p = Inr (p\<lparr>pc_out := (pc_out p)\<lparr>cf_ttl := ttl\<rparr>\<rparr>)"
  "2 < m \<Longrightarrow> config_option (of_char CHR ''m'') (dec (unat m)) p = Inr (p\<lparr>pc_out := (pc_out p)\<lparr>cf_table_size := m\<rparr>\<rparr>)"
  "0 < f \<Longrightarrow> f < 2 ^ 63 \<Longrightarrow>
    config_option (of_char CHR ''f'') (dec (unat f)) p = Inr (p\<lparr>pc_out := (pc_out p)\<lparr>cf_max_flows := f\<rparr>\<rparr>)"
  "0 < x \<Longrightarrow> config_option OPT_HC_INTERVAL_MS (dec (unat x)) p = Inr (p\<lparr>pc_out := (pc_out p)\<lparr>cf_hc_interval_ms := x\<rparr>\<rparr>)"
  "0 < x \<Longrightarrow> config_option OPT_HC_TIMEOUT_MS (dec (unat x)) p = Inr (p\<lparr>pc_out := (pc_out p)\<lparr>cf_hc_timeout_ms := x\<rparr>\<rparr>)"
  "0 < x \<Longrightarrow> config_option OPT_HC_RISE (dec (unat x)) p = Inr (p\<lparr>pc_out := (pc_out p)\<lparr>cf_hc_rise := x\<rparr>\<rparr>)"
  "0 < x \<Longrightarrow> config_option OPT_HC_FALL (dec (unat x)) p = Inr (p\<lparr>pc_out := (pc_out p)\<lparr>cf_hc_fall := x\<rparr>\<rparr>)"
  "config_option OPT_METRICS_PORT (dec (unat port)) p = Inr (p\<lparr>pc_out := (pc_out p)\<lparr>cf_metrics_port := port\<rparr>\<rparr>)"
  "0 < x \<Longrightarrow> x \<le> 3600000 \<Longrightarrow>
    config_option OPT_CT_TCP_TIMEOUT_MS (dec (unat x)) p = Inr (p\<lparr>pc_out := (pc_out p)\<lparr>cf_ct_tcp_timeout_ms := x\<rparr>\<rparr>)"
  "0 < x \<Longrightarrow> x \<le> 3600000 \<Longrightarrow>
    config_option OPT_CT_UDP_TIMEOUT_MS (dec (unat x)) p = Inr (p\<lparr>pc_out := (pc_out p)\<lparr>cf_ct_udp_timeout_ms := x\<rparr>\<rparr>)"
  "config_option OPT_TUI s p = Inr (p\<lparr>pc_out := (pc_out p)\<lparr>cf_tui_enabled := True\<rparr>\<rparr>)"
proof -
  have u: "uint ttl \<le> 255" "uint port \<le> 65535" "uint m \<le> 4294967295"
    using uint_bounded [of ttl] uint_bounded [of port] uint_bounded [of m] by simp_all
  have n: "unat ttl < 2 ^ 63" "unat port < 2 ^ 63" "unat m < 2 ^ 63" "unat x < 2 ^ 63"
    "f < 2 ^ 63 \<Longrightarrow> unat f < 2 ^ 63"
    using unat_u8_less [of ttl] unat_u16_less [of port] unat_u32_less [of m] unat_u32_less [of x]
    by (simp_all add: word_less_nat_alt)
  note num = num_option_print [OF n(1)] num_option_print [OF n(2)] num_option_print [OF n(3)]
    num_option_print [OF n(4)] num_option_print [OF n(5)]
  show "config_option (of_char CHR ''v'') (ipv4_dotted a) p = Inr (p\<lparr>pc_out := (pc_out p)\<lparr>cf_vip := a\<rparr>, have_vip := True\<rparr>)"
    "config_option (of_char CHR ''d'') (ipv4_dotted a) p =
      Inr (p\<lparr>pc_out := (pc_out p)\<lparr>cf_director_ip := a\<rparr>, have_director := True\<rparr>)"
    "config_option OPT_TUI s p = Inr (p\<lparr>pc_out := (pc_out p)\<lparr>cf_tui_enabled := True\<rparr>\<rparr>)"
    by (simp_all add: config_option_def opt_codes parse_ip_dotted)
  show "config_option (of_char CHR ''t'') (dec (unat ttl)) p = Inr (p\<lparr>pc_out := (pc_out p)\<lparr>cf_ttl := ttl\<rparr>\<rparr>)"
    if "0 < ttl" using that u by (simp add: config_option_def num word_less_def)
  show "config_option (of_char CHR ''m'') (dec (unat m)) p = Inr (p\<lparr>pc_out := (pc_out p)\<lparr>cf_table_size := m\<rparr>\<rparr>)"
    if "2 < m" using that u by (simp add: config_option_def num word_less_def)
  show "config_option (of_char CHR ''f'') (dec (unat f)) p = Inr (p\<lparr>pc_out := (pc_out p)\<lparr>cf_max_flows := f\<rparr>\<rparr>)"
    if "0 < f" "f < 2 ^ 63" using that(1) num(5) [OF that(2)] by (simp add: config_option_def word_less_def)
  show "config_option OPT_HC_INTERVAL_MS (dec (unat x)) p = Inr (p\<lparr>pc_out := (pc_out p)\<lparr>cf_hc_interval_ms := x\<rparr>\<rparr>)"
    "config_option OPT_HC_TIMEOUT_MS (dec (unat x)) p = Inr (p\<lparr>pc_out := (pc_out p)\<lparr>cf_hc_timeout_ms := x\<rparr>\<rparr>)"
    "config_option OPT_HC_RISE (dec (unat x)) p = Inr (p\<lparr>pc_out := (pc_out p)\<lparr>cf_hc_rise := x\<rparr>\<rparr>)"
    "config_option OPT_HC_FALL (dec (unat x)) p = Inr (p\<lparr>pc_out := (pc_out p)\<lparr>cf_hc_fall := x\<rparr>\<rparr>)"
    if "0 < x" using that by (simp_all add: config_option_def opt_codes num word_less_def)
  show "config_option OPT_METRICS_PORT (dec (unat port)) p = Inr (p\<lparr>pc_out := (pc_out p)\<lparr>cf_metrics_port := port\<rparr>\<rparr>)"
    using u by (simp add: config_option_def opt_codes num)
  show "config_option OPT_CT_TCP_TIMEOUT_MS (dec (unat x)) p = Inr (p\<lparr>pc_out := (pc_out p)\<lparr>cf_ct_tcp_timeout_ms := x\<rparr>\<rparr>)"
    "config_option OPT_CT_UDP_TIMEOUT_MS (dec (unat x)) p = Inr (p\<lparr>pc_out := (pc_out p)\<lparr>cf_ct_udp_timeout_ms := x\<rparr>\<rparr>)"
    if "0 < x" "x \<le> 3600000"
    using that by (simp_all add: config_option_def opt_codes timeout_option_print word_less_nat_alt word_le_nat_alt)
qed

lemma config_loop_print:
  assumes c: "config_complete c"
  defines "p0 \<equiv> \<lparr>pc_out = config_defaults, have_iface = False, have_vip = False, have_director = False\<rparr>"
  shows "config_loop (map snd (config_args c) @ (if cf_tui_enabled c then [(OPT_TUI, [])] else [])) p0 =
    Inr \<lparr>pc_out = c, have_iface = True, have_vip = True, have_director = True\<rparr>"
proof -
  let ?bs = "take (cf_n_backends c) (cf_backends c)"
  note B = c [unfolded config_complete_def config_bounds_def]
  have n: "length ?bs = cf_n_backends c" using B by simp
  have iface: "strncpy (replicate CONFIG_IFACE_LEN (CHR 0x00)) (cstring (cf_iface c)) (CONFIG_IFACE_LEN - 1) = cf_iface c"
    and fifo: "strncpy (replicate CONFIG_ADMIN_FIFO_LEN (CHR 0x00)) (cstring (cf_admin_fifo c))
      (CONFIG_ADMIN_FIFO_LEN - 1) = cf_admin_fifo c"
    using B by (auto intro!: strncpy_print simp del: One_nat_def)
  have f: "config_option OPT_ADMIN_FIFO (cstring (cf_admin_fifo c)) p =
      Inr (p\<lparr>pc_out := (pc_out p)\<lparr>cf_admin_fifo := cf_admin_fifo c\<rparr>\<rparr>)"
    if "cf_admin_fifo (pc_out p) = replicate CONFIG_ADMIN_FIFO_LEN (CHR 0x00)" for p
    using that fifo by (simp add: config_option_def opt_codes del: One_nat_def)
  define p1 where "p1 = \<lparr>pc_out = config_defaults\<lparr>cf_iface := cf_iface c, cf_vip := cf_vip c,
    cf_director_ip := cf_director_ip c\<rparr>, have_iface = True, have_vip = True, have_director = True\<rparr>"
  have 1: "config_loop [(of_char CHR ''i'', cstring (cf_iface c)), (of_char CHR ''v'', ipv4_dotted (cf_vip c)),
      (of_char CHR ''d'', ipv4_dotted (cf_director_ip c))] p0 = Inr p1"
    using iface by (simp add: p0_def p1_def config_option_def config_defaults_def parse_ip_dotted del: One_nat_def)
  define p2 where "p2 = p1\<lparr>pc_out := (pc_out p1)\<lparr>cf_backends := cf_backends c, cf_n_backends := cf_n_backends c\<rparr>\<rparr>"
  have 2: "config_loop (map (\<lambda>b. (of_char CHR ''b'', backend_spec b)) ?bs) p1 = Inr p2"
  proof -
    have bs: "list_all (\<lambda>b. cb_port b \<noteq> 0) ?bs" "cf_n_backends c \<le> CONFIG_MAX_BACKENDS"
      "padded no_backend CONFIG_MAX_BACKENDS ?bs = cf_backends c"
      using B by simp_all
    have p: "cf_backends (pc_out p1) = padded no_backend CONFIG_MAX_BACKENDS []" "cf_n_backends (pc_out p1) = length []"
      by (simp_all add: p1_def config_defaults_def padded_def)
    have "length ([] @ ?bs) \<le> CONFIG_MAX_BACKENDS" unfolding append_Nil n by (rule bs(2))
    from config_loop_backends [OF bs(1) this p] show ?thesis unfolding append_Nil n bs(3) p2_def .
  qed
  have o: "map snd (config_args c) =
      [(of_char CHR ''i'', cstring (cf_iface c)), (of_char CHR ''v'', ipv4_dotted (cf_vip c)),
        (of_char CHR ''d'', ipv4_dotted (cf_director_ip c))] @
      map (\<lambda>b. (of_char CHR ''b'', backend_spec b)) ?bs @ map snd (config_tail_args c)"
    unfolding config_args_def by (simp add: comp_def)
  have 3: "config_loop (map snd (config_tail_args c) @
      (if cf_tui_enabled c then [(OPT_TUI, [])] else [])) p2 =
    Inr \<lparr>pc_out = c, have_iface = True, have_vip = True, have_director = True\<rparr>"
    using B unfolding config_tail_args_def
    by (simp add: p2_def p1_def config_defaults_def config_option_print [simplified] f config_loop_append)
  show ?thesis unfolding o append_assoc config_loop_append [of _ "_ @ _"] 1 using 2 3 by (simp add: config_loop_append)
qed

section \<open>Properties\<close>

text \<open>C18. Every command line that is accepted gives a configuration within its bounds: between 1 and
  64 backends, all with a port, stored inside the array; NUL-terminated interface and FIFO names;
  a positive TTL; a table size above 2; a flow capacity from 1 to \<open>2 ^ 63 - 1\<close>; and idle timeouts
  from 1 ms to an hour. No sequence of arguments makes the parser write outside the arrays.\<close>

theorem config_accepted_bounds:
  assumes "config_parse_args argv = Inr c"
  shows "config_bounds c \<and> 0 < cf_n_backends c"
  using assms by (rule config_parse_bounds)

definition demo_argv :: "string list" where
  "demo_argv = [''lb'', ''-ieth0'', ''--vip=10.0.0.100'', ''--director'', ''10.0.0.1'', ''-b'', ''10.0.0.11:80'',
     ''operand'', ''--hc-rise'', ''4294967296'', ''--ct-udp-timeout-ms'', ''1000'', ''--'', ''--help'']"

lemma demo_argv_options:
  "getopt_long short_opts long_opts (drop 1 demo_argv) =
     [(of_char CHR ''i'', ''eth0''), (of_char CHR ''v'', ''10.0.0.100''), (of_char CHR ''d'', ''10.0.0.1''),
      (of_char CHR ''b'', ''10.0.0.11:80''), (OPT_HC_RISE, ''4294967296''), (OPT_CT_UDP_TIMEOUT_MS, ''1000'')]"
  by code_simp

lemma demo_argv_parses:
  "\<exists>c. config_parse_args demo_argv = Inr c \<and> cf_n_backends c = 1 \<and> cf_hc_rise c = 0 \<and> cf_ct_udp_timeout_ms c = 1000"
proof -
  have v: "parse_ip ''10.0.0.100'' = Some 0x6400000A" "parse_ip ''10.0.0.1'' = Some 0x0100000A"
    "parse_backend_spec ''10.0.0.11:80'' = Some \<lparr>cb_addr = 0x0B00000A, cb_port = 80\<rparr>"
    by code_simp+
  have n: "strtol ''4294967296'' = (4294967296, [])" "strtol ''1000'' = (1000, [])"
    by (simp_all add: strtol_def split_number_def isspace_def isdigit_def dec_value_def digit_value_def
        LONG_MIN_def LONG_MAX_def)
  show ?thesis
    unfolding config_parse_args_def demo_argv_options
    by (simp add: config_option_def opt_codes v n backend_option_def num_option_def timeout_option_def
        CT_TIMEOUT_MAX_MS_def config_defaults_def CONFIG_MAX_BACKENDS_def)
qed

theorem config_accepted_bounds_witness:
  "\<exists>c. config_parse_args demo_argv = Inr c \<and> config_bounds c \<and> cf_n_backends c = 1"
proof -
  obtain c where "config_parse_args demo_argv = Inr c" "cf_n_backends c = 1"
    using demo_argv_parses by blast
  then show ?thesis using config_accepted_bounds by blast
qed

text \<open>C37. Round trip. Every configuration within the bounds, with at least one backend and positive
  health-check parameters, is read back unchanged from the command line that prints its fields:
  the parser loses no value and rejects no admissible one.\<close>

theorem config_print_parse:
  assumes "config_complete c"
  shows "config_parse_args (config_argv prog c) = Inr c"
  using assms unfolding config_parse_args_def getopt_config config_loop_print [OF assms]
  by (simp add: config_complete_def)

definition demo_config :: config where
  "demo_config = config_defaults\<lparr>cf_iface := padded (CHR 0x00) CONFIG_IFACE_LEN ''eth0'', cf_vip := 0x6400000A,
     cf_director_ip := 0x0100000A, cf_backends := padded no_backend CONFIG_MAX_BACKENDS [\<lparr>cb_addr = 0x0B00000A, cb_port = 80\<rparr>],
     cf_n_backends := 1, cf_tui_enabled := True\<rparr>"

theorem config_print_parse_witness:
  "config_parse_args (config_argv ''lb'' demo_config) = Inr demo_config"
proof -
  have "config_complete demo_config"
    by (simp add: config_complete_def config_bounds_def nul_terminated_def demo_config_def config_defaults_def
        padded_def cstring_def CONFIG_IFACE_LEN_def CONFIG_ADMIN_FIFO_LEN_def CONFIG_MAX_BACKENDS_def)
  then show ?thesis by (rule config_print_parse)
qed

text \<open>A health-check threshold is reduced modulo \<open>2 ^ 32\<close> after it was found positive, so an accepted
  command line can set it to 0.\<close>

lemma config_hc_rise_truncated:
  "\<exists>c. config_parse_args demo_argv = Inr c \<and> cf_hc_rise c = 0"
  using demo_argv_parses by blast

text \<open>A rejected value ends the parser without the usage message.\<close>

lemma config_error_without_usage:
  "config_parse_args [''lb'', ''--vip'', ''10.0.0.300''] = Inl (Config_error False)"
  by code_simp

end
