(* ===== verification/Flow_Extract.thy ===== *)
theory Flow_Extract
  imports Net_Headers
begin

text \<open>
  The parse chain of \<open>src/net/flow.c\<close>: Ethernet, IPv4, TCP or UDP, giving the 5-tuple of a
  received frame. The result is \<open>None\<close> for an access outside the frame (shown never to
  happen), \<open>Some (Inl s)\<close> for a status \<open>s\<close> other than \<open>PARSE_OK\<close> and
  \<open>Some (Inr r)\<close> for \<open>PARSE_OK\<close> with \<open>r\<close> in \<open>*out\<close>.
\<close>

record flow_key =
  src_ip :: u32
  dst_ip :: u32
  src_port :: u16
  dst_port :: u16
  proto :: u8

datatype parse_status = PARSE_OK | PARSE_TRUNCATED | PARSE_UNSUPPORTED

record flow_extract_result =
  fx_key :: flow_key
  ip_offset :: nat
  ip_total_len :: nat

definition IPPROTO_TCP :: u8 where "IPPROTO_TCP = 6"
definition IPPROTO_UDP :: u8 where "IPPROTO_UDP = 17"

text \<open>The bytes of the packed struct, as \<open>memcmp\<close> and the flow hash see them.\<close>

definition flow_key_bytes :: "flow_key \<Rightarrow> u8 list" where
  "flow_key_bytes k =
     mem_of_u32 (src_ip k) @ mem_of_u32 (dst_ip k) @
     mem_of_u16 (src_port k) @ mem_of_u16 (dst_port k) @ [proto k]"

definition packet_extract_flow :: "buffer \<Rightarrow> (parse_status + flow_extract_result) option" where
  "packet_extract_flow buf =
     (let len = length buf in do {
       e \<leftarrow> eth_parse buf;
       case e of
         None \<Rightarrow> Some (Inl PARSE_TRUNCATED)
       | Some eth \<Rightarrow>
         if ethertype eth \<noteq> ETH_TYPE_IP then Some (Inl PARSE_UNSUPPORTED)
         else let ip_off = ETH_HDR_LEN in
         if ip_off > len then Some (Inl PARSE_TRUNCATED)
         else do {
           p \<leftarrow> ipv4_parse (drop ip_off buf);
           case p of
             None \<Rightarrow> Some (Inl PARSE_TRUNCATED)
           | Some ip \<Rightarrow>
             if ip_protocol ip \<noteq> IPPROTO_TCP \<and> ip_protocol ip \<noteq> IPPROTO_UDP
             then Some (Inl PARSE_UNSUPPORTED)
             else let l4_off = ip_off + header_len_bytes ip in
             if l4_off > len then None
             else do {
               ports \<leftarrow> (if ip_protocol ip = IPPROTO_TCP
                        then tcp_parse_ports (drop l4_off buf)
                        else udp_parse_ports (drop l4_off buf));
               case ports of
                 None \<Rightarrow> Some (Inl PARSE_TRUNCATED)
               | Some (sp, dp) \<Rightarrow>
                 Some (Inr \<lparr>fx_key = \<lparr>src_ip = ip_src ip, dst_ip = ip_dst ip,
                     src_port = sp, dst_port = dp, proto = ip_protocol ip\<rparr>,
                   ip_offset = ip_off, ip_total_len = unat (ip_total_length ip)\<rparr>)
             }
         }
     })"

section \<open>Keys and their bytes\<close>

lemma flow_key_bytes_length [simp]: "length (flow_key_bytes k) = 13"
  by (simp add: flow_key_bytes_def)

lemma flow_key_bytes_inject [simp]: "flow_key_bytes j = flow_key_bytes k \<longleftrightarrow> j = k"
  by (cases j; cases k) (auto simp: flow_key_bytes_def)

section \<open>The parse chain\<close>

text \<open>What a frame must look like, byte by byte, for each outcome.\<close>

definition frame_is_ip :: "buffer \<Rightarrow> bool" where
  "frame_is_ip buf \<longleftrightarrow> 14 \<le> length buf \<and> be16 (buf ! 12) (buf ! 13) = ETH_TYPE_IP"

definition frame_hdr_len :: "buffer \<Rightarrow> nat" where
  "frame_hdr_len buf = 4 * unat (buf ! 14 AND 0x0F)"

definition frame_total_len :: "buffer \<Rightarrow> nat" where
  "frame_total_len buf = unat (be16 (buf ! 16) (buf ! 17))"

definition frame_has_ipv4 :: "buffer \<Rightarrow> bool" where
  "frame_has_ipv4 buf \<longleftrightarrow>
     frame_is_ip buf \<and> 34 \<le> length buf \<and> drop_bit 4 (buf ! 14) = 4 \<and>
     20 \<le> frame_hdr_len buf \<and> frame_hdr_len buf \<le> frame_total_len buf \<and>
     14 + frame_total_len buf \<le> length buf"

definition l4_min_len :: "u8 \<Rightarrow> nat" where
  "l4_min_len p = (if p = IPPROTO_TCP then TCP_MIN_HDR_LEN else UDP_HDR_LEN)"

definition frame_routable :: "buffer \<Rightarrow> bool" where
  "frame_routable buf \<longleftrightarrow>
     frame_has_ipv4 buf \<and> (buf ! 23 = IPPROTO_TCP \<or> buf ! 23 = IPPROTO_UDP) \<and>
     14 + frame_hdr_len buf + l4_min_len (buf ! 23) \<le> length buf"

definition frame_key :: "buffer \<Rightarrow> flow_key" where
  "frame_key buf =
     \<lparr>src_ip = u32_of_mem (take 4 (drop 26 buf)), dst_ip = u32_of_mem (take 4 (drop 30 buf)),
      src_port = u16_of_mem (take 2 (drop (14 + frame_hdr_len buf) buf)),
      dst_port = u16_of_mem (take 2 (drop (16 + frame_hdr_len buf) buf)),
      proto = buf ! 23\<rparr>"

lemma eth_parse_ip_iff:
  "eth_parse buf = Some None \<longleftrightarrow> length buf < 14"
  "eth_parse buf = Some (Some e) \<Longrightarrow> 14 \<le> length buf \<and> ethertype e = be16 (buf ! 12) (buf ! 13)"
  by (auto simp: net_parse_defs split: if_splits)

lemma ipv4_parse_frame:
  assumes "frame_is_ip buf"
  shows "ipv4_parse (drop 14 buf) =
    Some (if frame_has_ipv4 buf
          then Some \<lparr>ihl_words = buf ! 14 AND 0x0F, ip_protocol = buf ! 23,
                 ip_total_length = be16 (buf ! 16) (buf ! 17),
                 ip_src = u32_of_mem (take 4 (drop 26 buf)),
                 ip_dst = u32_of_mem (take 4 (drop 30 buf)),
                 header_len_bytes = frame_hdr_len buf\<rparr>
          else None)"
  using assms
  by (auto simp: net_parse_defs frame_has_ipv4_def frame_is_ip_def frame_hdr_len_def
      frame_total_len_def word_less_nat_alt not_less mult.commute)

lemma ports_parse_frame:
  assumes "14 + frame_hdr_len buf \<le> length buf"
  shows "(if p = IPPROTO_TCP then tcp_parse_ports (drop (14 + frame_hdr_len buf) buf)
          else udp_parse_ports (drop (14 + frame_hdr_len buf) buf)) =
    Some (if 14 + frame_hdr_len buf + l4_min_len p \<le> length buf
          then Some (src_port (frame_key buf), dst_port (frame_key buf)) else None)"
  using assms
  by (auto simp: net_parse_defs l4_min_len_def frame_key_def add.commute)

lemma packet_extract_flow_eq:
  "packet_extract_flow buf =
     Some (if length buf < 14 then Inl PARSE_TRUNCATED
           else if \<not> frame_is_ip buf then Inl PARSE_UNSUPPORTED
           else if \<not> frame_has_ipv4 buf then Inl PARSE_TRUNCATED
           else if buf ! 23 \<noteq> IPPROTO_TCP \<and> buf ! 23 \<noteq> IPPROTO_UDP then Inl PARSE_UNSUPPORTED
           else if \<not> frame_routable buf then Inl PARSE_TRUNCATED
           else Inr \<lparr>fx_key = frame_key buf, ip_offset = 14,
                  ip_total_len = frame_total_len buf\<rparr>)"
proof -
  obtain e where e: "eth_parse buf = Some e" using eth_parse_safe by blast
  show ?thesis
  proof (cases e)
    case None
    with e have "length buf < 14" using eth_parse_ip_iff(1) by blast
    with e None show ?thesis by (simp add: packet_extract_flow_def)
  next
    case (Some eth)
    with e have len: "14 \<le> length buf" and et: "ethertype eth = be16 (buf ! 12) (buf ! 13)"
      using eth_parse_ip_iff(2) by blast+
    show ?thesis
    proof (cases "frame_has_ipv4 buf")
      case False
      then show ?thesis
        using e Some len et ipv4_parse_frame [of buf]
        by (simp add: packet_extract_flow_def net_lens frame_is_ip_def)
    next
      case True
      then have "frame_is_ip buf" "14 + frame_hdr_len buf \<le> length buf"
        by (auto simp: frame_has_ipv4_def)
      then show ?thesis
        using e Some len et True ipv4_parse_frame [of buf]
          ports_parse_frame [of buf "buf ! 23"]
        by (simp add: packet_extract_flow_def net_lens frame_is_ip_def frame_routable_def
            frame_key_def frame_total_len_def Let_def)
    qed
  qed
qed

section \<open>Properties\<close>

text \<open>C12. The parse chain is safe and exact. On any received bytes, of any length and content,
  \<open>packet_extract_flow\<close> and the parsers it calls never read outside the frame, and the frame gets
  one of the three statuses. The status is \<open>PARSE_OK\<close> precisely for the frames that carry an IPv4
  TCP or UDP packet whose headers fit the received bytes, and the 5-tuple, the offset and the
  length returned are the ones in the frame; the returned IP packet lies inside the frame.\<close>

theorem packet_extract_flow_exact:
  "(\<exists>s. packet_extract_flow buf = Some s) \<and>
   (packet_extract_flow buf = Some (Inr r) \<longleftrightarrow>
     frame_routable buf \<and> fx_key r = frame_key buf \<and> ip_offset r = 14 \<and>
     ip_total_len r = frame_total_len buf \<and> ip_offset r + ip_total_len r \<le> length buf)"
proof -
  have "frame_routable buf \<Longrightarrow> 14 + frame_total_len buf \<le> length buf"
    by (simp add: frame_routable_def frame_has_ipv4_def)
  moreover have "(r = \<lparr>fx_key = frame_key buf, ip_offset = 14,
      ip_total_len = frame_total_len buf\<rparr>) \<longleftrightarrow>
    fx_key r = frame_key buf \<and> ip_offset r = 14 \<and> ip_total_len r = frame_total_len buf"
    by (cases r) auto
  moreover have "frame_routable buf \<Longrightarrow> 14 \<le> length buf \<and> frame_is_ip buf \<and> frame_has_ipv4 buf \<and>
      (buf ! 23 = IPPROTO_TCP \<or> buf ! 23 = IPPROTO_UDP)"
    by (auto simp: frame_routable_def frame_has_ipv4_def)
  ultimately have "packet_extract_flow buf = Some (Inr r) \<longleftrightarrow>
     frame_routable buf \<and> fx_key r = frame_key buf \<and> ip_offset r = 14 \<and>
     ip_total_len r = frame_total_len buf \<and> ip_offset r + ip_total_len r \<le> length buf"
    by (auto simp: packet_extract_flow_eq split: if_splits)
  moreover have "\<exists>s. packet_extract_flow buf = Some s" by (simp add: packet_extract_flow_eq)
  ultimately show ?thesis by blast
qed

text \<open>The two refusals: what is dropped silently and what is counted as a parse error.\<close>

lemma packet_extract_flow_unsupported:
  "packet_extract_flow buf = Some (Inl PARSE_UNSUPPORTED) \<longleftrightarrow>
     14 \<le> length buf \<and>
     (\<not> frame_is_ip buf \<or>
      frame_has_ipv4 buf \<and> buf ! 23 \<noteq> IPPROTO_TCP \<and> buf ! 23 \<noteq> IPPROTO_UDP)"
  by (auto simp: packet_extract_flow_eq frame_has_ipv4_def)

lemma packet_extract_flow_not_ok_status: "packet_extract_flow buf \<noteq> Some (Inl PARSE_OK)"
  by (simp add: packet_extract_flow_eq)

end
