(* ===== verification/Gre_Encap.thy ===== *)
theory Gre_Encap
  imports Flow_Extract
begin

text \<open>
  The encapsulation step of \<open>src/net/gre.c\<close>: an Ethernet, an IPv4 and a minimal GRE header
  in front of the untouched client packet. The result is \<open>None\<close> for a write outside the
  output buffer or a read outside the inner packet or a MAC array; otherwise the returned
  length (0 when the frame does not fit) and the buffer after the call.
\<close>

text \<open>The byte copy loop, with \<open>k\<close> iterations left.\<close>

fun gre_copy_inner :: "nat \<Rightarrow> nat \<Rightarrow> buffer \<Rightarrow> nat \<Rightarrow> buffer \<Rightarrow> buffer option" where
  "gre_copy_inner 0 i out inner_off inner_packet = Some out"
| "gre_copy_inner (Suc k) i out inner_off inner_packet =
     do {
       b \<leftarrow> rd inner_packet i;
       out \<leftarrow> wr out (inner_off + i) b;
       gre_copy_inner k (Suc i) out inner_off inner_packet
     }"

definition gre_encap_build ::
  "buffer \<Rightarrow> nat \<Rightarrow> u8 list \<Rightarrow> u8 list \<Rightarrow> u32 \<Rightarrow> u32 \<Rightarrow> u8 \<Rightarrow> buffer \<Rightarrow> nat \<Rightarrow>
     (nat \<times> buffer) option" where
  "gre_encap_build out out_cap dst src outer_src_ip outer_dst_ip ttl inner_packet inner_len =
     (let total = ETH_HDR_LEN + IPV4_MIN_HDR_LEN + GRE_HDR_LEN + inner_len in
      if total > out_cap then Some (0, out)
      else do {
        out \<leftarrow> eth_build out 0 dst src ETH_TYPE_IP;
        let ip_off = ETH_HDR_LEN;
        let outer_total_len = word_of_nat (IPV4_MIN_HDR_LEN + GRE_HDR_LEN + inner_len);
        out \<leftarrow> ipv4_build out ip_off outer_src_ip outer_dst_ip IPPROTO_GRE_VAL outer_total_len ttl;
        let gre_off = ip_off + IPV4_MIN_HDR_LEN;
        out \<leftarrow> gre_build out gre_off ETH_TYPE_IP;
        let inner_off = gre_off + GRE_HDR_LEN;
        out \<leftarrow> gre_copy_inner inner_len 0 out inner_off inner_packet;
        Some (total, out)
      })"

section \<open>What is written\<close>

lemma gre_copy_inner_writes:
  assumes "length bs = k" "length xs = i" "length xs' = i" "length ys = k"
  shows "gre_copy_inner k i (as @ xs @ bs @ cs) (length as) (xs' @ ys @ zs) =
           Some (as @ xs @ ys @ cs)"
  using assms
proof (induction k arbitrary: i xs xs' bs ys)
  case 0
  then show ?case by simp
next
  case (Suc k)
  from Suc.prems obtain y yt where y: "ys = y # yt" "length yt = k" by (cases ys) auto
  from Suc.prems obtain b bt where b: "bs = b # bt" "length bt = k" by (cases bs) auto
  have "rd (xs' @ ys @ zs) i = Some y"
    using Suc.prems y by (simp add: rd_def nth_append)
  moreover have "wr (as @ xs @ bs @ cs) (length as + i) y = Some (as @ (xs @ [y]) @ bt @ cs)"
    using Suc.prems b by (simp add: wr_def list_update_append)
  ultimately show ?case
    using Suc.IH [of bt "xs @ [y]" "Suc i" "xs' @ [y]" yt] Suc.prems y b by simp
qed

text \<open>The frame a successful call leaves at the start of the output buffer.\<close>

definition gre_frame :: "u8 list \<Rightarrow> u8 list \<Rightarrow> u32 \<Rightarrow> u32 \<Rightarrow> u8 \<Rightarrow> u8 list \<Rightarrow> u8 list" where
  "gre_frame dst src outer_src_ip outer_dst_ip ttl inner =
     (let n = word_of_nat (24 + length inner) in
      (dst @ src @ [hi8 ETH_TYPE_IP, lo8 ETH_TYPE_IP]) @
      ipv4_header outer_src_ip outer_dst_ip IPPROTO_GRE_VAL n ttl
        (ipv4_header_csum outer_src_ip outer_dst_ip IPPROTO_GRE_VAL n ttl) @
      [0, 0, hi8 ETH_TYPE_IP, lo8 ETH_TYPE_IP] @ inner)"

lemma gre_frame_length:
  "length dst = 6 \<Longrightarrow> length src = 6 \<Longrightarrow>
     length (gre_frame dst src a b ttl inner) = 38 + length inner"
  by (simp add: gre_frame_def Let_def)

lemma gre_encap_build_eq:
  assumes cap: "out_cap \<le> length out" and macs: "length dst = 6" "length src = 6"
    and len: "inner_len \<le> length inner"
  shows "gre_encap_build out out_cap dst src a b ttl inner inner_len =
    Some (if 38 + inner_len \<le> out_cap
          then (38 + inner_len, gre_frame dst src a b ttl (take inner_len inner) @
                                drop (38 + inner_len) out)
          else (0, out))"
proof (cases "38 + inner_len \<le> out_cap")
  case True
  with cap have "14 + (38 + inner_len - 14) \<le> length out" by simp
  then obtain o1 o2 where o: "out = o1 @ o2" "length o1 = 14"
    by (metis add_leD1 split_at)
  with True cap have "20 + (4 + inner_len) \<le> length o2" by simp
  then obtain o3 o4 where o2: "o2 = o3 @ o4" "length o3 = 20"
    by (metis add_leD1 split_at)
  with True cap o have "4 + inner_len \<le> length o4" by simp
  then obtain o5 o6 where o4: "o4 = o5 @ o6" "length o5 = 4"
    by (metis add_leD1 split_at)
  with True cap o o2 have "inner_len \<le> length o6" by simp
  then obtain o7 o8 where o6: "o6 = o7 @ o8" "length o7 = inner_len"
    by (rule split_at)
  let ?e = "dst @ src @ [hi8 ETH_TYPE_IP, lo8 ETH_TYPE_IP]"
  let ?n = "word_of_nat (24 + inner_len)"
  let ?h = "ipv4_header a b IPPROTO_GRE_VAL ?n ttl (ipv4_header_csum a b IPPROTO_GRE_VAL ?n ttl)"
  let ?g = "[0, 0, hi8 ETH_TYPE_IP, lo8 ETH_TYPE_IP]"
  have e: "eth_build out 0 dst src ETH_TYPE_IP = Some (?e @ o3 @ o5 @ o7 @ o8)"
    using eth_build_writes [of o1 dst src "[]" o2] o o2 o4 o6 macs by (simp add: net_lens)
  have h: "ipv4_build (?e @ o3 @ o5 @ o7 @ o8) 14 a b IPPROTO_GRE_VAL ?n ttl =
             Some (?e @ ?h @ o5 @ o7 @ o8)"
    using ipv4_build_writes [of o3 ?e "o5 @ o7 @ o8"] o2 macs by (simp add: net_lens)
  have g: "gre_build (?e @ ?h @ o5 @ o7 @ o8) 34 ETH_TYPE_IP =
             Some (?e @ ?h @ ?g @ o7 @ o8)"
    using gre_build_writes [of o5 "?e @ ?h" "o7 @ o8"] o4 macs by (simp add: net_lens)
  have c: "gre_copy_inner inner_len 0 (?e @ ?h @ ?g @ o7 @ o8) 38 inner =
             Some (?e @ ?h @ ?g @ take inner_len inner @ o8)"
    using gre_copy_inner_writes [of o7 inner_len "[]" 0 "[]" "take inner_len inner"
        "?e @ ?h @ ?g" o8 "drop inner_len inner"] o6 len macs by simp
  have d: "drop (38 + inner_len) out = o8" using o o2 o4 o6 by simp
  show ?thesis
    using True e h g c d len
    by (simp add: gre_encap_build_def net_lens gre_frame_def Let_def)
next
  case False
  then show ?thesis by (simp add: gre_encap_build_def net_lens)
qed

section \<open>Properties\<close>

text \<open>C13. Encapsulation is transparent: when the frame fits, \<open>gre_encap_build\<close> stays inside
  the output buffer and returns the frame's length, and the receiver that strips the headers
  with the program's own parsers reads the chosen MAC addresses, the director and backend
  addresses, protocol 47 and the GRE payload type IPv4, sees a header checksum that verifies,
  and gets the client's packet back byte for byte; bytes after the frame are untouched.\<close>

theorem gre_encap_roundtrip:
  assumes "out_cap \<le> length out" "length dst = 6" "length src = 6"
    and "inner_len \<le> length inner" "38 + inner_len \<le> out_cap" "24 + inner_len < 65536"
  shows "\<exists>frame.
    gre_encap_build out out_cap dst src a b ttl inner inner_len =
      Some (length frame, frame @ drop (length frame) out) \<and>
    length frame = 38 + inner_len \<and>
    eth_parse frame =
      Some (Some \<lparr>dst_mac = dst, src_mac = src, ethertype = ETH_TYPE_IP\<rparr>) \<and>
    ipv4_parse (drop 14 frame) =
      Some (Some \<lparr>ihl_words = 5, ip_protocol = IPPROTO_GRE_VAL,
        ip_total_length = word_of_nat (24 + inner_len), ip_src = a, ip_dst = b,
        header_len_bytes = 20\<rparr>) \<and>
    ipv4_checksum frame 14 20 = Some 0 \<and>
    gre_parse (drop 34 frame) =
      Some (Some \<lparr>flags_version = 0, protocol_type = ETH_TYPE_IP\<rparr>) \<and>
    drop 38 frame = take inner_len inner"
proof -
  let ?i = "take inner_len inner" and ?n = "word_of_nat (24 + inner_len) :: u16"
  let ?f = "gre_frame dst src a b ttl ?i"
  let ?e = "dst @ src @ [hi8 ETH_TYPE_IP, lo8 ETH_TYPE_IP]"
  let ?h = "ipv4_header a b IPPROTO_GRE_VAL ?n ttl (ipv4_header_csum a b IPPROTO_GRE_VAL ?n ttl)"
  let ?g = "[0, 0, hi8 ETH_TYPE_IP, lo8 ETH_TYPE_IP] @ ?i"
  have i: "length ?i = inner_len" using assms by simp
  have f: "?f = ?e @ ?h @ ?g" by (simp only: gre_frame_def Let_def i append_assoc)
  have n: "unat ?n = 24 + inner_len"
    using assms by (simp add: unat_of_nat del: of_nat_add)
  have l: "length ?e = 14" "length ?f = 38 + inner_len"
    using assms i gre_frame_length [of dst src a b ttl ?i] by simp_all
  have "gre_encap_build out out_cap dst src a b ttl inner inner_len =
      Some (length ?f, ?f @ drop (length ?f) out)"
    using gre_encap_build_eq [of out_cap out dst src inner_len inner a b ttl] assms l by simp
  moreover have "eth_parse ?f =
      Some (Some \<lparr>dst_mac = dst, src_mac = src, ethertype = ETH_TYPE_IP\<rparr>)"
    unfolding f using assms by (intro eth_parse_built) (simp_all add: net_lens)
  moreover have d: "drop 14 ?f = ?h @ ?g" "drop 34 ?f = ?g" "drop 38 ?f = ?i"
    unfolding f using assms by simp_all
  moreover have "ipv4_parse (?h @ ?g) =
      Some (Some \<lparr>ihl_words = 5, ip_protocol = IPPROTO_GRE_VAL, ip_total_length = ?n,
        ip_src = a, ip_dst = b, header_len_bytes = 20\<rparr>)"
    using n i by (intro ipv4_parse_built) simp_all
  moreover have "ipv4_checksum ?f 14 20 = Some 0"
    using ipv4_checksum_shift [of ?e "?h @ ?g" 20]
      ipv4_header_verifies [of a b IPPROTO_GRE_VAL ?n ttl ?g]
    unfolding f using l(1) by (simp add: net_lens)
  moreover have "gre_parse ?g =
      Some (Some \<lparr>flags_version = 0, protocol_type = ETH_TYPE_IP\<rparr>)"
    by (rule gre_parse_built)
  ultimately show ?thesis using l(2) by (intro exI [of _ ?f]) simp
qed

theorem gre_encap_roundtrip_witness:
  "\<exists>frame.
    gre_encap_build (replicate 2048 0) 2048 [1, 2, 3, 4, 5, 6] [7, 8, 9, 10, 11, 12] 5 6 64
      (replicate 40 9) 40 = Some (length frame, frame @ drop (length frame) (replicate 2048 0)) \<and>
    length frame = 78 \<and> ipv4_checksum frame 14 20 = Some 0 \<and> drop 38 frame = replicate 40 9"
  using gre_encap_roundtrip [of 2048 "replicate 2048 0" "[1, 2, 3, 4, 5, 6]"
      "[7, 8, 9, 10, 11, 12]" 40 "replicate 40 9" 5 6 64]
  by auto

text \<open>A frame that does not fit is refused without touching the buffer.\<close>

lemma gre_encap_refuses:
  "out_cap < 38 + inner_len \<Longrightarrow>
     gre_encap_build out out_cap dst src a b ttl inner inner_len = Some (0, out)"
  by (simp add: gre_encap_build_def net_lens)

end
