(* ===== verification/Maglev_Prime.thy ===== *)
theory Maglev_Prime
  imports LB_Prelude
begin

text \<open>
  The primality test of \<open>src/maglev/maglev_table.c\<close> on 32-bit values, and the arithmetic
  fact the whole algorithm rests on: modulo a prime every non-zero stride visits every slot
  exactly once.
\<close>

text \<open>The mathematical notion the test decides.\<close>

definition prime_nat :: "nat \<Rightarrow> bool" where
  "prime_nat n \<longleftrightarrow> 1 < n \<and> (\<forall>d. d dvd n \<longrightarrow> d = 1 \<or> d = n)"

lemma square_le_u32:
  fixes d n :: u32
  shows "(ucast d :: u64) * ucast d \<le> ucast n \<longleftrightarrow> unat d * unat d \<le> unat n"
proof -
  have "unat d * unat d \<le> 4294967295 * 4294967295"
    using unat_u32_less [of d] by (intro mult_le_mono) auto
  then have "unat ((ucast d :: u64) * ucast d) = unat d * unat d"
    by (simp add: unat_word_ariths)
  then show ?thesis by (simp add: word_le_nat_alt)
qed

lemma square_le_u32_bound:
  fixes d n :: u32
  assumes "unat d * unat d \<le> unat n"
  shows "unat d < 65536" "unat (d + 2) = unat d + 2"
proof -
  show "unat d < 65536"
  proof (rule ccontr)
    assume "\<not> unat d < 65536"
    then have "65536 * 65536 \<le> unat d * unat d" by (intro mult_le_mono) auto
    with assms unat_u32_less [of n] show False by simp
  qed
  then show "unat (d + 2) = unat d + 2" by (simp add: unat_word_ariths)
qed

function maglev_is_prime_loop :: "u32 \<Rightarrow> u32 \<Rightarrow> bool" where
  "maglev_is_prime_loop n d =
     (if (ucast d :: u64) * ucast d \<le> ucast n then
        if n mod d = 0 then False else maglev_is_prime_loop n (d + 2)
      else True)"
  by pat_completeness auto
termination
proof (relation "measure (\<lambda>(n, d). 65540 - unat d)")
  fix n d :: u32
  assume "(ucast d :: u64) * ucast d \<le> ucast n"
  then have "unat d * unat d \<le> unat n" by (simp add: square_le_u32)
  from square_le_u32_bound [OF this]
  show "((n, d + 2), n, d) \<in> measure (\<lambda>(n, d). 65540 - unat d)" by simp
qed simp

declare maglev_is_prime_loop.simps [simp del]

definition maglev_is_prime :: "u32 \<Rightarrow> bool" where
  "maglev_is_prime n =
     (if n < 2 then False
      else if n mod 2 = 0 then n = 2
      else maglev_is_prime_loop n 3)"

section \<open>The loop decides primality\<close>

lemma maglev_is_prime_loop_iff:
  "odd (unat d) \<Longrightarrow>
   maglev_is_prime_loop n d \<longleftrightarrow>
     (\<forall>e. odd e \<and> unat d \<le> e \<and> e * e \<le> unat n \<longrightarrow> \<not> e dvd unat n)"
proof (induction n d rule: maglev_is_prime_loop.induct)
  case (1 n d)
  let ?d = "unat d" and ?n = "unat n"
  show ?case
  proof (cases "?d * ?d \<le> ?n")
    case False
    then have "\<not> (?d \<le> e \<and> e * e \<le> ?n)" for e
      by (meson le_trans mult_le_mono)
    with False show ?thesis
      by (auto simp: maglev_is_prime_loop.simps [of n d] square_le_u32)
  next
    case True
    note b = square_le_u32_bound [OF True]
    have dvd: "n mod d = 0 \<longleftrightarrow> ?d dvd ?n"
      by (metis unat_mod_distrib dvd_eq_mod_eq_0 unat_eq_zero)
    show ?thesis
    proof (cases "?d dvd ?n")
      case d: True
      then show ?thesis
        using True dvd "1.prems" by (auto simp: maglev_is_prime_loop.simps [of n d] square_le_u32)
    next
      case d: False
      have "odd (unat (d + 2))" using "1.prems" b by simp
      with 1 True d dvd have IH: "maglev_is_prime_loop n (d + 2) \<longleftrightarrow>
          (\<forall>e. odd e \<and> ?d + 2 \<le> e \<and> e * e \<le> ?n \<longrightarrow> \<not> e dvd ?n)"
        by (simp add: square_le_u32 b)
      have step: "?d \<le> e \<longleftrightarrow> e = ?d \<or> ?d + 2 \<le> e" if "odd e" for e
        using that "1.prems" by presburger
      show ?thesis
        using True d dvd IH step
        by (simp add: maglev_is_prime_loop.simps [of n d] square_le_u32) blast
    qed
  qed
qed

lemma small_divisor:
  assumes "\<not> prime_nat n" "1 < n"
  obtains e where "e dvd n" "1 < e" "e * e \<le> n"
proof -
  from assms obtain d where d: "d dvd n" "d \<noteq> 1" "d \<noteq> n"
    by (auto simp: prime_nat_def)
  from d(1) obtain k where k: "n = d * k" by (rule dvdE)
  from assms(2) d k have "1 < d" "1 < k" by (cases d; cases k; auto)+
  show thesis
  proof (cases "d \<le> k")
    case True
    then show thesis using that [of d] d k \<open>1 < d\<close> by simp
  next
    case False
    then show thesis using that [of k] d k \<open>1 < k\<close> by simp
  qed
qed

lemma maglev_is_prime_iff: "maglev_is_prime n \<longleftrightarrow> prime_nat (unat n)"
proof -
  let ?n = "unat n"
  have two: "n < 2 \<longleftrightarrow> ?n < 2" "n = 2 \<longleftrightarrow> ?n = 2"
    by (simp_all add: word_less_nat_alt word_unat_eq_iff)
  have even: "n mod 2 = 0 \<longleftrightarrow> even ?n"
    by (simp add: word_unat_eq_iff unat_mod_distrib even_iff_mod_2_eq_zero)
  have p2: "prime_nat 2"
  proof -
    have "d = 1 \<or> d = 2" if "d dvd 2" for d :: nat
      using dvd_imp_le [OF that] that by (cases "d = 0") auto
    then show ?thesis by (simp add: prime_nat_def)
  qed
  consider (lt) "?n < 2" | (ev) "\<not> ?n < 2" "even ?n" | (od) "\<not> ?n < 2" "odd ?n" by blast
  then show ?thesis
  proof cases
    case lt
    then show ?thesis by (simp add: maglev_is_prime_def two prime_nat_def)
  next
    case ev
    then have "prime_nat ?n \<longleftrightarrow> ?n = 2"
      using p2 by (auto simp: prime_nat_def)
    with ev show ?thesis by (simp add: maglev_is_prime_def two even)
  next
    case od
    then have "maglev_is_prime n \<longleftrightarrow>
        (\<forall>e. odd e \<and> 3 \<le> e \<and> e * e \<le> ?n \<longrightarrow> \<not> e dvd ?n)"
      using maglev_is_prime_loop_iff [of 3 n] by (simp add: maglev_is_prime_def two even)
    also have "\<dots> \<longleftrightarrow> prime_nat ?n"
    proof
      assume no: "\<forall>e. odd e \<and> 3 \<le> e \<and> e * e \<le> ?n \<longrightarrow> \<not> e dvd ?n"
      show "prime_nat ?n"
      proof (rule ccontr)
        assume np: "\<not> prime_nat ?n"
        from od have "1 < ?n" by simp
        with np obtain e where e: "e dvd ?n" "1 < e" "e * e \<le> ?n" by (rule small_divisor)
        moreover from e od have "odd e" by (meson dvd_trans)
        moreover from e(2) \<open>odd e\<close> have "3 \<le> e" by presburger
        ultimately show False using no by blast
      qed
    next
      assume p: "prime_nat ?n"
      show "\<forall>e. odd e \<and> 3 \<le> e \<and> e * e \<le> ?n \<longrightarrow> \<not> e dvd ?n"
      proof (intro allI impI notI)
        fix e assume e: "odd e \<and> 3 \<le> e \<and> e * e \<le> ?n" "e dvd ?n"
        with p have "e = ?n" by (auto simp: prime_nat_def)
        with e show False by (cases e) auto
      qed
    qed
    finally show ?thesis .
  qed
qed

section \<open>Strides modulo a prime\<close>

lemma prime_nat_coprime:
  assumes "prime_nat m" "0 < s" "s < m"
  shows "coprime s m"
proof -
  have "gcd s m dvd m" by simp
  with assms(1) have "gcd s m = 1 \<or> gcd s m = m" by (simp add: prime_nat_def)
  moreover have "gcd s m \<noteq> m" using assms by (metis gcd_dvd1 nat_dvd_not_less)
  ultimately show ?thesis by (simp add: coprime_iff_gcd_eq_1)
qed

lemma stride_inj:
  assumes "coprime s m" "i < m" "j < m" "(a + i * s) mod m = (a + j * s) mod (m :: nat)"
  shows "i = j"
proof -
  have *: "i = j" if le: "i \<le> j" and lt: "j < m"
    and eq: "(a + i * s) mod m = (a + j * s) mod m" for i j
  proof -
    from eq have "m dvd (a + j * s) - (a + i * s)" by (metis mod_eq_dvd_iff_nat
          add_le_cancel_left le mult_le_mono1)
    then have "m dvd (j - i) * s" by (simp add: diff_mult_distrib)
    then have "m dvd j - i"
      using assms(1) by (simp add: coprime_commute coprime_dvd_mult_left_iff)
    with lt le show ?thesis by (metis diff_is_0_eq dvd_imp_le less_imp_diff_less not_less
          zero_less_diff le_antisym)
  qed
  show ?thesis
  proof (cases "i \<le> j")
    case True
    then show ?thesis using * [of i j] assms by simp
  next
    case False
    then show ?thesis using * [of j i] assms by simp
  qed
qed

lemma stride_bij:
  assumes "coprime s m" "0 < (m :: nat)"
  shows "bij_betw (\<lambda>j. (a + j * s) mod m) {..<m} {..<m}"
proof -
  have "inj_on (\<lambda>j. (a + j * s) mod m) {..<m}"
    using stride_inj [OF assms(1)] by (auto intro!: inj_onI)
  moreover have "(\<lambda>j. (a + j * s) mod m) ` {..<m} \<subseteq> {..<m}" using assms by auto
  ultimately show ?thesis
    by (simp add: bij_betw_def endo_inj_surj)
qed

section \<open>Properties\<close>

text \<open>C25. \<open>maglev_is_prime\<close> is a correct primality test on the whole 32-bit range: its trial
  division, including the 64-bit square in the loop guard, terminates without wrapping and
  answers true exactly for the numbers above 1 with no divisors but 1 and themselves.\<close>

theorem maglev_is_prime_correct:
  "maglev_is_prime n \<longleftrightarrow> 1 < unat n \<and> {d. d dvd unat n} = {1, unat n}"
  by (auto simp: maglev_is_prime_iff prime_nat_def)

end
