(* ===== verification/Maglev_Fill.thy ===== *)
theory Maglev_Fill
  imports Main "HOL-Library.Multiset"
begin

text \<open>
  The Maglev paper's populate algorithm as an abstract specification: candidates take turns
  round robin, and the one whose turn it is takes the first slot of its own preference list
  that is still empty, searched from the start of the list each time. The locale states what
  a family of preference lists must promise (each lists every slot exactly once); within it
  the fill is shown to be complete and balanced. \<open>Maglev_Table\<close> interprets the locale on
  the strides of the source and shows that its loop, which remembers a cursor per candidate,
  computes this specification.
\<close>

section \<open>The specification\<close>

fun ref_fill :: "(nat \<Rightarrow> nat \<Rightarrow> nat) \<Rightarrow> nat \<Rightarrow> nat \<Rightarrow> nat \<Rightarrow> nat option list" where
  "ref_fill pref m n 0 = replicate m None"
| "ref_fill pref m n (Suc r) =
     (let t = ref_fill pref m n r; b = r mod n in
      case find (\<lambda>j. t ! pref b j = None) [0..<m] of
        None \<Rightarrow> t
      | Some j \<Rightarrow> t[pref b j := Some b])"

text \<open>How many of the first \<open>r\<close> turns fall to candidate \<open>b\<close>.\<close>

definition turns :: "nat \<Rightarrow> nat \<Rightarrow> nat \<Rightarrow> nat" where
  "turns n r b = length (filter (\<lambda>k. k mod n = b) [0..<r])"

lemma turns_0 [simp]: "turns n 0 b = 0"
  by (simp add: turns_def)

lemma turns_Suc [simp]: "turns n (Suc r) b = turns n r b + (if r mod n = b then 1 else 0)"
  by (simp add: turns_def)

lemma turns_eq: "b < n \<Longrightarrow> turns n r b = r div n + (if b < r mod n then 1 else 0)"
proof (induction r)
  case 0
  then show ?case by simp
next
  case (Suc r)
  have "r mod n < n" using Suc.prems by simp
  then show ?case
    using Suc by (auto simp: div_Suc mod_Suc)
qed

lemma length_ref_fill [simp]: "length (ref_fill pref m n r) = m"
  by (induction r) (simp_all add: Let_def split: option.splits)

lemma find_upt_Some_iff:
  "find P [0..<m] = Some j \<longleftrightarrow> j < m \<and> P j \<and> (\<forall>i<j. \<not> P i)"
proof
  assume "find P [0..<m] = Some j"
  then show "j < m \<and> P j \<and> (\<forall>i<j. \<not> P i)"
    by (auto simp: find_Some_iff)
next
  assume j: "j < m \<and> P j \<and> (\<forall>i<j. \<not> P i)"
  then show "find P [0..<m] = Some j"
    by (auto simp: find_Some_iff intro!: exI [of _ j])
qed

section \<open>What preference lists promise\<close>

locale preference_lists =
  fixes valid :: "'c \<Rightarrow> bool"
    and slots :: "'c \<Rightarrow> nat"
    and cands :: "'c \<Rightarrow> nat"
    and pref :: "'c \<Rightarrow> nat \<Rightarrow> nat \<Rightarrow> nat"
  assumes cands_pos: "valid c \<Longrightarrow> 0 < cands c"
    and pref_bij: "valid c \<Longrightarrow> b < cands c \<Longrightarrow> bij_betw (pref c b) {..<slots c} {..<slots c}"
begin

lemma pref_less: "valid c \<Longrightarrow> b < cands c \<Longrightarrow> j < slots c \<Longrightarrow> pref c b j < slots c"
  using pref_bij by (auto simp: bij_betw_def)

lemma pref_hits:
  assumes "valid c" "b < cands c" "i < slots c"
  obtains j where "j < slots c" "pref c b j = i"
proof -
  have "i \<in> pref c b ` {..<slots c}"
    using pref_bij [OF assms(1,2)] assms(3) by (simp add: bij_betw_def)
  then show thesis using that by blast
qed

text \<open>While a slot is empty, every candidate finds one.\<close>

lemma next_slot:
  assumes "valid c" "b < cands c" "length t = slots c" "None \<in> set t"
  obtains j where "find (\<lambda>j. t ! pref c b j = None) [0..<slots c] = Some j"
    "j < slots c" "pref c b j < slots c" "t ! pref c b j = None"
proof -
  from assms(3,4) obtain i where i: "i < slots c" "t ! i = None" by (metis in_set_conv_nth)
  with assms obtain k where "k < slots c" "pref c b k = i" by (metis pref_hits)
  with i have "find (\<lambda>j. t ! pref c b j = None) [0..<slots c] \<noteq> None"
    by (auto simp: find_None_iff)
  then obtain j where j: "find (\<lambda>j. t ! pref c b j = None) [0..<slots c] = Some j" by blast
  then have "j < slots c" "t ! pref c b j = None" by (auto simp: find_upt_Some_iff)
  with j assms that show thesis by (simp add: pref_less)
qed

lemma fill_counts:
  assumes "valid c" "r \<le> slots c"
  shows "count (mset (ref_fill (pref c) (slots c) (cands c) r)) None = slots c - r"
    and "count (mset (ref_fill (pref c) (slots c) (cands c) r)) (Some b) = turns (cands c) r b"
  using assms(2)
proof (induction r)
  case 0
  {
    case 1
    then show ?case by simp
  next
    case 2
    then show ?case by simp
  }
next
  case (Suc r)
  let ?t = "ref_fill (pref c) (slots c) (cands c) r" and ?b = "r mod cands c"
  have b: "?b < cands c" using cands_pos [OF assms(1)] by simp
  have IH: "count (mset ?t) None = slots c - r" "count (mset ?t) (Some b) = turns (cands c) r b"
    if "Suc r \<le> slots c"
    using Suc.IH that by simp_all
  have step: "mset (ref_fill (pref c) (slots c) (cands c) (Suc r)) =
      add_mset (Some ?b) (mset ?t - {#None#})" if "Suc r \<le> slots c"
  proof -
    have "None \<in> set ?t" using IH(1) that by (metis count_greater_zero_iff set_mset_mset
          zero_less_diff Suc_le_eq)
    then obtain j where "find (\<lambda>j. ?t ! pref c ?b j = None) [0..<slots c] = Some j"
      "pref c ?b j < slots c" "?t ! pref c ?b j = None"
      using next_slot [OF assms(1) b, of ?t] by auto
    then show ?thesis by (simp add: mset_update Let_def)
  qed
  {
    case 1
    then show ?case using step IH by simp
  next
    case 2
    then show ?case using step IH by simp
  }
qed

text \<open>After as many turns as slots the table is full and evenly shared.\<close>

lemma fill_full:
  assumes "valid c" "i < slots c"
  obtains b where "b < cands c" "ref_fill (pref c) (slots c) (cands c) (slots c) ! i = Some b"
proof -
  let ?t = "ref_fill (pref c) (slots c) (cands c) (slots c)"
  have "count (mset ?t) None = 0" using fill_counts(1) [OF assms(1)] by simp
  then have "None \<notin> set ?t" by (metis count_eq_zero_iff set_mset_mset)
  moreover have mem: "?t ! i \<in> set ?t" using assms(2) by simp
  ultimately obtain b where b: "?t ! i = Some b" by (metis not_None_eq)
  have "0 < turns (cands c) (slots c) b"
    using fill_counts(2) [OF assms(1), of "slots c" b] mem b
    by (metis count_greater_zero_iff order_refl set_mset_mset)
  then have "\<exists>k. k mod cands c = b" by (auto simp: turns_def filter_empty_conv)
  then have "b < cands c" using cands_pos [OF assms(1)] by auto
  with b that show thesis by blast
qed

lemma fill_balanced:
  assumes "valid c" "b < cands c"
  shows "count (mset (ref_fill (pref c) (slots c) (cands c) (slots c))) (Some b) =
           slots c div cands c + (if b < slots c mod cands c then 1 else 0)"
  using fill_counts(2) [OF assms(1) order_refl] turns_eq [OF assms(2)] by simp

end

end
