(* ===== verification/Maglev_Table.thy ===== *)
theory Maglev_Table
  imports Flow_Extract Maglev_Prime Maglev_Fill
begin

text \<open>
  \<open>src/maglev/hash.c\<close> and \<open>src/maglev/maglev_table.c\<close>: the three seeded hashes, the
  lookup table generation, the lookup and the routing snapshot. The hash function \<open>XXH64\<close>
  of libxxhash is a parameter \<open>xxh\<close> of every definition that calls it; the properties hold for
  every function. Each call of the C allocator is named by a constructor of
  \<open>alloc_site\<close>, and a parameter \<open>alloc\<close> says which of them succeed.

  A result \<open>None\<close> means that the call does not return: the probe loop runs forever or a
  remainder by zero is taken. \<open>Some None\<close> is a returned NULL.
\<close>

section \<open>Hashes\<close>

type_synonym xxh64 = "u8 list \<Rightarrow> u64 \<Rightarrow> u64"

definition MAGLEV_SEED_OFFSET :: u64 where "MAGLEV_SEED_OFFSET = 0x4d61676c65764f66"
definition MAGLEV_SEED_SKIP :: u64 where "MAGLEV_SEED_SKIP = 0x4d61676c6576536b"
definition FLOW_HASH_SEED :: u64 where "FLOW_HASH_SEED = 0x466c6f7748617368"

definition maglev_hash_offset :: "xxh64 \<Rightarrow> u8 list \<Rightarrow> u64" where
  "maglev_hash_offset xxh data = xxh data MAGLEV_SEED_OFFSET"

definition maglev_hash_skip :: "xxh64 \<Rightarrow> u8 list \<Rightarrow> u64" where
  "maglev_hash_skip xxh data = xxh data MAGLEV_SEED_SKIP"

definition flow_hash :: "xxh64 \<Rightarrow> flow_key \<Rightarrow> u64" where
  "flow_hash xxh key = xxh (flow_key_bytes key) FLOW_HASH_SEED"

section \<open>Data\<close>

record backend_view =
  bv_id :: u32
  bv_addr :: u32
  bv_port :: u16
  bv_mac :: "u8 list"

record maglev_table =
  mt_m :: u32
  mt_lookup :: "i32 list"

record routing_snapshot =
  rs_table :: maglev_table
  rs_backends :: "backend_view list"
  rs_generation :: u64

datatype alloc_site =
  Alloc_table | Alloc_lookup | Alloc_sorted | Alloc_offset | Alloc_skip | Alloc_next
| Alloc_snapshot | Alloc_snapshot_backends | Alloc_retired

type_synonym allocator = "alloc_site \<Rightarrow> bool"

section \<open>Sorting\<close>

definition backend_view_cmp_by_id :: "backend_view \<Rightarrow> backend_view \<Rightarrow> int" where
  "backend_view_cmp_by_id a b =
     (if bv_id a < bv_id b then - 1 else if bv_id a > bv_id b then 1 else 0)"

text \<open>\<open>qsort\<close>: the elements in an order the comparison function allows.\<close>

fun qsort_insert :: "('a \<Rightarrow> 'a \<Rightarrow> int) \<Rightarrow> 'a \<Rightarrow> 'a list \<Rightarrow> 'a list" where
  "qsort_insert cmp x [] = [x]"
| "qsort_insert cmp x (y # ys) =
     (if cmp x y \<le> 0 then x # y # ys else y # qsort_insert cmp x ys)"

fun qsort :: "('a \<Rightarrow> 'a \<Rightarrow> int) \<Rightarrow> 'a list \<Rightarrow> 'a list" where
  "qsort cmp [] = []"
| "qsort cmp (x # xs) = qsort_insert cmp x (qsort cmp xs)"

section \<open>Table generation\<close>

definition backend_name :: "backend_view \<Rightarrow> string" where
  "backend_name v = ipv4_dotted (bv_addr v) @ '':'' @ dec (unat (bv_port v))"

definition backend_offset :: "xxh64 \<Rightarrow> u32 \<Rightarrow> backend_view \<Rightarrow> u64" where
  "backend_offset xxh m v =
     maglev_hash_offset xxh (bytes_of_string (backend_name v)) mod ucast m"

definition backend_skip :: "xxh64 \<Rightarrow> u32 \<Rightarrow> backend_view \<Rightarrow> u64" where
  "backend_skip xxh m v =
     maglev_hash_skip xxh (bytes_of_string (backend_name v)) mod ucast (m - 1) + 1"

definition probe_slot :: "u32 \<Rightarrow> u64 \<Rightarrow> u64 \<Rightarrow> u32 \<Rightarrow> u32" where
  "probe_slot m offset skip j = ucast ((offset + ucast j * skip) mod ucast m)"

partial_function (option) maglev_probe ::
  "i32 list \<Rightarrow> u32 \<Rightarrow> u64 \<Rightarrow> u64 \<Rightarrow> u32 \<Rightarrow> (u32 \<times> u32) option" where
  "maglev_probe lookup m offset skip j =
     (let c = probe_slot m offset skip j in
      if lookup ! unat c \<noteq> - 1 then maglev_probe lookup m offset skip (j + 1)
      else Some (j, c))"

partial_function (option) maglev_populate ::
  "u32 \<Rightarrow> backend_view list \<Rightarrow> u64 list \<Rightarrow> u64 list \<Rightarrow>
     i32 list \<Rightarrow> u32 list \<Rightarrow> nat \<Rightarrow> nat \<Rightarrow> i32 list option" where
  "maglev_populate m bs offset skip lookup next filled round_robin =
     (if filled < unat m then
        let b = round_robin mod length bs in
        do {
          (j, c) \<leftarrow> maglev_probe lookup m (offset ! b) (skip ! b) (next ! b);
          maglev_populate m bs offset skip
            (lookup[unat c := bv_id (bs ! b)]) (next[b := j + 1])
            (filled + 1) (round_robin + 1)
        }
      else Some lookup)"

definition maglev_table_generate ::
  "xxh64 \<Rightarrow> allocator \<Rightarrow> backend_view list \<Rightarrow> u32 \<Rightarrow> maglev_table option option" where
  "maglev_table_generate xxh alloc backends m =
     (if \<not> alloc Alloc_table then Some None
      else if \<not> alloc Alloc_lookup then Some None
      else
        let lookup = replicate (unat m) (- 1) in
        if backends = [] then Some (Some \<lparr>mt_m = m, mt_lookup = lookup\<rparr>)
        else if \<not> alloc Alloc_sorted \<or> \<not> alloc Alloc_offset \<or> \<not> alloc Alloc_skip \<or>
          \<not> alloc Alloc_next then Some None
        else
          let bs = qsort backend_view_cmp_by_id backends in
          if m = 0 \<or> m - 1 = 0 then None
          else do {
            let offset = map (backend_offset xxh m) bs;
            let skip = map (backend_skip xxh m) bs;
            lookup \<leftarrow> maglev_populate m bs offset skip lookup
                        (replicate (length bs) 0) 0 0;
            Some (Some \<lparr>mt_m = m, mt_lookup = lookup\<rparr>)
          })"

section \<open>Lookup and snapshots\<close>

text \<open>A table with no slots takes a remainder by zero.\<close>

definition maglev_table_lookup :: "xxh64 \<Rightarrow> maglev_table \<Rightarrow> flow_key \<Rightarrow> i32 option" where
  "maglev_table_lookup xxh t key =
     (if mt_m t = 0 then None
      else
        let bucket = unat (ucast (flow_hash xxh key mod ucast (mt_m t)) :: u32) in
        if bucket < length (mt_lookup t) then Some (mt_lookup t ! bucket) else None)"

definition routing_snapshot_create ::
  "xxh64 \<Rightarrow> allocator \<Rightarrow> backend_view list \<Rightarrow> backend_view list \<Rightarrow> u32 \<Rightarrow> u64 \<Rightarrow>
     routing_snapshot option option" where
  "routing_snapshot_create xxh alloc routable candidates m generation =
     do {
       t \<leftarrow> maglev_table_generate xxh alloc candidates m;
       case t of
         None \<Rightarrow> Some None
       | Some table \<Rightarrow>
         if \<not> alloc Alloc_snapshot then Some None
         else if routable \<noteq> [] \<and> \<not> alloc Alloc_snapshot_backends then Some None
         else Some (Some \<lparr>rs_table = table, rs_backends = routable,
                      rs_generation = generation\<rparr>)
     }"

fun find_backend_scan :: "backend_view list \<Rightarrow> i32 \<Rightarrow> backend_view option" where
  "find_backend_scan [] backend_id = None"
| "find_backend_scan (v # vs) backend_id =
     (if bv_id v = backend_id then Some v else find_backend_scan vs backend_id)"

definition routing_snapshot_find_backend ::
  "routing_snapshot \<Rightarrow> i32 \<Rightarrow> backend_view option" where
  "routing_snapshot_find_backend snap backend_id =
     find_backend_scan (rs_backends snap) backend_id"

section \<open>Sorting by id\<close>

lemma mset_qsort_insert [simp]: "mset (qsort_insert cmp x xs) = add_mset x (mset xs)"
  by (induction xs) auto

lemma set_qsort_insert [simp]: "set (qsort_insert cmp x xs) = insert x (set xs)"
  by (induction xs) auto

lemma mset_qsort [simp]: "mset (qsort cmp xs) = mset xs"
  by (induction xs) auto

lemma set_qsort [simp]: "set (qsort cmp xs) = set xs"
  by (metis mset_qsort set_mset_mset)

lemma length_qsort [simp]: "length (qsort cmp xs) = length xs"
  by (metis mset_qsort size_mset)

lemma qsort_eq_Nil_iff [simp]: "qsort cmp xs = [] \<longleftrightarrow> xs = []"
  by (metis length_0_conv length_qsort)

lemma sorted_qsort_insert:
  "sorted (map bv_id xs) \<Longrightarrow> sorted (map bv_id (qsort_insert backend_view_cmp_by_id x xs))"
proof (induction xs)
  case (Cons y ys)
  have "backend_view_cmp_by_id x y \<le> 0 \<longleftrightarrow> bv_id x \<le> bv_id y"
    by (auto simp: backend_view_cmp_by_id_def)
  with Cons show ?case by auto
qed simp

lemma sorted_qsort: "sorted (map bv_id (qsort backend_view_cmp_by_id xs))"
  by (induction xs) (auto intro: sorted_qsort_insert)

lemma distinct_map_qsort [simp]: "distinct (map f (qsort cmp xs)) \<longleftrightarrow> distinct (map f xs)"
  by (metis mset_qsort mset_map mset_eq_imp_distinct_iff)

text \<open>With distinct ids the sorted array is determined by the set of backends.\<close>

lemma qsort_canonical:
  assumes "mset xs = mset ys" "distinct (map bv_id xs)"
  shows "qsort backend_view_cmp_by_id xs = qsort backend_view_cmp_by_id ys"
proof -
  have eq: "set xs = set ys" using assms(1) by (metis set_mset_mset)
  have d: "distinct (map bv_id ys)"
    using assms by (metis mset_map mset_eq_imp_distinct_iff)
  have "inj_on bv_id (set xs)" using assms(2) by (simp add: distinct_map)
  then show ?thesis
    using assms d eq sorted_qsort [of xs] sorted_qsort [of ys]
    by (intro map_sorted_distinct_set_unique [of bv_id]) simp_all
qed

section \<open>The strides as preference lists\<close>

type_synonym strides = "u32 \<times> u64 list \<times> u64 list"

fun strides_valid :: "strides \<Rightarrow> bool" where
  "strides_valid (m, offset, skip) \<longleftrightarrow>
     prime_nat (unat m) \<and> offset \<noteq> [] \<and> length skip = length offset \<and>
     (\<forall>b < length offset. unat (offset ! b) < unat m \<and>
        0 < unat (skip ! b) \<and> unat (skip ! b) < unat m)"

fun strides_slots :: "strides \<Rightarrow> nat" where
  "strides_slots (m, offset, skip) = unat m"

fun strides_cands :: "strides \<Rightarrow> nat" where
  "strides_cands (m, offset, skip) = length offset"

fun strides_pref :: "strides \<Rightarrow> nat \<Rightarrow> nat \<Rightarrow> nat" where
  "strides_pref (m, offset, skip) b j = (unat (offset ! b) + j * unat (skip ! b)) mod unat m"

interpretation strides: preference_lists strides_valid strides_slots strides_cands strides_pref
proof
  fix c assume "strides_valid c"
  then show "0 < strides_cands c" by (cases c) auto
next
  fix c b assume v: "strides_valid c" "b < strides_cands c"
  obtain m offset skip where c: "c = (m, offset, skip)" by (cases c)
  with v have p: "prime_nat (unat m)" "0 < unat (skip ! b)" "unat (skip ! b) < unat m" by auto
  then have "0 < unat m" by simp
  moreover have "strides_pref c b = (\<lambda>j. (unat (offset ! b) + j * unat (skip ! b)) mod unat m)"
    by (auto simp: c)
  ultimately show "bij_betw (strides_pref c b) {..<strides_slots c} {..<strides_slots c}"
    using stride_bij [OF prime_nat_coprime [OF p]] by (simp add: c)
qed

section \<open>The C loop computes the specification\<close>

text \<open>No product or sum of the probe wraps.\<close>

lemma probe_slot_unat:
  assumes "unat offset < unat m" "unat skip < unat m"
  shows "unat (probe_slot m offset skip j) = (unat offset + unat j * unat skip) mod unat m"
proof -
  have m: "unat m \<le> 4294967295" "unat j \<le> 4294967295" using unat_u32_less [of m] unat_u32_less [of j] by simp_all
  have "unat j * unat skip \<le> 4294967295 * 4294967294"
    using assms m by (intro mult_le_mono) auto
  then have "unat offset + unat j * unat skip < 18446744073709551616"
    using assms m by linarith
  then have "unat (offset + ucast j * skip) = unat offset + unat j * unat skip"
    by (simp add: unat_word_ariths)
  then have "unat ((offset + ucast j * skip) mod ucast m) = (unat offset + unat j * unat skip) mod unat m"
    by (simp add: unat_mod_distrib)
  moreover have "(unat offset + unat j * unat skip) mod unat m < unat m"
    using assms by (intro mod_less_divisor) simp
  then have "(unat offset + unat j * unat skip) mod unat m < 4294967296"
    using m by simp
  ultimately show ?thesis
    by (simp add: probe_slot_def unsigned_ucast_eq take_bit_eq_mod)
qed

lemma probe_slot_eq:
  assumes "unat offset < unat m" "unat skip < unat m" "j < unat m"
  shows "unat (probe_slot m offset skip (word_of_nat j)) =
           (unat offset + j * unat skip) mod unat m"
proof -
  have "unat (word_of_nat j :: u32) = j" using assms(3) unat_u32_less [of m] by (simp add: unat_of_nat)
  then show ?thesis using probe_slot_unat [OF assms(1,2), of "word_of_nat j"] by simp
qed

text \<open>The probe stops at the first free slot of the preference list from its cursor on.\<close>

lemma maglev_probe_finds:
  assumes s: "unat offset < unat m" "unat skip < unat m"
    and k: "k < unat m" "j \<le> k"
    and free: "lookup ! ((unat offset + k * unat skip) mod unat m) = - 1"
    and taken: "\<And>i. j \<le> i \<Longrightarrow> i < k \<Longrightarrow>
                  lookup ! ((unat offset + i * unat skip) mod unat m) \<noteq> - 1"
  shows "maglev_probe lookup m offset skip (word_of_nat j) =
           Some (word_of_nat k, probe_slot m offset skip (word_of_nat k))"
  using k(2) taken
proof (induction "k - j" arbitrary: j)
  case 0
  then have "j = k" by simp
  then show ?case
    using free probe_slot_eq [OF s k(1)] by (simp add: maglev_probe.simps [of lookup])
next
  case (Suc d)
  then have jk: "j < k" by simp
  have "lookup ! unat (probe_slot m offset skip (word_of_nat j)) \<noteq> - 1"
    using Suc.prems(2) [of j] jk k(1) probe_slot_eq [OF s, of j] by simp
  then have "maglev_probe lookup m offset skip (word_of_nat j) =
      maglev_probe lookup m offset skip (word_of_nat (Suc j))"
    by (simp add: maglev_probe.simps [of lookup m offset skip "word_of_nat j"] add.commute)
  also have "\<dots> = Some (word_of_nat k, probe_slot m offset skip (word_of_nat k))"
    using Suc jk by (intro Suc.hyps(1)) auto
  finally show ?case .
qed

text \<open>How a specification slot is stored.\<close>

definition slot_code :: "backend_view list \<Rightarrow> nat option \<Rightarrow> i32" where
  "slot_code bs s = (case s of None \<Rightarrow> - 1 | Some b \<Rightarrow> bv_id (bs ! b))"

lemma slot_code_simps [simp]:
  "slot_code bs None = - 1" "slot_code bs (Some b) = bv_id (bs ! b)"
  by (simp_all add: slot_code_def)

text \<open>The loop state after \<open>r\<close> turns.\<close>

definition fill_rel ::
  "strides \<Rightarrow> backend_view list \<Rightarrow> nat \<Rightarrow> i32 list \<Rightarrow> u32 list \<Rightarrow> bool" where
  "fill_rel c bs r lookup nxt \<longleftrightarrow>
     (let t = ref_fill (strides_pref c) (strides_slots c) (strides_cands c) r in
      lookup = map (slot_code bs) t \<and> length nxt = strides_cands c \<and>
      (\<forall>b < strides_cands c. unat (nxt ! b) \<le> strides_slots c \<and>
         (\<forall>j < unat (nxt ! b). t ! strides_pref c b j \<noteq> None)))"

lemma fill_rel_0: "fill_rel c bs 0 (replicate (strides_slots c) (- 1)) (replicate (strides_cands c) 0)"
  by (simp add: fill_rel_def)

lemma fill_rel_step:
  assumes v: "strides_valid (m, offset, skip)"
    and n: "length bs = length offset" and ids: "\<And>v. v \<in> set bs \<Longrightarrow> bv_id v \<noteq> - 1"
    and r: "r < unat m" and R: "fill_rel (m, offset, skip) bs r lookup nxt"
  defines "b \<equiv> r mod length bs"
  shows "\<exists>j c. maglev_probe lookup m (offset ! b) (skip ! b) (nxt ! b) = Some (j, c) \<and>
    fill_rel (m, offset, skip) bs (Suc r) (lookup[unat c := bv_id (bs ! b)]) (nxt[b := j + 1])"
proof -
  let ?c = "(m, offset, skip)" and ?m = "unat m" and ?n = "length offset"
  let ?t = "ref_fill (strides_pref ?c) ?m ?n r"
  have b: "b < ?n" using v n by (simp add: b_def)
  with v have s: "unat (offset ! b) < ?m" "unat (skip ! b) < ?m" by simp_all
  have L: "lookup = map (slot_code bs) ?t"
    and nx: "length nxt = ?n" "unat (nxt ! b) \<le> ?m"
      "\<And>j. j < unat (nxt ! b) \<Longrightarrow> ?t ! strides_pref ?c b j \<noteq> None"
    and nx': "\<And>b'. b' < ?n \<Longrightarrow> unat (nxt ! b') \<le> ?m \<and>
      (\<forall>j < unat (nxt ! b'). ?t ! strides_pref ?c b' j \<noteq> None)"
    using R b by (auto simp: fill_rel_def Let_def)
  have "count (mset ?t) None = ?m - r" using strides.fill_counts(1) [OF v, of r] r by simp
  then have "0 < count (mset ?t) None" using r by simp
  then have "None \<in> set ?t" by (simp only: count_greater_zero_iff set_mset_mset)
  then obtain k where k: "find (\<lambda>j. ?t ! strides_pref ?c b j = None) [0..<?m] = Some k"
      "k < ?m" "strides_pref ?c b k < ?m" "?t ! strides_pref ?c b k = None"
    using strides.next_slot [OF v, of b ?t] b by auto
  have before: "?t ! strides_pref ?c b i \<noteq> None" if "i < k" for i
    using k(1) that by (auto simp: find_upt_Some_iff)
  have "unat (nxt ! b) \<le> k" using nx(3) k(4) by (meson not_le)
  have code: "lookup ! strides_pref ?c b i = - 1 \<longleftrightarrow> ?t ! strides_pref ?c b i = None"
    if "i < ?m" for i
  proof -
    have lt: "strides_pref ?c b i < ?m" using strides.pref_less [OF v, of b i] b that by simp
    show ?thesis
    proof (cases "?t ! strides_pref ?c b i")
      case None
      then show ?thesis using lt by (simp add: L)
    next
      case (Some b')
      have "Some b' \<in> set ?t" using Some lt by (metis length_ref_fill nth_mem)
      then have "0 < count (mset ?t) (Some b')"
        by (simp only: count_greater_zero_iff set_mset_mset)
      then have "0 < turns ?n r b'"
        using strides.fill_counts(2) [OF v, of r b'] r
        by (simp del: strides_pref.simps count_greater_zero_iff)
      then have "\<exists>q. q mod ?n = b'" by (auto simp: turns_def filter_empty_conv)
      then have "b' < ?n" using b by (metis mod_less_divisor gr_implies_not0 neq0_conv)
      with ids n have "bv_id (bs ! b') \<noteq> - 1" by simp
      then show ?thesis using Some lt by (simp add: L)
    qed
  qed
  have w: "word_of_nat (unat (nxt ! b)) = nxt ! b" by simp
  have pr: "maglev_probe lookup m (offset ! b) (skip ! b) (word_of_nat (unat (nxt ! b))) =
      Some (word_of_nat k, probe_slot m (offset ! b) (skip ! b) (word_of_nat k))"
    using s k(2,4) \<open>unat (nxt ! b) \<le> k\<close> code before
    by (intro maglev_probe_finds) (auto simp del: of_nat_unat)
  let ?p = "probe_slot m (offset ! b) (skip ! b) (word_of_nat k)"
  have p: "unat ?p = strides_pref ?c b k"
    using probe_slot_eq [OF s k(2)] by simp
  have t': "ref_fill (strides_pref ?c) ?m ?n (Suc r) = ?t[strides_pref ?c b k := Some b]"
    using k(1) n by (simp add: Let_def b_def)
  have k1: "unat (word_of_nat k + 1 :: u32) = Suc k"
    using k(2) unat_u32_less [of m] by (simp add: unat_word_ariths unat_of_nat)
  have "fill_rel ?c bs (Suc r) (lookup[unat ?p := bv_id (bs ! b)]) (nxt[b := word_of_nat k + 1])"
    unfolding fill_rel_def Let_def strides_slots.simps strides_cands.simps t'
  proof (intro conjI allI impI)
    show "lookup[unat ?p := bv_id (bs ! b)] =
        map (slot_code bs) (?t[strides_pref ?c b k := Some b])"
      using p by (simp add: L map_update)
    show "length (nxt[b := word_of_nat k + 1]) = ?n" using nx by simp
  next
    fix b' assume b': "b' < ?n"
    show "unat (nxt[b := word_of_nat k + 1] ! b') \<le> ?m"
      using nx' [OF b'] k1 k(2) nx(1) b by (cases "b' = b") simp_all
    fix j assume j: "j < unat (nxt[b := word_of_nat k + 1] ! b')"
    show "?t[strides_pref ?c b k := Some b] ! strides_pref ?c b' j \<noteq> None"
    proof (cases "b' = b")
      case True
      with j k1 nx(1) b have "j < Suc k" by simp
      then show ?thesis using before k(3) True by (cases "j = k") (auto simp: nth_list_update)
    next
      case False
      with j have "?t ! strides_pref ?c b' j \<noteq> None" using nx' [OF b'] by simp
      then show ?thesis using k(3) by (auto simp: nth_list_update)
    qed
  qed
  moreover have "maglev_probe lookup m (offset ! b) (skip ! b) (nxt ! b) = Some (word_of_nat k, ?p)"
    using pr w by (simp only:)
  ultimately show ?thesis by blast
qed

lemma maglev_populate_eq:
  assumes v: "strides_valid (m, offset, skip)"
    and n: "length bs = length offset" and ids: "\<And>v. v \<in> set bs \<Longrightarrow> bv_id v \<noteq> - 1"
    and r: "r \<le> unat m" and R: "fill_rel (m, offset, skip) bs r lookup nxt"
  shows "maglev_populate m bs offset skip lookup nxt r r =
    Some (map (slot_code bs)
      (ref_fill (strides_pref (m, offset, skip)) (unat m) (length offset) (unat m)))"
  using r R
proof (induction "unat m - r" arbitrary: r lookup nxt)
  case 0
  then have "r = unat m" by simp
  with "0.prems" have "lookup = map (slot_code bs)
      (ref_fill (strides_pref (m, offset, skip)) (unat m) (length offset) (unat m))"
    by (simp add: fill_rel_def Let_def del: strides_pref.simps)
  then show ?case using \<open>r = unat m\<close> by (subst maglev_populate.simps) simp
next
  case (Suc d)
  then have lt: "r < unat m" by simp
  obtain j c where
      p: "maglev_probe lookup m (offset ! (r mod length bs)) (skip ! (r mod length bs))
            (nxt ! (r mod length bs)) = Some (j, c)"
    and R': "fill_rel (m, offset, skip) bs (Suc r)
            (lookup[unat c := bv_id (bs ! (r mod length bs))]) (nxt[r mod length bs := j + 1])"
    using fill_rel_step [OF v n ids lt Suc.prems(2)] by blast
  have "maglev_populate m bs offset skip lookup nxt r r =
      maglev_populate m bs offset skip (lookup[unat c := bv_id (bs ! (r mod length bs))])
        (nxt[r mod length bs := j + 1]) (Suc r) (Suc r)"
    using lt p by (subst maglev_populate.simps) (simp add: Let_def)
  also have "\<dots> = Some (map (slot_code bs)
      (ref_fill (strides_pref (m, offset, skip)) (unat m) (length offset) (unat m)))"
    using Suc lt R' by (intro Suc.hyps(1)) auto
  finally show ?case .
qed

section \<open>What a generated table holds\<close>

lemma backend_name_fits: "length (backend_name v) < 32"
  using ipv4_dotted_length [of "bv_addr v"] dec_length [of "unat (bv_port v)" 5]
    unat_u16_less [of "bv_port v"]
  by (simp add: backend_name_def)

definition backend_strides :: "xxh64 \<Rightarrow> u32 \<Rightarrow> backend_view list \<Rightarrow> strides" where
  "backend_strides xxh m bs = (m, map (backend_offset xxh m) bs, map (backend_skip xxh m) bs)"

lemma backend_skip_bounds:
  assumes "1 < unat m"
  shows "0 < unat (backend_skip xxh m v)" "unat (backend_skip xxh m v) < unat m"
proof -
  have m1: "unat (m - 1) = unat m - 1" using assms by (simp add: unat_sub_if')
  let ?r = "unat (maglev_hash_skip xxh (bytes_of_string (backend_name v))) mod (unat m - 1)"
  have r: "?r < unat m - 1" using assms by (intro mod_less_divisor) simp
  then have "unat (backend_skip xxh m v) = ?r + 1"
    using unat_u32_less [of m] by (simp add: backend_skip_def unat_word_ariths unat_mod_distrib m1)
  then show "0 < unat (backend_skip xxh m v)" "unat (backend_skip xxh m v) < unat m" using r by simp_all
qed

lemma backend_offset_less: "0 < unat m \<Longrightarrow> unat (backend_offset xxh m v) < unat m"
  by (simp add: backend_offset_def unat_mod_distrib)

lemma backend_strides_valid:
  assumes "prime_nat (unat m)" "bs \<noteq> []"
  shows "strides_valid (backend_strides xxh m bs)"
proof -
  have m: "1 < unat m" using assms(1) by (simp add: prime_nat_def)
  then show ?thesis
    using assms backend_skip_bounds [OF m] backend_offset_less [of m] by (simp add: backend_strides_def)
qed

text \<open>The table the Maglev paper prescribes for an array of backends.\<close>

definition maglev_spec :: "xxh64 \<Rightarrow> backend_view list \<Rightarrow> u32 \<Rightarrow> i32 list" where
  "maglev_spec xxh bs m =
     map (slot_code bs)
       (ref_fill (strides_pref (backend_strides xxh m bs)) (unat m) (length bs) (unat m))"

definition alloc_ok :: allocator where "alloc_ok s = True"

lemma maglev_table_generate_eq:
  assumes "prime_nat (unat m)" "\<forall>s. alloc s" "bs \<noteq> []" "- 1 \<notin> bv_id ` set bs"
  shows "maglev_table_generate xxh alloc bs m =
    Some (Some \<lparr>mt_m = m, mt_lookup = maglev_spec xxh (qsort backend_view_cmp_by_id bs) m\<rparr>)"
proof -
  let ?bs = "qsort backend_view_cmp_by_id bs"
  let ?o = "map (backend_offset xxh m) ?bs" and ?s = "map (backend_skip xxh m) ?bs"
  have v: "strides_valid (m, ?o, ?s)"
    using backend_strides_valid [OF assms(1), of ?bs xxh] assms(3) by (simp add: backend_strides_def)
  have "m \<noteq> 0" "m - 1 \<noteq> 0"
    using assms(1) by (auto simp: prime_nat_def)
  moreover have "fill_rel (m, ?o, ?s) ?bs 0 (replicate (unat m) (- 1)) (replicate (length ?bs) 0)"
    using fill_rel_0 [of "(m, ?o, ?s)" ?bs] by simp
  then have "maglev_populate m ?bs ?o ?s (replicate (unat m) (- 1)) (replicate (length ?bs) 0) 0 0 =
      Some (maglev_spec xxh ?bs m)"
    using maglev_populate_eq [OF v, of ?bs 0] assms(4)
    by (force simp: maglev_spec_def backend_strides_def del: strides_pref.simps)
  ultimately show ?thesis
    using assms(2,3) by (simp add: maglev_table_generate_def Let_def)
qed

lemma maglev_spec_nth:
  assumes "prime_nat (unat m)" "bs \<noteq> []" "i < unat m"
  shows "\<exists>v \<in> set bs. maglev_spec xxh bs m ! i = bv_id v"
proof -
  let ?c = "backend_strides xxh m bs"
  have c: "strides_slots ?c = unat m" "strides_cands ?c = length bs"
    by (simp_all add: backend_strides_def)
  obtain b where "b < length bs"
      "ref_fill (strides_pref ?c) (unat m) (length bs) (unat m) ! i = Some b"
    using strides.fill_full [OF backend_strides_valid [OF assms(1,2)], of i xxh] assms(3)
    by (auto simp: c)
  then show ?thesis using assms(3) by (auto simp: maglev_spec_def intro!: bexI [of _ "bs ! b"])
qed

lemma count_list_map_inj:
  assumes "\<And>y. y \<in> set xs \<Longrightarrow> f y = f x \<Longrightarrow> y = x"
  shows "count_list (map f xs) (f x) = count_list xs x"
  using assms by (induction xs) auto

lemma maglev_spec_count:
  assumes "prime_nat (unat m)" "distinct (map bv_id bs)" "b < length bs"
  shows "count_list (maglev_spec xxh bs m) (bv_id (bs ! b)) =
    unat m div length bs + (if b < unat m mod length bs then 1 else 0)"
proof -
  let ?c = "backend_strides xxh m bs"
  let ?t = "ref_fill (strides_pref ?c) (unat m) (length bs) (unat m)"
  have c: "strides_slots ?c = unat m" "strides_cands ?c = length bs"
    by (simp_all add: backend_strides_def)
  have ne: "bs \<noteq> []" using assms(3) by auto
  note v = backend_strides_valid [OF assms(1) ne, of xxh]
  have "y = Some b" if y: "y \<in> set ?t" "slot_code bs y = slot_code bs (Some b)" for y
  proof -
    obtain i where "i < unat m" "?t ! i = y" using y(1) by (auto simp: in_set_conv_nth)
    then obtain b' where "y = Some b'" "b' < length bs"
      using strides.fill_full [OF v, of i] by (auto simp: c)
    then show ?thesis using y(2) assms(2,3) by (auto simp: distinct_conv_nth)
  qed
  then have "count_list (map (slot_code bs) ?t) (slot_code bs (Some b)) = count_list ?t (Some b)"
    by (rule count_list_map_inj)
  then show ?thesis
    using strides.fill_balanced [OF v, of b] assms(3)
    by (simp add: c maglev_spec_def count_mset)
qed

section \<open>Non-termination\<close>

lemma maglev_probe_Some:
  assumes "maglev_probe lookup m offset skip j = Some r"
  shows "lookup ! unat (snd r) = - 1 \<and> (\<exists>i. snd r = probe_slot m offset skip i)"
  using assms
  by (rule maglev_probe.raw_induct [rotated]) (auto simp: Let_def split: if_splits)

text \<open>The slots that hold an id.\<close>

definition taken :: "i32 list \<Rightarrow> nat set" where
  "taken lookup = {i. i < length lookup \<and> lookup ! i \<noteq> - 1}"

lemma taken_update:
  assumes "i < length lookup" "lookup ! i = - 1" "x \<noteq> - 1"
  shows "card (taken (lookup[i := x])) = card (taken lookup) + 1"
proof -
  have "taken (lookup[i := x]) = insert i (taken lookup)" "i \<notin> taken lookup"
    using assms by (auto simp: taken_def nth_list_update)
  moreover have "finite (taken lookup)" by (simp add: taken_def)
  ultimately show ?thesis by simp
qed

text \<open>A slot that no backend ever probes stays free, and the loop does not end before every slot
  is taken.\<close>

lemma maglev_populate_starves:
  assumes ids: "\<And>v. v \<in> set bs \<Longrightarrow> bv_id v \<noteq> - 1" and bs: "bs \<noteq> []" and c: "c < unat m"
    and never: "\<And>b j. b < length bs \<Longrightarrow> unat (probe_slot m (offset ! b) (skip ! b) j) \<noteq> c"
    and range: "\<And>b j. b < length bs \<Longrightarrow> unat (probe_slot m (offset ! b) (skip ! b) j) < unat m"
    and l: "length lookup = unat m" "lookup ! c = - 1" "card (taken lookup) = filled"
  shows "maglev_populate m bs offset skip lookup nxt filled rr = None"
proof (rule ccontr)
  assume "maglev_populate m bs offset skip lookup nxt filled rr \<noteq> None"
  then obtain r where r: "maglev_populate m bs offset skip lookup nxt filled rr = Some r" by auto
  let ?P = "\<lambda>m' bs' offset' skip' lookup (nxt :: u32 list) filled (rr :: nat) (r :: i32 list).
    m' = m \<and> bs' = bs \<and> offset' = offset \<and> skip' = skip \<and>
    length lookup = unat m \<and> lookup ! c = - 1 \<and> card (taken lookup) = filled \<longrightarrow> False"
  have "?P m bs offset skip lookup nxt filled rr r"
  proof (rule maglev_populate.raw_induct [of ?P, OF _ r])
    fix f :: "u32 \<Rightarrow> backend_view list \<Rightarrow> u64 list \<Rightarrow> u64 list \<Rightarrow> i32 list \<Rightarrow> u32 list \<Rightarrow> nat \<Rightarrow> nat \<Rightarrow> i32 list option"
    fix m' bs' offset' skip' lookup nxt filled rr r
    assume IH: "\<And>m bs offset skip lookup nxt filled rr r. f m bs offset skip lookup nxt filled rr = Some r \<Longrightarrow>
        ?P m bs offset skip lookup nxt filled rr r"
      and eq: "(if filled < unat m' then
        let b = rr mod length bs' in
        do {
          (j, c) \<leftarrow> maglev_probe lookup m' (offset' ! b) (skip' ! b) (nxt ! b);
          f m' bs' offset' skip' (lookup[unat c := bv_id (bs' ! b)]) (nxt[b := j + 1]) (filled + 1) (rr + 1)
        }
      else Some lookup) = Some r"
    show "?P m' bs' offset' skip' lookup nxt filled rr r"
    proof
      assume A: "m' = m \<and> bs' = bs \<and> offset' = offset \<and> skip' = skip \<and>
        length lookup = unat m \<and> lookup ! c = - 1 \<and> card (taken lookup) = filled"
      show False
      proof (cases "filled < unat m")
        case True
        let ?b = "rr mod length bs"
        have b: "?b < length bs" using bs by simp
        obtain j s where p: "maglev_probe lookup m (offset ! ?b) (skip ! ?b) (nxt ! ?b) = Some (j, s)"
            "f m bs offset skip (lookup[unat s := bv_id (bs ! ?b)]) (nxt[?b := j + 1]) (filled + 1) (rr + 1) = Some r"
          using eq A True by (auto simp: bind_eq_Some_conv Let_def)
        have s: "lookup ! unat s = - 1" "unat s \<noteq> c" "unat s < unat m"
          using maglev_probe_Some [OF p(1)] never [OF b] range [OF b] by auto
        have "bv_id (bs ! ?b) \<noteq> - 1" using ids b by simp
        then have "card (taken (lookup[unat s := bv_id (bs ! ?b)])) = filled + 1"
          using taken_update [of "unat s" lookup] s A by simp
        then show False using IH [OF p(2)] A s by simp
      next
        case False
        have "taken lookup \<subseteq> {..<unat m} - {c}" using A by (auto simp: taken_def)
        then have "card (taken lookup) \<le> card ({..<unat m} - {c})" by (intro card_mono) auto
        then show False using A False c by simp
      qed
    qed
  qed
  then show False using l by simp
qed

lemma multiples_miss_slot:
  fixes os :: "nat list"
  assumes g: "g dvd m" "0 < m" and len: "length os < g"
  shows "\<exists>c < m. \<forall>ofs \<in> set os. \<forall>s j. g dvd s \<longrightarrow> (ofs + j * s) mod m \<noteq> c"
proof -
  have "card ((\<lambda>ofs. ofs mod g) ` set os) \<le> length os"
    by (meson card_image_le card_length finite_set le_trans)
  then have "card ((\<lambda>ofs. ofs mod g) ` set os) < card {..<g}" using len by simp
  then obtain c where c: "c < g" "c \<notin> (\<lambda>ofs. ofs mod g) ` set os"
    by (metis finite_imageI finite_set card_mono lessThan_iff not_le subsetI)
  have "(ofs + j * s) mod m \<noteq> c" if "ofs \<in> set os" "g dvd s" for ofs s j
  proof
    assume "(ofs + j * s) mod m = c"
    then have "c mod g = (ofs + j * s) mod g" using g(1) by (metis mod_mod_cancel)
    also have "\<dots> = ofs mod g" using that(2) by (auto elim!: dvdE simp: mult.left_commute)
    finally show False using c that(1) by auto
  qed
  moreover have "c < m" using c(1) g dvd_imp_le [OF g] by linarith
  ultimately show ?thesis by blast
qed

lemma mset_ids_ne: "mset xs = mset ys \<Longrightarrow> xs = [] \<longleftrightarrow> ys = []"
  by auto

lemma maglev_table_generate_mset:
  assumes "mset xs = mset ys" "distinct (map bv_id xs)"
  shows "maglev_table_generate xxh alloc xs m = maglev_table_generate xxh alloc ys m"
  using qsort_canonical [OF assms] mset_ids_ne [OF assms(1)]
  by (simp add: maglev_table_generate_def Let_def)

lemma maglev_table_generate_empty:
  "alloc Alloc_table \<Longrightarrow> alloc Alloc_lookup \<Longrightarrow>
   maglev_table_generate xxh alloc [] m = Some (Some \<lparr>mt_m = m, mt_lookup = replicate (unat m) (- 1)\<rparr>)"
  by (simp add: maglev_table_generate_def)

lemma maglev_table_lookup_eq:
  assumes "0 < unat (mt_m t)" "length (mt_lookup t) = unat (mt_m t)"
  shows "maglev_table_lookup xxh t key =
    Some (mt_lookup t ! (unat (flow_hash xxh key) mod unat (mt_m t)))"
proof -
  let ?h = "unat (flow_hash xxh key) mod unat (mt_m t)"
  have h: "?h < unat (mt_m t)" using assms(1) by simp
  then have "unat (ucast (flow_hash xxh key mod ucast (mt_m t)) :: u32) = ?h"
    using unat_u32_less [of "mt_m t"]
    by (simp add: unsigned_ucast_eq take_bit_eq_mod unat_mod_distrib)
  with h assms show ?thesis
    by (auto simp: maglev_table_lookup_def Let_def)
qed

lemma find_backend_scan_Some:
  "find_backend_scan vs i = Some v \<Longrightarrow> v \<in> set vs \<and> bv_id v = i"
  by (induction vs) (auto split: if_splits)

lemma find_backend_scan_None_iff:
  "find_backend_scan vs i = None \<longleftrightarrow> i \<notin> bv_id ` set vs"
  by (induction vs) auto

lemma find_backend_scan_distinct:
  "distinct (map bv_id vs) \<Longrightarrow> v \<in> set vs \<Longrightarrow> find_backend_scan vs (bv_id v) = Some v"
  by (induction vs) (auto simp: image_iff)

lemma routing_snapshot_create_eq:
  assumes "prime_nat (unat m)" "\<forall>s. alloc s" "cands \<noteq> []" "- 1 \<notin> bv_id ` set cands"
  shows "routing_snapshot_create xxh alloc routable cands m gen =
    Some (Some \<lparr>rs_table = \<lparr>mt_m = m,
        mt_lookup = maglev_spec xxh (qsort backend_view_cmp_by_id cands) m\<rparr>,
      rs_backends = routable, rs_generation = gen\<rparr>)"
proof -
  have "alloc Alloc_snapshot" "alloc Alloc_snapshot_backends" using assms(2) by simp_all
  then show ?thesis
    by (simp add: routing_snapshot_create_def maglev_table_generate_eq [of m alloc cands xxh, OF assms])
qed

lemma length_maglev_spec [simp]: "length (maglev_spec xxh bs m) = unat m"
  by (simp add: maglev_spec_def)

section \<open>Properties\<close>

text \<open>A concrete hash and concrete backends for the witnesses.\<close>

definition demo_xxh :: xxh64 where
  "demo_xxh data seed = seed XOR (sum_list (map ucast data) * 2654435761)"

definition demo_backends :: "backend_view list" where
  "demo_backends =
     [\<lparr>bv_id = 2, bv_addr = 0x0200000A, bv_port = 80, bv_mac = [2, 0, 0, 0, 0, 2]\<rparr>,
      \<lparr>bv_id = 1, bv_addr = 0x0100000A, bv_port = 80, bv_mac = [2, 0, 0, 0, 0, 1]\<rparr>]"

text \<open>C3. For a prime table size, any non-empty set of backends whose ids are not the free-slot
  mark and an allocator that succeeds, \<open>maglev_table_generate\<close> returns, and the table is the
  one of the Maglev paper: the cursor-based populate loop over machine words computes the
  reference fill in which each backend, in id order and round robin, takes the first free
  slot of its whole preference list.\<close>

theorem maglev_table_generate_refines:
  assumes "maglev_is_prime m" "\<forall>s. alloc s" "backends \<noteq> []" "- 1 \<notin> bv_id ` set backends"
  shows "maglev_table_generate xxh alloc backends m =
    Some (Some \<lparr>mt_m = m, mt_lookup = maglev_spec xxh (qsort backend_view_cmp_by_id backends) m\<rparr>)"
  using assms by (intro maglev_table_generate_eq) (auto simp: maglev_is_prime_iff)

theorem maglev_table_generate_refines_witness:
  "maglev_is_prime 7 \<and> maglev_table_generate demo_xxh alloc_ok demo_backends 7 =
    Some (Some \<lparr>mt_m = 7, mt_lookup = [2, 1, 1, 2, 1, 2, 1]\<rparr>)"
proof -
  have p: "maglev_is_prime 7" by code_simp
  have s: "maglev_spec demo_xxh (qsort backend_view_cmp_by_id demo_backends) 7 =
      [2, 1, 1, 2, 1, 2, 1]"
    by code_simp
  show ?thesis
    using maglev_table_generate_refines [OF p, of alloc_ok demo_backends demo_xxh] p s
    by (simp add: alloc_ok_def demo_backends_def)
qed


text \<open>C7. Coverage and balance. For a prime table size the generated table has exactly \<open>m\<close>
  slots, every slot holds the id of one of the backends, and each of the \<open>n\<close> backends gets
  \<open>m div n\<close> slots or one more.\<close>

theorem maglev_table_balanced:
  assumes "maglev_is_prime m" "\<forall>s. alloc s" "backends \<noteq> []"
    "distinct (map bv_id backends)" "- 1 \<notin> bv_id ` set backends"
  shows "\<exists>lookup. maglev_table_generate xxh alloc backends m =
      Some (Some \<lparr>mt_m = m, mt_lookup = lookup\<rparr>) \<and>
    length lookup = unat m \<and> set lookup \<subseteq> bv_id ` set backends \<and>
    (\<forall>v \<in> set backends. count_list lookup (bv_id v) \<in>
       {unat m div length backends, unat m div length backends + 1})"
proof -
  let ?bs = "qsort backend_view_cmp_by_id backends"
  let ?l = "maglev_spec xxh ?bs m"
  have p: "prime_nat (unat m)" using assms(1) by (simp add: maglev_is_prime_iff)
  have "set ?l \<subseteq> bv_id ` set backends"
    using maglev_spec_nth [OF p, of ?bs _ xxh] assms(3) by (fastforce simp: in_set_conv_nth)
  moreover have "count_list ?l (bv_id v) \<in> {unat m div length backends, unat m div length backends + 1}"
    if "v \<in> set backends" for v
  proof -
    from that have "v \<in> set ?bs" by simp
    then obtain b where "b < length ?bs" "v = ?bs ! b" by (metis in_set_conv_nth)
    then show ?thesis using maglev_spec_count [OF p, of ?bs b xxh] assms(4) by simp
  qed
  ultimately show ?thesis
    by (intro exI [of _ ?l] conjI ballI maglev_table_generate_eq p assms) simp_all
qed

theorem maglev_table_balanced_witness:
  "\<exists>lookup. maglev_table_generate demo_xxh alloc_ok demo_backends 65537 =
      Some (Some \<lparr>mt_m = 65537, mt_lookup = lookup\<rparr>) \<and>
    length lookup = 65537 \<and> set lookup \<subseteq> {1, 2} \<and>
    count_list lookup 1 \<in> {32768, 32769} \<and> count_list lookup 2 \<in> {32768, 32769}"
proof -
  have p: "maglev_is_prime 65537" by code_simp
  have h: "\<forall>s. alloc_ok s" "demo_backends \<noteq> []" "distinct (map bv_id demo_backends)"
    "- 1 \<notin> bv_id ` set demo_backends" "bv_id ` set demo_backends = {1, 2}"
    "length demo_backends = 2"
    by (auto simp: alloc_ok_def demo_backends_def)
  have two: "count_list l 1 \<in> S \<and> count_list l 2 \<in> S"
    if "\<forall>v \<in> set demo_backends. count_list l (bv_id v) \<in> S" for l S
    using that by (simp add: demo_backends_def)
  have m: "unat (65537 :: u32) = 65537" "(65537 :: nat) div 2 = 32768" "(32768 :: nat) + 1 = 32769"
    by simp_all
  from maglev_table_balanced [OF p h(1-4), of demo_xxh, unfolded h(5,6) m]
  show ?thesis using two by blast
qed

text \<open>C23. Order independence. Two load balancers that enumerate the same set of backends in
  any two orders generate the same table, for every table size and every allocator
  behaviour.\<close>

theorem maglev_table_order_independent:
  assumes "mset xs = mset ys" "distinct (map bv_id xs)"
  shows "maglev_table_generate xxh alloc xs m = maglev_table_generate xxh alloc ys m"
  using assms by (rule maglev_table_generate_mset)

theorem maglev_table_order_independent_witness:
  "maglev_table_generate demo_xxh alloc_ok demo_backends 7 =
   maglev_table_generate demo_xxh alloc_ok (rev demo_backends) 7"
  using maglev_table_order_independent [of demo_backends "rev demo_backends"]
  by (simp add: demo_backends_def)

text \<open>C24. A snapshot built from a non-empty candidate set contained in the routable set
  resolves every flow: the table lookup yields the id of a candidate, and
  \<open>routing_snapshot_find_backend\<close> returns exactly that candidate. Backends that are routable
  but not candidates (draining) receive no slot, yet stay resolvable by their id.\<close>

theorem routing_snapshot_resolves:
  assumes "maglev_is_prime m" "\<forall>s. alloc s" "candidates \<noteq> []" "set candidates \<subseteq> set routable"
    "distinct (map bv_id routable)" "- 1 \<notin> bv_id ` set routable"
  shows "\<exists>snap. routing_snapshot_create xxh alloc routable candidates m gen = Some (Some snap) \<and>
    (\<forall>key. \<exists>v \<in> set candidates.
       maglev_table_lookup xxh (rs_table snap) key = Some (bv_id v) \<and>
       routing_snapshot_find_backend snap (bv_id v) = Some v) \<and>
    (\<forall>v \<in> set routable. routing_snapshot_find_backend snap (bv_id v) = Some v)"
proof -
  let ?bs = "qsort backend_view_cmp_by_id candidates"
  let ?snap = "\<lparr>rs_table = \<lparr>mt_m = m, mt_lookup = maglev_spec xxh ?bs m\<rparr>,
      rs_backends = routable, rs_generation = gen\<rparr>"
  have p: "prime_nat (unat m)" using assms(1) by (simp add: maglev_is_prime_iff)
  then have m: "0 < unat m" by (simp add: prime_nat_def)
  have "routing_snapshot_create xxh alloc routable candidates m gen = Some (Some ?snap)"
    using assms by (intro routing_snapshot_create_eq p) auto
  moreover have find: "routing_snapshot_find_backend ?snap (bv_id v) = Some v" if "v \<in> set routable" for v
    using find_backend_scan_distinct [OF assms(5) that] by (simp add: routing_snapshot_find_backend_def)
  moreover have "\<exists>v \<in> set candidates. maglev_table_lookup xxh (rs_table ?snap) key = Some (bv_id v) \<and>
      routing_snapshot_find_backend ?snap (bv_id v) = Some v" for key
  proof -
    have "unat (flow_hash xxh key) mod unat m < unat m" using m by simp
    then obtain v where "v \<in> set candidates"
        "maglev_spec xxh ?bs m ! (unat (flow_hash xxh key) mod unat m) = bv_id v"
      using maglev_spec_nth [OF p, of ?bs] assms(3) by force
    then show ?thesis
      using m find assms(4) maglev_table_lookup_eq [of "rs_table ?snap" xxh key]
      by (intro bexI [of _ v]) auto
  qed
  ultimately show ?thesis by blast
qed

theorem routing_snapshot_resolves_witness:
  "\<exists>snap. routing_snapshot_create demo_xxh alloc_ok demo_backends [hd demo_backends] 7 1 =
       Some (Some snap) \<and>
    (\<forall>key. maglev_table_lookup demo_xxh (rs_table snap) key = Some 2) \<and>
    routing_snapshot_find_backend snap 1 = Some (demo_backends ! 1)"
proof -
  have p: "maglev_is_prime 7" by code_simp
  show ?thesis
    using routing_snapshot_resolves [OF p, of alloc_ok "[hd demo_backends]" demo_backends demo_xxh 1]
    by (force simp: alloc_ok_def demo_backends_def)
qed

text \<open>C26. The table size has to be prime: whatever the hash function, when \<open>g\<close> divides the size and
  the strides of all backends, and there are fewer than \<open>g\<close> backends, some slots are in nobody's
  preference list; the populate loop then never ends, so \<open>maglev_table_generate\<close> does not return
  although every allocation succeeds and the size is at least 2.\<close>

theorem maglev_generate_composite_hangs:
  assumes "m \<noteq> 0" "g dvd unat m" "backends \<noteq> []" "length backends < g"
    "\<forall>v \<in> set backends. g dvd unat (backend_skip xxh m v) \<and> bv_id v \<noteq> - 1"
  shows "maglev_table_generate xxh alloc_ok backends m = None"
proof -
  let ?bs = "qsort backend_view_cmp_by_id backends"
  let ?o = "map (backend_offset xxh m) ?bs" and ?s = "map (backend_skip xxh m) ?bs"
  have "1 \<le> length backends" using assms(3) by (cases backends) auto
  then have g1: "1 < g" using assms(4) by linarith
  have m0: "0 < unat m" using assms(1) by (simp add: unat_gt_0)
  then have m: "1 < unat m" using dvd_imp_le [OF assms(2)] g1 by linarith
  obtain c where c: "c < unat m"
      "\<forall>ofs \<in> set (map unat ?o). \<forall>s j. g dvd s \<longrightarrow> (ofs + j * s) mod unat m \<noteq> c"
    using multiples_miss_slot [OF assms(2) m0, of "map unat ?o"] assms(4) by auto
  have slot: "unat (probe_slot m (?o ! b) (?s ! b) j) = (unat (?o ! b) + unat j * unat (?s ! b)) mod unat m"
    if "b < length ?bs" for b j
    using that backend_offset_less [OF m0] backend_skip_bounds [OF m] by (simp add: probe_slot_unat)
  have "maglev_populate m ?bs ?o ?s (replicate (unat m) (- 1)) (replicate (length ?bs) 0) 0 0 = None"
  proof (rule maglev_populate_starves)
    show "unat (probe_slot m (?o ! b) (?s ! b) j) \<noteq> c" if b: "b < length ?bs" for b j
    proof -
      have "map unat ?o ! b = unat (?o ! b)" "b < length (map unat ?o)" using b by simp_all
      then have "unat (?o ! b) \<in> set (map unat ?o)" by (metis nth_mem)
      moreover have "?bs ! b \<in> set backends" using nth_mem [OF b] unfolding set_qsort .
      then have "g dvd unat (?s ! b)" using b assms(5) by simp
      ultimately show ?thesis using c(2) slot [OF b, of j] by metis
    qed
    show "unat (probe_slot m (?o ! b) (?s ! b) j) < unat m" if "b < length ?bs" for b j
      using slot [OF that, of j] m0 by simp
  qed (use assms(3,5) c in \<open>auto simp: taken_def\<close>)
  moreover have "m - 1 \<noteq> 0" using m by auto
  ultimately show ?thesis
    using assms(1,3) by (simp add: maglev_table_generate_def Let_def alloc_ok_def)
qed

theorem maglev_generate_composite_hangs_witness:
  "maglev_table_generate demo_xxh alloc_ok [demo_backends ! 1] 1000 = None"
proof -
  have "unat (backend_skip demo_xxh 1000 (demo_backends ! 1)) = 722" by code_simp
  then show ?thesis
    using maglev_generate_composite_hangs [of 1000 2 "[demo_backends ! 1]" demo_xxh] by (simp add: demo_backends_def)
qed

end
