(* ===== verification/Double_Arith.thy ===== *)
theory Double_Arith
  imports LB_Prelude
begin

text \<open>
  The non-negative IEEE 754 binary64 arithmetic that \<open>src/conntrack/conntrack.c\<close> uses to size
  its bucket array: conversion of a \<open>size_t\<close>, division, and truncation back to \<open>size_t\<close>.
  A double is a mantissa of at most 53 bits with a binary exponent; every operation rounds
  to nearest, ties to even. The values that occur are far from the subnormal and overflow
  ranges, which are not represented.
\<close>

section \<open>Definitions\<close>

type_synonym f64 = "nat \<times> int"

fun bit_length :: "nat \<Rightarrow> nat" where
  "bit_length n = (if n = 0 then 0 else Suc (bit_length (n div 2)))"

declare bit_length.simps [simp del]

text \<open>The integer nearest to \<open>n / d\<close>, ties to even.\<close>

definition round_ratio :: "nat \<Rightarrow> nat \<Rightarrow> nat" where
  "round_ratio n d =
     (let q = n div d; r = n mod d in
      if 2 * r < d \<or> 2 * r = d \<and> even q then q else q + 1)"

text \<open>The exponent for which \<open>n / d\<close> has a 53 bit mantissa.\<close>

definition f64_exponent :: "nat \<Rightarrow> nat \<Rightarrow> int" where
  "f64_exponent n d =
     (let k = int (bit_length n) - int (bit_length d) in
      if d * 2 ^ nat k \<le> n * 2 ^ nat (- k) then k - 52 else k - 53)"

definition f64_of_ratio :: "nat \<Rightarrow> nat \<Rightarrow> f64" where
  "f64_of_ratio n d =
     (if n = 0 then (0, 0)
      else
        let e = f64_exponent n d in
        (round_ratio (n * 2 ^ nat (- e)) (d * 2 ^ nat e), e))"

definition f64_of_u64 :: "u64 \<Rightarrow> f64" where
  "f64_of_u64 x = f64_of_ratio (unat x) 1"

fun f64_div :: "f64 \<Rightarrow> f64 \<Rightarrow> f64" where
  "f64_div (m, e) (m', e') = f64_of_ratio (m * 2 ^ nat (e - e')) (m' * 2 ^ nat (e' - e))"

text \<open>The conversion to \<open>size_t\<close> truncates; it is undefined from \<open>2 ^ 64\<close> on.\<close>

fun f64_to_u64 :: "f64 \<Rightarrow> u64 option" where
  "f64_to_u64 (m, e) =
     (let v = m * 2 ^ nat e div 2 ^ nat (- e) in
      if v < 2 ^ 64 then Some (word_of_nat v) else None)"

section \<open>Rounding\<close>

lemma bit_length_bounds: "0 < n \<Longrightarrow> 2 ^ (bit_length n - 1) \<le> n \<and> n < 2 ^ bit_length n \<and> 0 < bit_length n"
proof (induction n rule: bit_length.induct)
  case (1 n)
  show ?case
  proof (cases "n div 2 = 0")
    case True
    with 1 have "n = 1" by simp
    then show ?thesis by (simp add: bit_length.simps [of "Suc 0"] bit_length.simps [of 0])
  next
    case False
    then have IH: "2 ^ (bit_length (n div 2) - 1) \<le> n div 2" "n div 2 < 2 ^ bit_length (n div 2)"
        "0 < bit_length (n div 2)"
      using 1 by auto
    let ?k = "bit_length (n div 2)"
    have k: "bit_length n = Suc ?k" using "1.prems" by (simp add: bit_length.simps [of n])
    have "(2 :: nat) ^ ?k = 2 * 2 ^ (?k - 1)" using IH(3) by (simp flip: power_Suc)
    then have "2 ^ ?k \<le> n" using IH(1) by linarith
    moreover have "n < 2 * 2 ^ ?k" using IH(2) by linarith
    ultimately show ?thesis by (simp add: k)
  qed
qed

lemma bit_length_eqI:
  assumes "2 ^ k \<le> n" "n < 2 ^ Suc k"
  shows "bit_length n = Suc k"
proof -
  have "(0 :: nat) < 2 ^ k" by simp
  then have n: "0 < n" using assms(1) by linarith
  note b = bit_length_bounds [OF n]
  have "(2 :: nat) ^ (bit_length n - 1) < 2 ^ Suc k" using b assms(2) by linarith
  moreover have "(2 :: nat) ^ k < 2 ^ bit_length n" using b assms(1) by linarith
  ultimately have "bit_length n - 1 < Suc k" "k < bit_length n"
    by (simp_all only: power_strict_increasing_iff one_less_numeral_iff semiring_norm)
  then show ?thesis by simp
qed

lemma round_ratio_scale: "0 < c \<Longrightarrow> round_ratio (c * n) (c * d) = round_ratio n d"
proof -
  assume c: "0 < c"
  have "2 * (c * r) < c * d \<longleftrightarrow> 2 * r < d" "2 * (c * r) = c * d \<longleftrightarrow> 2 * r = d" for r
    using c by (simp_all add: mult.left_commute)
  then show ?thesis
    using c unfolding round_ratio_def Let_def mult_mod_right [symmetric] by simp
qed

lemma round_ratio_1 [simp]: "round_ratio n (Suc 0) = n"
  by (simp add: round_ratio_def)

text \<open>Rounding a multiple of a third at a precision of at least one half never reaches the
  next integer.\<close>

lemma round_ratio_third_floor:
  assumes "2 \<le> s"
  shows "round_ratio (n * s) 3 div s = n div 3"
proof -
  let ?q = "n div 3" and ?r = "n mod 3"
  have "n * s = ?r * s + 3 * (?q * s)"
    by (metis add.commute add_mult_distrib mult.assoc mult_div_mod_eq)
  then have dm: "n * s div 3 = ?q * s + ?r * s div 3" "n * s mod 3 = ?r * s mod 3"
    by simp_all
  define t where "t = ?r * s div 3 + (if 2 * (?r * s mod 3) < 3 then 0 else 1)"
  have "t < s"
  proof -
    consider "?r = 0" | "?r = 1" | "?r = 2" by linarith
    then show ?thesis
    proof cases
      case 1
      then show ?thesis using assms by (simp add: t_def)
    next
      case 2
      then show ?thesis using assms unfolding t_def by simp presburger
    next
      case 3
      then show ?thesis using assms unfolding t_def by simp presburger
    qed
  qed
  moreover have "2 * a \<noteq> 3" for a :: nat by presburger
  then have "round_ratio (n * s) 3 = ?q * s + t"
    unfolding round_ratio_def Let_def dm by (simp add: t_def)
  ultimately show ?thesis using assms by simp
qed

lemma f64_exponent_le:
  assumes "0 < n" "0 < d" "n < 2 ^ p * d"
  shows "f64_exponent n d \<le> int p - 53"
proof -
  define k where "k = int (bit_length n) - int (bit_length d)"
  have N: "2 ^ (bit_length n - 1) \<le> n" "0 < bit_length n" and D: "d < 2 ^ bit_length d"
    using bit_length_bounds assms by auto
  have "(2 :: nat) ^ (bit_length n - 1) < 2 ^ (p + bit_length d)"
    using N(1) D assms(3) by (simp add: power_add)
      (meson le_less_trans less_trans mult_less_mono2 zero_less_numeral zero_less_power)
  then have kp: "k \<le> int p" using N(2) by (simp add: k_def)
  show ?thesis
  proof (cases "k = int p")
    case False
    then show ?thesis using kp by (simp add: f64_exponent_def Let_def k_def [symmetric])
  next
    case True
    then have "\<not> d * 2 ^ nat k \<le> n * 2 ^ nat (- k)" using assms(3) by (simp add: mult.commute)
    with True show ?thesis by (simp add: f64_exponent_def Let_def k_def [symmetric])
  qed
qed

lemma f64_of_small:
  assumes "0 < unat x" "unat x < 2 ^ 53"
  shows "\<exists>j. f64_of_u64 x = (unat x * 2 ^ j, - int j)"
proof -
  have "f64_exponent (unat x) 1 \<le> 0" using f64_exponent_le [of "unat x" 1 53] assms by simp
  moreover define j where "j = nat (- f64_exponent (unat x) 1)"
  ultimately have "f64_exponent (unat x) 1 = - int j" by simp
  then show ?thesis using assms by (simp add: f64_of_u64_def f64_of_ratio_def)
qed

text \<open>\<open>(size_t) ((double) x / 0.75)\<close> is exact for every count below \<open>2 ^ 50\<close>.\<close>

lemma f64_div_three_quarters:
  assumes "unat x < 2 ^ 50"
  shows "f64_to_u64 (f64_div (f64_of_u64 x) (3, - 2)) = Some (word_of_nat (4 * unat x div 3))"
proof (cases "unat x = 0")
  case True
  then show ?thesis by (simp add: f64_of_u64_def f64_of_ratio_def)
next
  case False
  then obtain j where j: "f64_of_u64 x = (unat x * 2 ^ j, - int j)"
    using f64_of_small [of x] assms by auto
  define c where "c = (2 :: nat) ^ nat (int j - 2)"
  let ?N = "unat x * 2 ^ j * 2 ^ nat (2 - int j)" and ?D = "3 * c"
  have "(2 :: nat) ^ j * 2 ^ nat (2 - int j) = 4 * c"
  proof (cases "j \<le> 2")
    case True
    then have "(2 :: nat) ^ j * 2 ^ nat (2 - int j) = 2 ^ (j + (2 - j))"
      by (simp only: power_add) (simp add: nat_diff_distrib)
    with True show ?thesis by (simp add: c_def)
  next
    case False
    then obtain i where "j = i + 2" by (metis add.commute le_Suc_ex nat_le_linear)
    then show ?thesis by (simp add: c_def power_add)
  qed
  then have N: "?N = c * (4 * unat x)" by (simp add: mult.assoc mult.left_commute)
  have c: "0 < c" by (simp add: c_def)
  have "f64_exponent ?N ?D \<le> int 51 - 53"
  proof (rule f64_exponent_le)
    have "4 * unat x < 2 ^ 51 * 3" using assms by simp
    then show "?N < 2 ^ 51 * ?D" using c unfolding N
      by (metis mult.commute mult.left_commute mult_less_cancel2)
  qed (use False c in simp_all)
  moreover define i where "i = nat (- f64_exponent ?N ?D)"
  ultimately have i: "f64_exponent ?N ?D = - int i" "2 \<le> i" by simp_all
  have s: "2 \<le> (2 :: nat) ^ i" using i(2) by (cases i) auto
  have "round_ratio (?N * 2 ^ i) ?D = round_ratio (4 * unat x * 2 ^ i) 3"
    using round_ratio_scale [OF c, of "4 * unat x * 2 ^ i" 3]
    unfolding N by (simp only: mult.assoc mult.commute [of c 3])
  then have "f64_of_ratio ?N ?D = (round_ratio (4 * unat x * 2 ^ i) 3, - int i)"
    using False c by (simp add: f64_of_ratio_def i)
  moreover have "round_ratio (4 * unat x * 2 ^ i) 3 div 2 ^ i = 4 * unat x div 3"
    using round_ratio_third_floor [OF s] .
  moreover have "4 * unat x div 3 < 2 ^ 64" using assms by simp
  ultimately show ?thesis by (simp add: j c_def nat_diff_distrib)
qed

lemma round_ratio_bounds: "n div d \<le> round_ratio n d" "round_ratio n d \<le> n div d + 1"
  by (simp_all add: round_ratio_def Let_def)

text \<open>From \<open>0.75 * 2 ^ 63\<close> on the quotient, rounded as it is, reaches \<open>2 ^ 63\<close>.\<close>

lemma f64_div_three_quarters_large:
  assumes "3 * 2 ^ 61 \<le> unat x" "unat x < 2 ^ 63"
  shows "\<exists>q. f64_to_u64 (f64_div (f64_of_u64 x) (3, - 2)) = Some q \<and> 2 ^ 63 < unat (q + 1)"
proof -
  define m where "m = round_ratio (unat x) (2 ^ 10)"
  have bx: "bit_length (unat x) = 63" using bit_length_eqI [of 62 "unat x"] assms by simp
  have b1: "bit_length 1 = 1" "bit_length 3 = 2" using bit_length_eqI [of 0 1] bit_length_eqI [of 1 3] by simp_all
  have "f64_exponent (unat x) 1 = 10" using assms(1) unfolding f64_exponent_def bx b1 Let_def by simp
  then have fx: "f64_of_u64 x = (m, 10)" using assms(1) by (simp add: f64_of_u64_def f64_of_ratio_def m_def)
  have m: "3 * 2 ^ 51 \<le> m" "m \<le> 2 ^ 53"
  proof -
    have "3 * 2 ^ 61 div 2 ^ 10 \<le> unat x div 2 ^ 10" by (rule div_le_mono [OF assms(1)])
    then show "3 * 2 ^ 51 \<le> m" using round_ratio_bounds(1) [of "unat x" "2 ^ 10"] unfolding m_def by simp
    have "unat x div 2 ^ 10 < 2 ^ 53" using assms(2) by (simp add: less_mult_imp_div_less)
    then show "m \<le> 2 ^ 53" using round_ratio_bounds(2) [of "unat x" "2 ^ 10"] unfolding m_def by linarith
  qed
  define N where "N = m * 2 ^ 12"
  have N: "3 * 2 ^ 63 \<le> N" "N \<le> 2 ^ 65" using m by (simp_all add: N_def)
  have e: "f64_exponent N 3 = 11"
  proof (cases "N = 2 ^ 65")
    case True
    have "bit_length N = 66" using bit_length_eqI [of 65 N] True by simp
    then show ?thesis unfolding f64_exponent_def b1 Let_def by (simp add: True)
  next
    case False
    then have "bit_length N = 65" using bit_length_eqI [of 64 N] N by simp
    then show ?thesis using N(1) unfolding f64_exponent_def b1 Let_def by simp
  qed
  define r where "r = round_ratio N (3 * 2 ^ 11)"
  have d: "f64_div (f64_of_u64 x) (3, - 2) = (r, 11)"
    using N(1) e unfolding fx by (simp add: f64_of_ratio_def N_def r_def)
  have r: "2 ^ 52 \<le> r" "r * 2 ^ 11 < 2 ^ 64 - 1"
  proof -
    have "3 * 2 ^ 63 div (3 * 2 ^ 11) \<le> N div (3 * 2 ^ 11)" by (rule div_le_mono [OF N(1)])
    then show "2 ^ 52 \<le> r" using round_ratio_bounds(1) [of N "3 * 2 ^ 11"] unfolding r_def by simp
    have "N div (3 * 2 ^ 11) \<le> 2 ^ 65 div (3 * 2 ^ 11)" by (rule div_le_mono [OF N(2)])
    then show "r * 2 ^ 11 < 2 ^ 64 - 1" using round_ratio_bounds(2) [of N "3 * 2 ^ 11"] unfolding r_def by simp
  qed
  have "unat (word_of_nat (r * 2 ^ 11) + 1 :: u64) = r * 2 ^ 11 + 1"
    using r(2) by (simp add: unat_word_ariths unat_of_nat)
  then show ?thesis using r unfolding d by (intro exI [of _ "word_of_nat (r * 2 ^ 11)"]) simp
qed

end
