(* ===== verification/Conntrack.thy ===== *)
theory Conntrack
  imports Maglev_Table Double_Arith
begin

text \<open>
  \<open>src/conntrack/conntrack.c\<close> and the sweep entry point of \<open>src/conntrack/reaper.c\<close>: the
  connection table as the code keeps it, a slab of entries threaded by \<open>next\<close> pointers into
  one chain per bucket and a free list. A pointer to an entry is its slab index, NULL is
  \<open>None\<close>; every dereference is checked, and a chain walk that does not end or leaves the
  slab has the value \<open>None\<close>.

  The bytes of the freshly allocated slab are the parameter \<open>garbage\<close>, the outcomes of the
  three allocations the parameter \<open>alloc\<close>, and the eviction callback with the state it
  changes the parameters \<open>on_evict\<close> and \<open>w\<close>.
\<close>

section \<open>Data\<close>

type_synonym entry_ptr = "nat option"

record conntrack_entry =
  ce_key :: flow_key
  ce_backend_id :: i32
  ce_last_seen_ns :: u64
  ce_next :: entry_ptr

record conntrack_table =
  buckets :: "entry_ptr list"
  bucket_count :: u64
  slab :: "conntrack_entry list"
  free_list :: entry_ptr
  sweep_cursor :: u64
  active :: u64

datatype ct_alloc_site = Alloc_ct | Alloc_buckets | Alloc_slab

section \<open>Creation\<close>

partial_function (option) next_pow2_from :: "u64 \<Rightarrow> u64 \<Rightarrow> u64 option" where
  "next_pow2_from p x = (if p < x then next_pow2_from (push_bit 1 p) x else Some p)"

definition next_pow2 :: "u64 \<Rightarrow> u64 option" where
  "next_pow2 x = next_pow2_from 1 x"

function conntrack_link_slab ::
  "nat \<Rightarrow> nat \<Rightarrow> conntrack_entry list \<Rightarrow> conntrack_entry list option" where
  "conntrack_link_slab i max_flows es =
     (if i < max_flows then
        if i < length es then
          conntrack_link_slab (i + 1) max_flows
            (es[i := (es ! i)\<lparr>ce_next := if i + 1 < max_flows then Some (i + 1) else None\<rparr>])
        else None
      else Some es)"
  by pat_completeness auto
termination by (relation "measure (\<lambda>(i, n, _). n - i)") auto

declare conntrack_link_slab.simps [simp del]

text \<open>The size of an entry on a 64-bit target: the key packed into 13 bytes and padded to 16,
  the 4 byte id padded to 8, the time stamp and the pointer.\<close>

definition sizeof_conntrack_entry :: u64 where "sizeof_conntrack_entry = 40"

definition conntrack_create ::
  "(ct_alloc_site \<Rightarrow> bool) \<Rightarrow> (nat \<Rightarrow> conntrack_entry) \<Rightarrow> u64 \<Rightarrow> conntrack_table option option" where
  "conntrack_create alloc garbage max_flows =
     (if \<not> alloc Alloc_ct then Some None
      else do {
        q \<leftarrow> f64_to_u64 (f64_div (f64_of_u64 max_flows) (3, - 2));
        let desired_buckets = q + 1;
        count \<leftarrow> next_pow2 desired_buckets;
        let n = unat (sizeof_conntrack_entry * max_flows) div unat sizeof_conntrack_entry;
        if \<not> alloc Alloc_buckets \<or> max_flows > 0 \<and> \<not> alloc Alloc_slab then Some None
        else do {
          es \<leftarrow> conntrack_link_slab 0 (unat max_flows) (map garbage [0..<n]);
          Some (Some \<lparr>buckets = replicate (unat count) None, bucket_count = count, slab = es,
            free_list = (if max_flows > 0 then Some 0 else None), sweep_cursor = 0, active = 0\<rparr>)
        }
      })"

section \<open>Lookup and insertion\<close>

definition bucket_idx :: "xxh64 \<Rightarrow> conntrack_table \<Rightarrow> flow_key \<Rightarrow> nat" where
  "bucket_idx xxh ct key = unat (flow_hash xxh key AND (bucket_count ct - 1))"

partial_function (option) conntrack_find ::
  "conntrack_entry list \<Rightarrow> flow_key \<Rightarrow> entry_ptr \<Rightarrow> entry_ptr option" where
  "conntrack_find es key e =
     (case e of
        None \<Rightarrow> Some None
      | Some p \<Rightarrow>
        if p < length es then
          if flow_key_bytes (ce_key (es ! p)) = flow_key_bytes key then Some (Some p)
          else conntrack_find es key (ce_next (es ! p))
        else None)"

definition conntrack_lookup ::
  "xxh64 \<Rightarrow> conntrack_table \<Rightarrow> flow_key \<Rightarrow> u64 \<Rightarrow> (conntrack_table \<times> i32 option) option" where
  "conntrack_lookup xxh ct key now_ns =
     (let idx = bucket_idx xxh ct key in
      if idx < length (buckets ct) then do {
        r \<leftarrow> conntrack_find (slab ct) key (buckets ct ! idx);
        case r of
          None \<Rightarrow> Some (ct, None)
        | Some p \<Rightarrow>
          Some (ct\<lparr>slab := (slab ct)[p := (slab ct ! p)\<lparr>ce_last_seen_ns := now_ns\<rparr>]\<rparr>,
                Some (ce_backend_id (slab ct ! p)))
      } else None)"

definition conntrack_insert ::
  "xxh64 \<Rightarrow> conntrack_table \<Rightarrow> flow_key \<Rightarrow> i32 \<Rightarrow> u64 \<Rightarrow> (conntrack_table \<times> bool) option" where
  "conntrack_insert xxh ct key backend_id now_ns =
     (case free_list ct of
        None \<Rightarrow> Some (ct, False)
      | Some e \<Rightarrow>
        let idx = bucket_idx xxh ct key in
        if e < length (slab ct) \<and> idx < length (buckets ct) then
          Some (ct\<lparr>free_list := ce_next (slab ct ! e),
                   slab := (slab ct)[e := \<lparr>ce_key = key, ce_backend_id = backend_id,
                     ce_last_seen_ns = now_ns, ce_next = buckets ct ! idx\<rparr>],
                   buckets := (buckets ct)[idx := Some e],
                   active := active ct + 1\<rparr>, True)
        else None)"

section \<open>Reaping\<close>

text \<open>The variable \<open>link\<close> of the sweep points either at a bucket head or at the \<open>next\<close> field
  of an entry.\<close>

datatype entry_link = Link_bucket nat | Link_next nat

fun link_get :: "conntrack_table \<Rightarrow> entry_link \<Rightarrow> entry_ptr option" where
  "link_get ct (Link_bucket i) = (if i < length (buckets ct) then Some (buckets ct ! i) else None)"
| "link_get ct (Link_next p) = (if p < length (slab ct) then Some (ce_next (slab ct ! p)) else None)"

fun link_set :: "conntrack_table \<Rightarrow> entry_link \<Rightarrow> entry_ptr \<Rightarrow> conntrack_table" where
  "link_set ct (Link_bucket i) v = ct\<lparr>buckets := (buckets ct)[i := v]\<rparr>"
| "link_set ct (Link_next p) v = ct\<lparr>slab := (slab ct)[p := (slab ct ! p)\<lparr>ce_next := v\<rparr>]\<rparr>"

definition entry_timeout :: "u64 \<Rightarrow> u64 \<Rightarrow> flow_key \<Rightarrow> u64" where
  "entry_timeout tcp_timeout_ns udp_timeout_ns key =
     (if proto key = IPPROTO_TCP then tcp_timeout_ns else udp_timeout_ns)"

definition reap_unlink :: "conntrack_table \<Rightarrow> entry_link \<Rightarrow> nat \<Rightarrow> conntrack_table" where
  "reap_unlink ct link e =
     (let ct1 = link_set ct link (ce_next (slab ct ! e));
          ct2 = ct1\<lparr>slab := (slab ct1)[e := (slab ct1 ! e)\<lparr>ce_next := free_list ct1\<rparr>]\<rparr> in
      ct2\<lparr>free_list := Some e, active := active ct2 - 1\<rparr>)"

partial_function (option) conntrack_reap_bucket ::
  "u64 \<Rightarrow> u64 \<Rightarrow> u64 \<Rightarrow> (i32 \<Rightarrow> 'w \<Rightarrow> 'w) option \<Rightarrow> conntrack_table \<Rightarrow> u64 \<Rightarrow> 'w \<Rightarrow> entry_link \<Rightarrow>
     (conntrack_table \<times> u64 \<times> 'w) option" where
  "conntrack_reap_bucket now_ns tcp_ns udp_ns on_evict ct reaped w link =
     do {
       ptr \<leftarrow> link_get ct link;
       case ptr of
         None \<Rightarrow> Some (ct, reaped, w)
       | Some e \<Rightarrow>
         if e < length (slab ct) then
           if now_ns - ce_last_seen_ns (slab ct ! e) >
              entry_timeout tcp_ns udp_ns (ce_key (slab ct ! e))
           then conntrack_reap_bucket now_ns tcp_ns udp_ns on_evict
                  (reap_unlink ct link e) (reaped + 1)
                  (case on_evict of None \<Rightarrow> w | Some f \<Rightarrow> f (ce_backend_id (slab ct ! e)) w) link
           else conntrack_reap_bucket now_ns tcp_ns udp_ns on_evict ct reaped w (Link_next e)
         else None
     }"

fun conntrack_reap_loop ::
  "nat \<Rightarrow> u64 \<Rightarrow> u64 \<Rightarrow> u64 \<Rightarrow> (i32 \<Rightarrow> 'w \<Rightarrow> 'w) option \<Rightarrow> conntrack_table \<Rightarrow> u64 \<Rightarrow> 'w \<Rightarrow>
     (conntrack_table \<times> u64 \<times> 'w) option" where
  "conntrack_reap_loop 0 now_ns tcp_ns udp_ns on_evict ct reaped w = Some (ct, reaped, w)"
| "conntrack_reap_loop (Suc n) now_ns tcp_ns udp_ns on_evict ct reaped w =
     do {
       let idx = sweep_cursor ct;
       let ct = ct\<lparr>sweep_cursor := (sweep_cursor ct + 1) mod bucket_count ct\<rparr>;
       (ct, reaped, w) \<leftarrow> conntrack_reap_bucket now_ns tcp_ns udp_ns on_evict ct reaped w
                           (Link_bucket (unat idx));
       conntrack_reap_loop n now_ns tcp_ns udp_ns on_evict ct reaped w
     }"

definition conntrack_reap_slice ::
  "conntrack_table \<Rightarrow> u64 \<Rightarrow> u64 \<Rightarrow> u64 \<Rightarrow> u64 \<Rightarrow> (i32 \<Rightarrow> 'w \<Rightarrow> 'w) option \<Rightarrow> 'w \<Rightarrow>
     (conntrack_table \<times> u64 \<times> 'w) option" where
  "conntrack_reap_slice ct now_ns tcp_ns udp_ns max_buckets_this_tick on_evict w =
     (let buckets_to_scan =
        (if max_buckets_this_tick > bucket_count ct then bucket_count ct
         else max_buckets_this_tick) in
      conntrack_reap_loop (unat buckets_to_scan) now_ns tcp_ns udp_ns on_evict ct 0 w)"

text \<open>The expiration count the timer descriptor delivers is read and ignored.\<close>

definition reaper_on_timer_fired ::
  "conntrack_table \<Rightarrow> u64 \<Rightarrow> u64 \<Rightarrow> u64 \<Rightarrow> u64 \<Rightarrow> (i32 \<Rightarrow> 'w \<Rightarrow> 'w) option \<Rightarrow> 'w \<Rightarrow>
     (conntrack_table \<times> u64 \<times> 'w) option" where
  "reaper_on_timer_fired ct now_ns tcp_ns udp_ns buckets_per_tick on_evict w =
     conntrack_reap_slice ct now_ns tcp_ns udp_ns buckets_per_tick on_evict w"

definition conntrack_bucket_count :: "conntrack_table \<Rightarrow> u64" where
  "conntrack_bucket_count ct = bucket_count ct"

definition conntrack_active_flows :: "conntrack_table \<Rightarrow> u64" where
  "conntrack_active_flows ct = active ct"

end
