(* ===== verification/Flow_Store.thy ===== *)
theory Flow_Store
  imports LB_Prelude
begin

text \<open>
  What the datapath relies on of a connection table, as an interface: a lookup that reports
  and refreshes the pinned backend, an insertion that pins a new flow or refuses, and a sweep
  that forgets only expired flows. \<open>store_packet\<close> is the part of the datapath's packet handler
  that touches the table, and \<open>store_run\<close> a history of packets and sweeps. The client theorem,
  proved once from the laws, is flow affinity. \<open>Conntrack_Inv\<close> shows the laws for the table of
  \<open>src/conntrack/conntrack.c\<close>.
\<close>

section \<open>Histories\<close>

text \<open>A packet carries the backend the routing table proposes for a flow that is not pinned.\<close>

datatype ('k, 'b, 't) store_op = Packet 'k u64 "'b option" | Sweep 't

definition store_packet ::
  "('s \<Rightarrow> 'k \<Rightarrow> u64 \<Rightarrow> ('s \<times> 'b option) option) \<Rightarrow> ('s \<Rightarrow> 'k \<Rightarrow> 'b \<Rightarrow> u64 \<Rightarrow> ('s \<times> bool) option) \<Rightarrow>
     's \<Rightarrow> 'k \<Rightarrow> u64 \<Rightarrow> 'b option \<Rightarrow> ('s \<times> 'b option) option" where
  "store_packet lookup insrt s k t proposal =
     do {
       (s, hit) \<leftarrow> lookup s k t;
       case hit of
         Some b \<Rightarrow> Some (s, Some b)
       | None \<Rightarrow>
         (case proposal of
            None \<Rightarrow> Some (s, None)
          | Some b \<Rightarrow> do {
              (s, ok) \<leftarrow> insrt s k b t;
              Some (s, if ok then Some b else None)
            })
     }"

fun store_run ::
  "('s \<Rightarrow> 'k \<Rightarrow> u64 \<Rightarrow> ('s \<times> 'b option) option) \<Rightarrow> ('s \<Rightarrow> 'k \<Rightarrow> 'b \<Rightarrow> u64 \<Rightarrow> ('s \<times> bool) option) \<Rightarrow>
     ('s \<Rightarrow> 't \<Rightarrow> ('s \<times> 'r) option) \<Rightarrow> ('k, 'b, 't) store_op list \<Rightarrow> 's \<Rightarrow>
     ('s \<times> ('k \<times> 'b option) list) option" where
  "store_run lookup insrt sweep [] s = Some (s, [])"
| "store_run lookup insrt sweep (Packet k t p # ops) s =
     do {
       (s, r) \<leftarrow> store_packet lookup insrt s k t p;
       (s, rs) \<leftarrow> store_run lookup insrt sweep ops s;
       Some (s, (k, r) # rs)
     }"
| "store_run lookup insrt sweep (Sweep e # ops) s =
     do {
       (s, _) \<leftarrow> sweep s e;
       store_run lookup insrt sweep ops s
     }"

text \<open>No sweep of the history finds the flow idle for too long: \<open>t\<close> is the time of its last
  packet so far.\<close>

fun never_expires :: "('t \<Rightarrow> 'k \<Rightarrow> 'b \<times> u64 \<Rightarrow> bool) \<Rightarrow> 'k \<Rightarrow> 'b \<Rightarrow> u64 \<Rightarrow> ('k, 'b, 't) store_op list \<Rightarrow> bool" where
  "never_expires expired k b t [] = True"
| "never_expires expired k b t (Packet k' t' p # ops) =
     never_expires expired k b (if k' = k then t' else t) ops"
| "never_expires expired k b t (Sweep e # ops) =
     (\<not> expired e k (b, t) \<and> never_expires expired k b t ops)"

section \<open>The interface\<close>

locale flow_store =
  fixes invar :: "'s \<Rightarrow> bool"
    and view :: "'s \<Rightarrow> 'k \<rightharpoonup> 'b \<times> u64"
    and lookup :: "'s \<Rightarrow> 'k \<Rightarrow> u64 \<Rightarrow> ('s \<times> 'b option) option"
    and insrt :: "'s \<Rightarrow> 'k \<Rightarrow> 'b \<Rightarrow> u64 \<Rightarrow> ('s \<times> bool) option"
    and sweep :: "'s \<Rightarrow> 't \<Rightarrow> ('s \<times> 'r) option"
    and expired :: "'t \<Rightarrow> 'k \<Rightarrow> 'b \<times> u64 \<Rightarrow> bool"
  assumes lookup_law: "invar s \<Longrightarrow>
      \<exists>s'. lookup s k t = Some (s', map_option fst (view s k)) \<and> invar s' \<and>
        view s' = (case view s k of None \<Rightarrow> view s | Some (b, _) \<Rightarrow> (view s)(k \<mapsto> (b, t)))"
    and insert_law: "invar s \<Longrightarrow> view s k = None \<Longrightarrow>
      \<exists>s' ok. insrt s k b t = Some (s', ok) \<and> invar s' \<and>
        view s' = (if ok then (view s)(k \<mapsto> (b, t)) else view s)"
    and sweep_law: "invar s \<Longrightarrow>
      \<exists>s' r. sweep s e = Some (s', r) \<and> invar s' \<and>
        (\<forall>k d. view s k = Some d \<longrightarrow> \<not> expired e k d \<longrightarrow> view s' k = Some d) \<and>
        (\<forall>k d. view s' k = Some d \<longrightarrow> view s k = Some d)"
begin

lemma packet_hit:
  assumes "invar s" "view s k = Some (b, t0)"
  shows "\<exists>s'. store_packet lookup insrt s k t p = Some (s', Some b) \<and> invar s' \<and>
    view s' = (view s)(k \<mapsto> (b, t))"
  using lookup_law [OF assms(1), of k t] assms(2) by (auto simp: store_packet_def)

lemma packet_miss:
  assumes "invar s" "view s k = None"
  shows "\<exists>s' r. store_packet lookup insrt s k t p = Some (s', r) \<and> invar s' \<and>
    (r = None \<or> r = p) \<and>
    view s' = (case r of None \<Rightarrow> view s | Some b \<Rightarrow> (view s)(k \<mapsto> (b, t)))"
proof -
  obtain s1 where s1: "lookup s k t = Some (s1, None)" "invar s1" "view s1 = view s"
    using lookup_law [OF assms(1), of k t] assms(2) by auto
  show ?thesis
  proof (cases p)
    case None
    then show ?thesis using s1 by (auto simp: store_packet_def)
  next
    case (Some b)
    obtain s2 ok where "insrt s1 k b t = Some (s2, ok)" "invar s2"
        "view s2 = (if ok then (view s1)(k \<mapsto> (b, t)) else view s1)"
      using insert_law [OF s1(2), of k b t] s1(3) assms(2) by auto
    then show ?thesis using s1 Some by (cases ok) (auto simp: store_packet_def)
  qed
qed

text \<open>A packet of one flow never changes what is stored for another.\<close>

lemma packet_other:
  assumes "invar s" "k' \<noteq> k"
  shows "\<exists>s' r. store_packet lookup insrt s k' t p = Some (s', r) \<and> invar s' \<and> view s' k = view s k"
proof (cases "view s k'")
  case None
  then show ?thesis using packet_miss [OF assms(1), of k' t p] assms(2) by (fastforce split: option.splits)
next
  case (Some d)
  then show ?thesis using packet_hit [OF assms(1), of k' "fst d" "snd d" t p] assms(2) by fastforce
qed

lemma run_total:
  assumes "invar s"
  shows "\<exists>s' rs. store_run lookup insrt sweep ops s = Some (s', rs) \<and> invar s'"
  using assms
proof (induction ops arbitrary: s)
  case (Cons op ops)
  show ?case
  proof (cases op)
    case (Packet k t p)
    have "\<exists>s' r. store_packet lookup insrt s k t p = Some (s', r) \<and> invar s'"
      using packet_miss [OF Cons.prems, of k t p] packet_hit [OF Cons.prems, of k _ _ t p]
      by (cases "view s k") auto
    then show ?thesis using Cons.IH Packet by fastforce
  next
    case (Sweep e)
    then show ?thesis using sweep_law [OF Cons.prems, of e] Cons.IH by fastforce
  qed
qed simp

text \<open>Affinity: a pinned flow that no sweep finds expired is answered with the backend it was
  pinned to, whatever the routing table proposes meanwhile.\<close>

lemma affinity:
  assumes "invar s" "view s k = Some (b, t)" "never_expires expired k b t ops"
  shows "\<exists>s' rs t'. store_run lookup insrt sweep ops s = Some (s', rs) \<and> invar s' \<and>
    view s' k = Some (b, t') \<and> (\<forall>r. (k, r) \<in> set rs \<longrightarrow> r = Some b)"
  using assms
proof (induction ops arbitrary: s t)
  case (Cons op ops)
  show ?case
  proof (cases op)
    case (Packet k' t' p)
    show ?thesis
    proof (cases "k' = k")
      case True
      obtain s1 where s1: "store_packet lookup insrt s k t' p = Some (s1, Some b)" "invar s1"
          "view s1 k = Some (b, t')"
        using packet_hit [OF Cons.prems(1,2), of t' p] by auto
      have "never_expires expired k b t' ops" using Cons.prems(3) Packet True by simp
      from Cons.IH [OF s1(2,3) this] show ?thesis using s1(1) Packet True by auto
    next
      case False
      obtain s1 r where s1: "store_packet lookup insrt s k' t' p = Some (s1, r)" "invar s1"
          "view s1 k = Some (b, t)"
        using packet_other [OF Cons.prems(1) False, of t' p] Cons.prems(2) by auto
      have "never_expires expired k b t ops" using Cons.prems(3) Packet False by simp
      from Cons.IH [OF s1(2,3) this] show ?thesis using s1(1) Packet False by auto
    qed
  next
    case (Sweep e)
    from sweep_law [OF Cons.prems(1), of e] obtain s1 r
      where s1: "sweep s e = Some (s1, r)" "invar s1"
        and keep: "\<forall>k d. view s k = Some d \<longrightarrow> \<not> expired e k d \<longrightarrow> view s1 k = Some d" by blast
    have "\<not> expired e k (b, t)" and n: "never_expires expired k b t ops"
      using Cons.prems(3) Sweep by simp_all
    then have "view s1 k = Some (b, t)" using keep Cons.prems(2) by blast
    from Cons.IH [OF s1(2) this n] show ?thesis using s1(1) Sweep by simp
  qed
qed simp

end

end
