(* ===== verification/Conntrack_Inv.thy ===== *)
theory Conntrack_Inv
  imports Conntrack Flow_Store
begin

text \<open>
  The representation invariant of the connection table and the refinement of its pointer
  operations. \<open>ct_rep\<close> says that the bucket chains and the free list partition the slab, that
  every entry sits in the bucket its key hashes to, that no key occurs twice and that the
  counters agree; \<open>ct_map\<close> abstracts the table to a finite map from flows to their backend and
  time stamp. Each operation is shown to preserve the invariant and to act on the map as its
  specification says.
\<close>

section \<open>Chains\<close>

text \<open>\<open>chain es p xs\<close>: following \<open>next\<close> from \<open>p\<close> visits exactly the slab indices \<open>xs\<close> and ends.\<close>

fun chain :: "conntrack_entry list \<Rightarrow> entry_ptr \<Rightarrow> nat list \<Rightarrow> bool" where
  "chain es p [] \<longleftrightarrow> p = None"
| "chain es p (i # is) \<longleftrightarrow> p = Some i \<and> i < length es \<and> chain es (ce_next (es ! i)) is"

lemma chain_bounds: "chain es p xs \<Longrightarrow> set xs \<subseteq> {..<length es}"
  by (induction xs arbitrary: p) auto

lemma chain_frame [simp]: "i \<notin> set xs \<Longrightarrow> chain (es[i := e]) p xs \<longleftrightarrow> chain es p xs"
  by (induction xs arbitrary: p) auto

lemma chain_same_next:
  "ce_next e = ce_next (es ! i) \<Longrightarrow> chain (es[i := e]) p xs \<longleftrightarrow> chain es p xs"
proof (induction xs arbitrary: p)
  case (Cons j xs)
  then show ?case by (cases "i = j"; cases "j < length es") simp_all
qed simp

lemma chain_append:
  "chain es p (xs @ y # ys) \<Longrightarrow>
   y < length es \<and> chain es (ce_next (es ! y)) ys \<and>
   (if xs = [] then p = Some y else ce_next (es ! last xs) = Some y \<and> last xs < length es)"
proof (induction xs arbitrary: p)
  case (Cons x xs)
  then have x: "x < length es" "chain es (ce_next (es ! x)) (xs @ y # ys)" by simp_all
  from Cons.IH [OF x(2)] x(1) show ?case by (cases "xs = []") simp_all
qed simp

lemma chain_unlink:
  assumes "chain es p (xs @ y # ys)" "distinct (xs @ y # ys)" "xs \<noteq> []"
  shows "chain (es[last xs := (es ! last xs)\<lparr>ce_next := ce_next (es ! y)\<rparr>]) p (xs @ ys)"
  using assms
proof (induction xs arbitrary: p)
  case (Cons x xs)
  show ?case
  proof (cases "xs = []")
    case True
    with Cons.prems show ?thesis by auto
  next
    case False
    then have "last xs \<noteq> x" using Cons.prems(2) by auto
    with Cons False show ?thesis by auto
  qed
qed simp

lemma conntrack_find_chain:
  "chain es p xs \<Longrightarrow> conntrack_find es key p = Some (find (\<lambda>i. ce_key (es ! i) = key) xs)"
proof (induction xs arbitrary: p)
  case Nil
  then show ?case by (subst conntrack_find.simps) simp
next
  case (Cons i xs)
  then show ?case by (subst conntrack_find.simps) (auto simp: flow_key_bytes_inject)
qed

text \<open>An executable walk; on a chain it returns the chain.\<close>

fun walk :: "nat \<Rightarrow> conntrack_entry list \<Rightarrow> entry_ptr \<Rightarrow> nat list" where
  "walk 0 es p = []"
| "walk (Suc n) es None = []"
| "walk (Suc n) es (Some i) = (if i < length es then i # walk n es (ce_next (es ! i)) else [])"

lemma walk_chain: "chain es p xs \<Longrightarrow> length xs \<le> n \<Longrightarrow> walk n es p = xs"
proof (induction xs arbitrary: p n)
  case Nil
  then show ?case by (cases n) auto
next
  case (Cons i xs)
  then show ?case by (cases n) auto
qed

section \<open>Partitions of the slab\<close>

lemma concat_update:
  "b < length xss \<Longrightarrow>
   mset (concat (xss[b := zs])) + mset (xss ! b) = mset (concat xss) + mset zs"
  by (induction xss arbitrary: b) (auto split: nat.splits)

lemma concat_nth_subset: "b < length xss \<Longrightarrow> set (xss ! b) \<subseteq> set (concat xss)"
  using nth_mem by fastforce

lemma distinct_concat_nth:
  "distinct (concat xss) \<Longrightarrow> b < length xss \<Longrightarrow> distinct (xss ! b)"
  by (induction xss arbitrary: b) (auto simp: nth_Cons split: nat.splits)

lemma distinct_concat_disjoint:
  "distinct (concat xss) \<Longrightarrow> a < length xss \<Longrightarrow> b < length xss \<Longrightarrow> a \<noteq> b \<Longrightarrow>
   set (xss ! a) \<inter> set (xss ! b) = {}"
proof (induction xss arbitrary: a b)
  case (Cons xs xss)
  show ?case
  proof (cases a)
    case 0
    with Cons.prems obtain b' where "b = Suc b'" "b' < length xss" by (cases b) auto
    then have "set (xss ! b') \<subseteq> set (concat xss)" by (intro concat_nth_subset)
    with Cons.prems 0 \<open>b = Suc b'\<close> show ?thesis by auto
  next
    case (Suc a')
    note a = this
    show ?thesis
    proof (cases b)
      case 0
      have "set (xss ! a') \<subseteq> set (concat xss)" using Cons.prems a by (intro concat_nth_subset) simp
      with Cons.prems 0 a show ?thesis by auto
    next
      case (Suc b')
      with a Cons show ?thesis by auto
    qed
  qed
qed simp

section \<open>The invariant\<close>

definition ce_data :: "conntrack_entry \<Rightarrow> flow_key \<times> i32 \<times> u64" where
  "ce_data e = (ce_key e, ce_backend_id e, ce_last_seen_ns e)"

definition ct_rep :: "xxh64 \<Rightarrow> conntrack_table \<Rightarrow> nat list list \<Rightarrow> nat list \<Rightarrow> bool" where
  "ct_rep xxh ct cs free \<longleftrightarrow>
     (\<exists>k \<in> {..<64}. bucket_count ct = 2 ^ k) \<and>
     length (buckets ct) = unat (bucket_count ct) \<and> length cs = unat (bucket_count ct) \<and>
     (\<forall>b < length cs. chain (slab ct) (buckets ct ! b) (cs ! b)) \<and>
     chain (slab ct) (free_list ct) free \<and>
     mset (free @ concat cs) = mset [0..<length (slab ct)] \<and>
     (\<forall>b < length cs. \<forall>i \<in> set (cs ! b). bucket_idx xxh ct (ce_key (slab ct ! i)) = b) \<and>
     distinct (map (\<lambda>i. ce_key (slab ct ! i)) (concat cs)) \<and>
     unat (active ct) = length (concat cs) \<and>
     unat (sweep_cursor ct) < unat (bucket_count ct) \<and>
     length (slab ct) < 2 ^ 64"

lemma ct_repD:
  assumes "ct_rep xxh ct cs free"
  shows "distinct (free @ concat cs)"
    and "set free \<inter> set (concat cs) = {}"
    and "\<And>b. b < length cs \<Longrightarrow> distinct (cs ! b)"
    and "\<And>a b. a < length cs \<Longrightarrow> b < length cs \<Longrightarrow> a \<noteq> b \<Longrightarrow>
           set (cs ! a) \<inter> set (cs ! b) = {}"
    and "length cs = unat (bucket_count ct)" "length (buckets ct) = length cs"
    and "\<And>b. b < length cs \<Longrightarrow> chain (slab ct) (buckets ct ! b) (cs ! b)"
    and "chain (slab ct) (free_list ct) free"
    and "length free + length (concat cs) = length (slab ct)"
proof -
  have m: "mset (free @ concat cs) = mset [0..<length (slab ct)]"
    using assms by (simp add: ct_rep_def)
  show d: "distinct (free @ concat cs)"
    using m by (metis distinct_upt mset_eq_imp_distinct_iff)
  then show "set free \<inter> set (concat cs) = {}" by simp
  show "b < length cs \<Longrightarrow> distinct (cs ! b)" for b
    using d by (intro distinct_concat_nth) simp_all
  show "a < length cs \<Longrightarrow> b < length cs \<Longrightarrow> a \<noteq> b \<Longrightarrow>
      set (cs ! a) \<inter> set (cs ! b) = {}" for a b
    using d by (intro distinct_concat_disjoint) simp_all
  show "length cs = unat (bucket_count ct)" "length (buckets ct) = length cs"
    "\<And>b. b < length cs \<Longrightarrow> chain (slab ct) (buckets ct ! b) (cs ! b)"
    "chain (slab ct) (free_list ct) free"
    using assms by (simp_all add: ct_rep_def)
  show "length free + length (concat cs) = length (slab ct)"
    using arg_cong [OF m, of size] by simp
qed

text \<open>The abstraction is computed from the pointers alone.\<close>

definition ct_chains :: "conntrack_table \<Rightarrow> nat list list" where
  "ct_chains ct = map (walk (length (slab ct)) (slab ct)) (buckets ct)"

definition ct_free :: "conntrack_table \<Rightarrow> nat list" where
  "ct_free ct = walk (length (slab ct)) (slab ct) (free_list ct)"

definition ct_inv :: "xxh64 \<Rightarrow> conntrack_table \<Rightarrow> bool" where
  "ct_inv xxh ct \<longleftrightarrow> ct_rep xxh ct (ct_chains ct) (ct_free ct)"

definition ct_flows :: "conntrack_table \<Rightarrow> (flow_key \<times> i32 \<times> u64) list" where
  "ct_flows ct = map (\<lambda>i. ce_data (slab ct ! i)) (concat (ct_chains ct))"

definition ct_map :: "conntrack_table \<Rightarrow> flow_key \<rightharpoonup> i32 \<times> u64" where
  "ct_map ct = map_of (ct_flows ct)"

lemma ct_rep_unique:
  assumes "ct_rep xxh ct cs free"
  shows "ct_chains ct = cs" "ct_free ct = free"
proof -
  note R = ct_repD [OF assms]
  have "length (cs ! b) \<le> length (slab ct)" if "b < length cs" for b
  proof -
    have "length (cs ! b) = card (set (cs ! b))"
      using R(3) [OF that] by (simp add: distinct_card)
    also have "\<dots> \<le> card {..<length (slab ct)}"
      using chain_bounds [OF R(7) [OF that]] by (intro card_mono) auto
    finally show ?thesis by simp
  qed
  then have "walk (length (slab ct)) (slab ct) (buckets ct ! b) = cs ! b" if "b < length cs" for b
    using R(7) that by (intro walk_chain) simp_all
  then show "ct_chains ct = cs"
    using R(6) by (intro nth_equalityI) (simp_all add: ct_chains_def)
  show "ct_free ct = free"
    using R(8,9) by (simp add: ct_free_def walk_chain)
qed

lemma ct_inv_iff: "ct_inv xxh ct \<longleftrightarrow> (\<exists>cs free. ct_rep xxh ct cs free)"
  unfolding ct_inv_def using ct_rep_unique by blast

lemma ct_rep_flows:
  "ct_rep xxh ct cs free \<Longrightarrow> ct_flows ct = map (\<lambda>i. ce_data (slab ct ! i)) (concat cs)"
  by (simp add: ct_flows_def ct_rep_unique)

lemma ct_rep_distinct_flows:
  assumes "ct_rep xxh ct cs free"
  shows "distinct (map fst (ct_flows ct))"
proof -
  have "map fst (ct_flows ct) = map (\<lambda>i. ce_key (slab ct ! i)) (concat cs)"
    using assms by (simp add: ct_rep_flows ce_data_def comp_def)
  then show ?thesis using assms by (simp add: ct_rep_def)
qed

lemma ct_rep_lookup_iff:
  assumes "ct_rep xxh ct cs free"
  shows "ct_map ct key = Some d \<longleftrightarrow> (\<exists>i \<in> set (concat cs). ce_data (slab ct ! i) = (key, d))"
proof -
  have "ct_map ct key = Some d \<longleftrightarrow> (key, d) \<in> set (ct_flows ct)"
    unfolding ct_map_def using ct_rep_distinct_flows [OF assms] by simp
  also have "\<dots> \<longleftrightarrow> (\<exists>i \<in> set (concat cs). ce_data (slab ct ! i) = (key, d))"
    unfolding ct_rep_flows [OF assms] set_map image_iff by metis
  finally show ?thesis .
qed

section \<open>Buckets\<close>

lemma option_eq_Some_iffI: "(\<And>d. x = Some d \<longleftrightarrow> y = Some d) \<Longrightarrow> x = y"
  by (cases x; cases y) auto

lemma unat_pow2_u64: "k < 64 \<Longrightarrow> unat (2 ^ k :: u64) = 2 ^ k"
proof -
  assume "k < 64"
  then have "(2 :: nat) ^ k < 2 ^ 64" by (intro power_strict_increasing) simp_all
  moreover have "unat (2 ^ k :: u64) = unat (word_of_nat (2 ^ k) :: u64)" by simp
  ultimately show ?thesis by (simp only: unat_of_nat) simp
qed

lemma ct_rep_pow2:
  assumes "ct_rep xxh ct cs free"
  obtains k where "k < 64" "bucket_count ct = 2 ^ k" "unat (bucket_count ct) = 2 ^ k"
proof -
  obtain k where "k < 64" "bucket_count ct = 2 ^ k" using assms by (auto simp: ct_rep_def)
  with that unat_pow2_u64 show thesis by metis
qed

lemma bucket_idx_mod:
  assumes "bucket_count ct = 2 ^ k" "k < 64"
  shows "bucket_idx xxh ct key = unat (flow_hash xxh key) mod 2 ^ k"
proof -
  have "flow_hash xxh key AND (bucket_count ct - 1) = take_bit k (flow_hash xxh key)"
    using assms(1) by (simp add: take_bit_eq_mask mask_eq_exp_minus_1)
  moreover have "unat (take_bit k (flow_hash xxh key)) = unat (flow_hash xxh key) mod 2 ^ k"
    by (simp only: take_bit_eq_mod unat_mod_distrib unat_pow2_u64 [OF assms(2)])
  ultimately show ?thesis by (simp only: bucket_idx_def)
qed

lemma bucket_idx_less:
  assumes "ct_rep xxh ct cs free"
  shows "bucket_idx xxh ct key < length cs"
proof -
  obtain k where "k < 64" "bucket_count ct = 2 ^ k" "unat (bucket_count ct) = 2 ^ k"
    using assms by (rule ct_rep_pow2)
  then show ?thesis using ct_repD(5) [OF assms] by (simp add: bucket_idx_mod)
qed

lemma bucket_idx_cong:
  "bucket_count ct' = bucket_count ct \<Longrightarrow> bucket_idx xxh ct' = bucket_idx xxh ct"
  by (simp add: bucket_idx_def fun_eq_iff)

lemma ct_rep_key_inj:
  assumes "ct_rep xxh ct cs free" "i \<in> set (concat cs)" "j \<in> set (concat cs)"
    "ce_key (slab ct ! i) = ce_key (slab ct ! j)"
  shows "i = j"
proof -
  have "inj_on (\<lambda>i. ce_key (slab ct ! i)) (set (concat cs))"
    using assms(1) by (simp only: ct_rep_def distinct_map)
  then show ?thesis using assms(2-4) by (auto dest: inj_onD)
qed

lemma ct_rep_member:
  assumes "ct_rep xxh ct cs free" "i \<in> set (concat cs)"
  shows "i \<in> set (cs ! bucket_idx xxh ct (ce_key (slab ct ! i)))" "i < length (slab ct)"
proof -
  obtain b where b: "b < length cs" "i \<in> set (cs ! b)"
    using assms(2) by (auto simp: in_set_conv_nth [of _ cs])
  then have "bucket_idx xxh ct (ce_key (slab ct ! i)) = b"
    using assms(1) by (auto simp: ct_rep_def)
  with b show "i \<in> set (cs ! bucket_idx xxh ct (ce_key (slab ct ! i)))" by simp
  show "i < length (slab ct)"
    using chain_bounds [OF ct_repD(7) [OF assms(1) b(1)]] b(2) by auto
qed

section \<open>Lookup\<close>

lemma ct_map_key:
  assumes "ct_rep xxh ct cs free" "i \<in> set (concat cs)"
  shows "ct_map ct (ce_key (slab ct ! i)) = Some (ce_backend_id (slab ct ! i), ce_last_seen_ns (slab ct ! i))"
  using assms by (auto simp: ct_rep_lookup_iff [OF assms(1)] ce_data_def)

lemma ct_find_Some:
  assumes R: "ct_rep xxh ct cs free"
    and f: "find (\<lambda>i. ce_key (slab ct ! i) = key) (cs ! bucket_idx xxh ct key) = Some p"
  shows "p \<in> set (concat cs)" "ce_key (slab ct ! p) = key"
  using f concat_nth_subset [OF bucket_idx_less [OF R, of key]]
  by (auto simp: find_Some_iff dest!: nth_mem)

lemma ct_find_None:
  assumes R: "ct_rep xxh ct cs free"
    and f: "find (\<lambda>i. ce_key (slab ct ! i) = key) (cs ! bucket_idx xxh ct key) = None"
  shows "ct_map ct key = None"
proof (rule ccontr)
  assume "ct_map ct key \<noteq> None"
  then obtain i where "i \<in> set (concat cs)" "ce_key (slab ct ! i) = key"
    using ct_rep_lookup_iff [OF R, of key] by (auto simp: ce_data_def)
  with ct_rep_member(1) [OF R] f show False by (auto simp: find_None_iff)
qed

lemma ct_rep_touch:
  fixes now :: u64
  assumes R: "ct_rep xxh ct cs free" and p: "p \<in> set (concat cs)"
  defines "ct' \<equiv> ct\<lparr>slab := (slab ct)[p := (slab ct ! p)\<lparr>ce_last_seen_ns := now\<rparr>]\<rparr>"
  shows "ct_rep xxh ct' cs free"
    and "ct_map ct' = (ct_map ct)(ce_key (slab ct ! p) \<mapsto> (ce_backend_id (slab ct ! p), now))"
proof -
  have pl: "p < length (slab ct)" using ct_rep_member [OF R p] by simp
  have key: "ce_key (slab ct' ! i) = ce_key (slab ct ! i)" for i
    by (cases "i = p") (use pl in \<open>simp_all add: ct'_def\<close>)
  have ch: "chain (slab ct') q xs \<longleftrightarrow> chain (slab ct) q xs" for q xs
    by (simp add: ct'_def chain_same_next)
  have "bucket_idx xxh ct' = bucket_idx xxh ct" by (intro bucket_idx_cong) (simp add: ct'_def)
  then show R': "ct_rep xxh ct' cs free"
    using R unfolding ct_rep_def key ch by (simp add: ct'_def)
  have data: "ce_data (slab ct' ! i) =
      (if i = p then (ce_key (slab ct ! p), ce_backend_id (slab ct ! p), now) else ce_data (slab ct ! i))" for i
    using pl by (simp add: ct'_def ce_data_def)
  show "ct_map ct' = (ct_map ct)(ce_key (slab ct ! p) \<mapsto> (ce_backend_id (slab ct ! p), now))"
  proof
    fix k
    show "ct_map ct' k = ((ct_map ct)(ce_key (slab ct ! p) \<mapsto> (ce_backend_id (slab ct ! p), now))) k"
    proof (cases "k = ce_key (slab ct ! p)")
      case True
      then show ?thesis using ct_map_key [OF R' p] pl by (simp add: ct'_def)
    next
      case False
      have "ct_map ct' k = Some d \<longleftrightarrow> ct_map ct k = Some d" for d
        unfolding ct_rep_lookup_iff [OF R'] ct_rep_lookup_iff [OF R] data
        using False by (auto simp: ce_data_def)
      then have "ct_map ct' k = ct_map ct k" by (rule option_eq_Some_iffI)
      with False show ?thesis by simp
    qed
  qed
qed

lemma conntrack_lookup_spec:
  assumes R: "ct_rep xxh ct cs free"
  shows "\<exists>ct'. conntrack_lookup xxh ct key now = Some (ct', map_option fst (ct_map ct key)) \<and>
    ct_rep xxh ct' cs free \<and>
    ct_map ct' = (case ct_map ct key of None \<Rightarrow> ct_map ct | Some (b, t) \<Rightarrow> (ct_map ct)(key \<mapsto> (b, now))) \<and>
    sweep_cursor ct' = sweep_cursor ct \<and> bucket_count ct' = bucket_count ct \<and>
    length (slab ct') = length (slab ct)"
proof -
  let ?b = "bucket_idx xxh ct key"
  have b: "?b < length cs" by (rule bucket_idx_less [OF R])
  have f: "conntrack_find (slab ct) key (buckets ct ! ?b) =
      Some (find (\<lambda>i. ce_key (slab ct ! i) = key) (cs ! ?b))"
    by (rule conntrack_find_chain [OF ct_repD(7) [OF R b]])
  show ?thesis
  proof (cases "find (\<lambda>i. ce_key (slab ct ! i) = key) (cs ! ?b)")
    case None
    then show ?thesis
      using f b ct_find_None [OF R None] R ct_repD(6) [OF R] by (simp add: conntrack_lookup_def Let_def)
  next
    case (Some p)
    note p = ct_find_Some [OF R Some]
    show ?thesis
      using f b Some p(2) ct_map_key [OF R p(1)] ct_rep_touch [OF R p(1), of now] ct_repD(6) [OF R]
      by (simp add: conntrack_lookup_def Let_def)
  qed
qed

section \<open>Insertion\<close>

lemma concat_insert:
  assumes "b < length xss"
  shows "mset (concat (xss[b := y # xss ! b])) = add_mset y (mset (concat xss))"
  using concat_update [OF assms, of "y # xss ! b"] by simp

lemma concat_remove:
  assumes "b < length xss" "xss ! b = xs @ y # ys"
  shows "mset (concat xss) = add_mset y (mset (concat (xss[b := xs @ ys])))"
  using concat_update [OF assms(1), of "xs @ ys"] assms(2) by simp

lemma distinct_map_mset:
  assumes "mset xs = mset ys"
  shows "distinct (map f xs) \<longleftrightarrow> distinct (map f ys)"
proof -
  have "mset (map f xs) = mset (map f ys)" using assms by simp
  then show ?thesis by (rule mset_eq_imp_distinct_iff)
qed

lemma conntrack_insert_full:
  assumes "ct_rep xxh ct cs []"
  shows "conntrack_insert xxh ct key b now = Some (ct, False)"
  using ct_repD(8) [OF assms] by (simp add: conntrack_insert_def)

lemma conntrack_insert_spec:
  assumes R: "ct_rep xxh ct cs (e # fs)" and new: "ct_map ct key = None"
  defines "idx \<equiv> bucket_idx xxh ct key"
  shows "\<exists>ct'. conntrack_insert xxh ct key b now = Some (ct', True) \<and>
    ct_rep xxh ct' (cs[idx := e # cs ! idx]) fs \<and>
    ct_map ct' = (ct_map ct)(key \<mapsto> (b, now)) \<and>
    sweep_cursor ct' = sweep_cursor ct \<and> bucket_count ct' = bucket_count ct \<and>
    length (slab ct') = length (slab ct)"
proof -
  let ?cs = "cs[idx := e # cs ! idx]"
  let ?new = "\<lparr>ce_key = key, ce_backend_id = b, ce_last_seen_ns = now, ce_next = buckets ct ! idx\<rparr>"
  define ct' where "ct' = ct\<lparr>free_list := ce_next (slab ct ! e), slab := (slab ct)[e := ?new],
      buckets := (buckets ct)[idx := Some e], active := active ct + 1\<rparr>"
  note D = ct_repD [OF R]
  have idx: "idx < length cs" using bucket_idx_less [OF R] by (simp add: idx_def)
  have e: "e < length (slab ct)" "free_list ct = Some e" "chain (slab ct) (ce_next (slab ct ! e)) fs"
    using D(8) by simp_all
  have fresh: "e \<notin> set (concat cs)" "e \<notin> set fs" using D(1) by auto
  then have fresh_b: "e \<notin> set (cs ! c)" if "c < length cs" for c
    using concat_nth_subset [OF that] by auto
  have op: "conntrack_insert xxh ct key b now = Some (ct', True)"
    using e idx D(6) by (simp add: conntrack_insert_def ct'_def idx_def [symmetric] Let_def)
  have m: "mset (concat ?cs) = add_mset e (mset (concat cs))" by (rule concat_insert [OF idx])
  have set': "set (concat ?cs) = insert e (set (concat cs))"
    using arg_cong [OF m, of set_mset] by (simp only: set_mset_mset set_mset_add_mset_insert)
  have key: "ce_key (slab ct' ! i) = (if i = e then key else ce_key (slab ct ! i))" for i
    using e by (simp add: ct'_def)
  have data: "ce_data (slab ct' ! i) = (if i = e then (key, b, now) else ce_data (slab ct ! i))" for i
    using e by (simp add: ct'_def ce_data_def)
  have chains: "chain (slab ct') (buckets ct' ! c) (?cs ! c)" if c: "c < length cs" for c
  proof (cases "c = idx")
    case True
    then show ?thesis using idx D(6,7) e fresh_b by (simp add: ct'_def)
  next
    case False
    then show ?thesis using c D(6,7) fresh_b by (simp add: ct'_def)
  qed
  have bidx: "bucket_idx xxh ct' = bucket_idx xxh ct" by (intro bucket_idx_cong) (simp add: ct'_def)
  have hash: "bucket_idx xxh ct' (ce_key (slab ct' ! i)) = c" if "c < length cs" "i \<in> set (?cs ! c)" for c i
    using that R idx fresh_b [OF that(1)] unfolding bidx key
    by (cases "c = idx") (auto simp: idx_def ct_rep_def)
  have nokey: "key \<notin> (\<lambda>i. ce_key (slab ct ! i)) ` set (concat cs)"
    using new ct_map_key [OF R] by (metis (no_types, lifting) imageE option.distinct(1))
  have "distinct (map (\<lambda>i. ce_key (slab ct' ! i)) (e # concat cs))"
  proof -
    have "map (\<lambda>i. ce_key (slab ct' ! i)) (concat cs) = map (\<lambda>i. ce_key (slab ct ! i)) (concat cs)"
      using fresh(1) by (intro map_cong) (auto simp: key)
    moreover have "distinct (map (\<lambda>i. ce_key (slab ct ! i)) (concat cs))"
      using R by (simp add: ct_rep_def)
    ultimately show ?thesis using nokey by (simp only: list.map distinct.simps set_map key) simp
  qed
  then have keys: "distinct (map (\<lambda>i. ce_key (slab ct' ! i)) (concat ?cs))"
    using m by (subst distinct_map_mset [of _ "e # concat cs"]) simp_all
  have part: "mset (fs @ concat ?cs) = mset [0..<length (slab ct')]"
    using R m by (simp add: ct_rep_def ct'_def)
  have len: "length (concat ?cs) = Suc (length (concat cs))"
    using arg_cong [OF m, of size] by simp
  have act: "unat (active ct') = length (concat ?cs)"
  proof -
    have "unat (active ct) = length (concat cs)" "length (slab ct) < 2 ^ 64"
      using R by (simp_all add: ct_rep_def)
    then show ?thesis
      using D(9) unfolding len by (simp add: ct'_def unat_word_ariths)
  qed
  have R': "ct_rep xxh ct' ?cs fs"
    unfolding ct_rep_def
    using R chains hash keys part act e(3) fresh(2) by (simp add: ct_rep_def ct'_def)
  have "ct_map ct' k = ((ct_map ct)(key \<mapsto> (b, now))) k" for k
  proof (cases "k = key")
    case True
    have "e \<in> set (concat ?cs)" unfolding set' by simp
    moreover have "slab ct' ! e = ?new" using e by (simp add: ct'_def)
    ultimately show ?thesis using ct_map_key [OF R', of e] True by simp
  next
    case False
    have "ct_map ct' k = Some d \<longleftrightarrow> ct_map ct k = Some d" for d
      unfolding ct_rep_lookup_iff [OF R'] ct_rep_lookup_iff [OF R] data set'
      using False fresh(1) by (auto simp del: set_concat split: if_splits intro: bexI [rotated])
    then have "ct_map ct' k = ct_map ct k" by (rule option_eq_Some_iffI)
    with False show ?thesis by simp
  qed
  then have "ct_map ct' = (ct_map ct)(key \<mapsto> (b, now))" by (rule ext)
  with op R' show ?thesis by (simp add: ct'_def)
qed


section \<open>Reaping\<close>

text \<open>The link that points at the entry after the kept prefix \<open>xs\<close> of bucket \<open>b\<close>.\<close>

definition link_at :: "nat \<Rightarrow> nat list \<Rightarrow> entry_link" where
  "link_at b xs = (if xs = [] then Link_bucket b else Link_next (last xs))"

lemma link_get_at:
  assumes R: "ct_rep xxh ct cs free" and b: "b < length cs" "cs ! b = xs @ ys"
  shows "link_get ct (link_at b xs) = Some (case ys of [] \<Rightarrow> None | y # _ \<Rightarrow> Some y)"
proof -
  have ch: "chain (slab ct) (buckets ct ! b) (xs @ ys)" using ct_repD(7) [OF R b(1)] b(2) by simp
  show ?thesis
  proof (cases ys)
    case (Cons y ys')
    with chain_append [of "slab ct" "buckets ct ! b" xs y ys'] ch b(1) ct_repD(6) [OF R]
    show ?thesis by (auto simp: link_at_def split: if_splits)
  next
    case Nil
    show ?thesis
    proof (cases xs rule: rev_cases)
      case Nil
      with ch \<open>ys = []\<close> b(1) ct_repD(6) [OF R] show ?thesis by (simp add: link_at_def)
    next
      case (snoc xs' x)
      with chain_append [of "slab ct" "buckets ct ! b" xs' x "[]"] ch \<open>ys = []\<close>
      show ?thesis by (simp add: link_at_def)
    qed
  qed
qed

lemma map_ce_data_next [simp]:
  "map ce_data (es[i := (es ! i)\<lparr>ce_next := q\<rparr>]) = map ce_data es"
proof (cases "i < length es")
  case True
  then have "ce_data ((es ! i)\<lparr>ce_next := q\<rparr>) = map ce_data es ! i" by (simp add: ce_data_def)
  then show ?thesis by (simp only: map_update list_update_id)
qed (simp add: list_update_beyond)

lemma reap_unlink_data:
  "map ce_data (slab (reap_unlink ct link e)) = map ce_data (slab ct)"
  by (cases link) (simp_all add: reap_unlink_def Let_def)

lemma reap_unlink_simps [simp]:
  "bucket_count (reap_unlink ct link e) = bucket_count ct"
  "sweep_cursor (reap_unlink ct link e) = sweep_cursor ct"
  "free_list (reap_unlink ct link e) = Some e"
  "active (reap_unlink ct link e) = active ct - 1"
  "length (slab (reap_unlink ct link e)) = length (slab ct)"
  "length (buckets (reap_unlink ct link e)) = length (buckets ct)"
  by (cases link; simp add: reap_unlink_def Let_def)+

lemma same_data_key:
  assumes "map ce_data (slab ct') = map ce_data (slab ct)" "i < length (slab ct)"
  shows "ce_data (slab ct' ! i) = ce_data (slab ct ! i)" "ce_key (slab ct' ! i) = ce_key (slab ct ! i)"
    "ce_backend_id (slab ct' ! i) = ce_backend_id (slab ct ! i)"
    "ce_last_seen_ns (slab ct' ! i) = ce_last_seen_ns (slab ct ! i)"
proof -
  have "length (slab ct') = length (slab ct)" using assms(1) by (rule map_eq_imp_length_eq)
  then show "ce_data (slab ct' ! i) = ce_data (slab ct ! i)"
    using assms nth_map [of i "slab ct" ce_data] nth_map [of i "slab ct'" ce_data] by simp
  then show "ce_key (slab ct' ! i) = ce_key (slab ct ! i)"
    "ce_backend_id (slab ct' ! i) = ce_backend_id (slab ct ! i)"
    "ce_last_seen_ns (slab ct' ! i) = ce_last_seen_ns (slab ct ! i)"
    by (simp_all add: ce_data_def)
qed

lemma reap_unlink_chains:
  assumes R: "ct_rep xxh ct cs free" and b: "b < length cs" "cs ! b = xs @ y # ys"
  defines "ct' \<equiv> reap_unlink ct (link_at b xs) y"
  shows "chain (slab ct') (Some y) (y # free)"
    and "\<And>c. c < length cs \<Longrightarrow> chain (slab ct') (buckets ct' ! c) (cs[b := xs @ ys] ! c)"
proof -
  note D = ct_repD [OF R]
  have ch: "chain (slab ct) (buckets ct ! b) (xs @ y # ys)" using D(7) [OF b(1)] b(2) by simp
  have d: "distinct (xs @ y # ys)" using D(3) [OF b(1)] b(2) by simp
  have y: "y < length (slab ct)" using chain_append [OF ch] by simp
  have "set (xs @ y # ys) \<subseteq> set (concat cs)" using concat_nth_subset [OF b(1)] b(2) by simp
  then have yf: "y \<notin> set free" and xf: "set xs \<inter> set free = {}" using D(2) by auto
  have other: "set (cs ! c) \<inter> set (xs @ y # ys) = {}" if "c < length cs" "c \<noteq> b" for c
    using D(4) [OF that(1) b(1) that(2)] b(2) by simp
  show "chain (slab ct') (Some y) (y # free)"
  proof (cases "xs = []")
    case True
    then show ?thesis using y yf D(8) by (simp add: ct'_def reap_unlink_def link_at_def Let_def)
  next
    case False
    then have "last xs \<notin> set free" using xf by (meson disjoint_iff last_in_set)
    with False show ?thesis using y yf D(8) by (simp add: ct'_def reap_unlink_def link_at_def Let_def)
  qed
  fix c assume c: "c < length cs"
  show "chain (slab ct') (buckets ct' ! c) (cs[b := xs @ ys] ! c)"
  proof (cases "c = b")
    case True
    show ?thesis
    proof (cases "xs = []")
      case True
      with \<open>c = b\<close> show ?thesis
        using b D(6) d chain_append [OF ch] by (simp add: ct'_def reap_unlink_def link_at_def Let_def)
    next
      case False
      with \<open>c = b\<close> show ?thesis
        using b D(6) d chain_unlink [OF ch d False]
        by (simp add: ct'_def reap_unlink_def link_at_def Let_def)
    qed
  next
    case False
    note o = other [OF c False]
    then have "y \<notin> set (cs ! c)" "xs \<noteq> [] \<Longrightarrow> last xs \<notin> set (cs ! c)"
      by (auto dest: last_in_set)
    with False show ?thesis
      using c D(7) [OF c] by (cases "xs = []") (simp_all add: ct'_def reap_unlink_def link_at_def Let_def)
  qed
qed

lemma reap_unlink_rep:
  assumes R: "ct_rep xxh ct cs free" and b: "b < length cs" "cs ! b = xs @ y # ys"
  defines "ct' \<equiv> reap_unlink ct (link_at b xs) y"
  shows "ct_rep xxh ct' (cs[b := xs @ ys]) (y # free)"
proof -
  let ?cs = "cs[b := xs @ ys]"
  note D = ct_repD [OF R]
  have m: "mset (concat cs) = add_mset y (mset (concat ?cs))" by (rule concat_remove [OF b])
  have set': "set (concat cs) = insert y (set (concat ?cs))"
    using arg_cong [OF m, of set_mset] by (simp only: set_mset_mset set_mset_add_mset_insert)
  have y: "y \<in> set (concat cs)" unfolding set' by simp
  have dat: "map ce_data (slab ct') = map ce_data (slab ct)"
    unfolding ct'_def by (rule reap_unlink_data)
  have key: "ce_key (slab ct' ! i) = ce_key (slab ct ! i)" if "i \<in> set (concat cs)" for i
    using same_data_key(2) [OF dat] ct_rep_member(2) [OF R that] .
  have bidx: "bucket_idx xxh ct' = bucket_idx xxh ct" by (intro bucket_idx_cong) (simp add: ct'_def)
  have hash: "bucket_idx xxh ct' (ce_key (slab ct' ! i)) = c" if c: "c < length cs" "i \<in> set (?cs ! c)" for c i
  proof -
    have i: "i \<in> set (cs ! c)" using c b by (cases "c = b") auto
    then have "i \<in> set (concat cs)" using concat_nth_subset [OF c(1)] by auto
    then show ?thesis using i c(1) R by (simp add: bidx key ct_rep_def)
  qed
  have "distinct (map (\<lambda>i. ce_key (slab ct ! i)) (y # concat ?cs))"
    using R m by (subst distinct_map_mset [of _ "concat cs"]) (simp_all add: ct_rep_def)
  then have "distinct (map (\<lambda>i. ce_key (slab ct ! i)) (concat ?cs))" by simp
  moreover have "map (\<lambda>i. ce_key (slab ct' ! i)) (concat ?cs) = map (\<lambda>i. ce_key (slab ct ! i)) (concat ?cs)"
    using set' by (intro map_cong) (auto intro!: key simp del: set_concat)
  ultimately have keys: "distinct (map (\<lambda>i. ce_key (slab ct' ! i)) (concat ?cs))" by (simp only:)
  have len: "length (concat cs) = Suc (length (concat ?cs))"
    using arg_cong [OF m, of size] by simp
  then have "unat (active ct) = Suc (length (concat ?cs))" using R by (simp add: ct_rep_def)
  then have act: "unat (active ct') = length (concat ?cs)"
    by (simp add: ct'_def unat_sub_if_size)
  have part: "mset ((y # free) @ concat ?cs) = mset [0..<length (slab ct')]"
    using R m by (simp add: ct_rep_def ct'_def)
  show ?thesis
    unfolding ct_rep_def
    using R reap_unlink_chains [OF R b, folded ct'_def] hash keys act part
    by (simp add: ct_rep_def) (simp add: ct'_def)
qed

text \<open>When a flow is idle for too long, in 64-bit arithmetic, and the callbacks of a sweep.\<close>

definition flow_expired :: "u64 \<Rightarrow> u64 \<Rightarrow> u64 \<Rightarrow> flow_key \<times> i32 \<times> u64 \<Rightarrow> bool" where
  "flow_expired now_ns tcp_ns udp_ns d =
     (now_ns - snd (snd d) > (if proto (fst d) = IPPROTO_TCP then tcp_ns else udp_ns))"

definition evict_one :: "(i32 \<Rightarrow> 'w \<Rightarrow> 'w) option \<Rightarrow> i32 \<Rightarrow> 'w \<Rightarrow> 'w" where
  "evict_one on_evict b w = (case on_evict of None \<Rightarrow> w | Some f \<Rightarrow> f b w)"

definition evict_all :: "(i32 \<Rightarrow> 'w \<Rightarrow> 'w) option \<Rightarrow> (flow_key \<times> i32 \<times> u64) list \<Rightarrow> 'w \<Rightarrow> 'w" where
  "evict_all on_evict ds w = fold (\<lambda>d. evict_one on_evict (fst (snd d))) ds w"

lemma evict_all_simps [simp]:
  "evict_all on_evict [] w = w"
  "evict_all on_evict (d # ds) w = evict_all on_evict ds (evict_one on_evict (fst (snd d)) w)"
  "evict_all on_evict (ds @ ds') w = evict_all on_evict ds' (evict_all on_evict ds w)"
  by (simp_all add: evict_all_def)

lemma conntrack_reap_bucket_chain:
  fixes now tcp udp :: u64
  defines "E \<equiv> flow_expired now tcp udp"
  assumes "ct_rep xxh ct cs free" "b < length cs" "cs ! b = xs @ ys" "map ce_data (slab ct) = dat"
  shows "\<exists>ct'. conntrack_reap_bucket now tcp udp oe ct reaped w (link_at b xs) =
      Some (ct', reaped + word_of_nat (length (filter (\<lambda>i. E (dat ! i)) ys)),
            evict_all oe (map (\<lambda>i. dat ! i) (filter (\<lambda>i. E (dat ! i)) ys)) w) \<and>
    ct_rep xxh ct' (cs[b := xs @ filter (\<lambda>i. \<not> E (dat ! i)) ys])
      (rev (filter (\<lambda>i. E (dat ! i)) ys) @ free) \<and>
    map ce_data (slab ct') = dat \<and>
    sweep_cursor ct' = sweep_cursor ct \<and> bucket_count ct' = bucket_count ct"
  using assms(2-)
proof (induction ys arbitrary: ct cs free xs reaped w)
  case Nil
  have "conntrack_reap_bucket now tcp udp oe ct reaped w (link_at b xs) = Some (ct, reaped, w)"
    using link_get_at [OF Nil.prems(1,2), of xs "[]"] Nil.prems(3)
    by (subst conntrack_reap_bucket.simps) simp
  moreover have "cs[b := xs] = cs" using Nil.prems(3) by (metis append_Nil2 list_update_id)
  ultimately show ?case using Nil.prems by simp
next
  case (Cons y ys)
  note R = Cons.prems(1) and b = Cons.prems(2,3)
  have get: "link_get ct (link_at b xs) = Some (Some y)"
    using link_get_at [OF R b] by simp
  have "y \<in> set (concat cs)" using concat_nth_subset [OF b(1)] b(2) by auto
  then have y: "y < length (slab ct)" using ct_rep_member(2) [OF R] by simp
  have dat: "ce_data (slab ct ! y) = dat ! y" using Cons.prems(4) y by auto
  have E: "E (dat ! y) \<longleftrightarrow> now - ce_last_seen_ns (slab ct ! y) > entry_timeout tcp udp (ce_key (slab ct ! y))"
    "fst (snd (dat ! y)) = ce_backend_id (slab ct ! y)"
    unfolding dat [symmetric] by (simp_all add: E_def flow_expired_def entry_timeout_def ce_data_def)
  show ?case
  proof (cases "E (dat ! y)")
    case True
    let ?ct = "reap_unlink ct (link_at b xs) y"
    have step: "conntrack_reap_bucket now tcp udp oe ct reaped w (link_at b xs) =
        conntrack_reap_bucket now tcp udp oe ?ct (reaped + 1) (evict_one oe (fst (snd (dat ! y))) w) (link_at b xs)"
      using True get y by (subst conntrack_reap_bucket.simps) (simp add: E evict_one_def)
    show ?thesis
      unfolding step
      using Cons.IH [OF reap_unlink_rep [OF R b], of xs "reaped + 1" "evict_one oe (fst (snd (dat ! y))) w"]
        b(1) True reap_unlink_data [of ct "link_at b xs" y] Cons.prems(4)
      by (auto simp: add.assoc)
  next
    case False
    have "link_at b (xs @ [y]) = Link_next y" by (simp add: link_at_def)
    then have step: "conntrack_reap_bucket now tcp udp oe ct reaped w (link_at b xs) =
        conntrack_reap_bucket now tcp udp oe ct reaped w (link_at b (xs @ [y]))"
      using False get y by (subst conntrack_reap_bucket.simps) (simp add: E)
    show ?thesis
      unfolding step using Cons.IH [OF R b(1), of "xs @ [y]" reaped w] b(2) False Cons.prems(4) by simp
  qed
qed

text \<open>What a sweep of the buckets \<open>B\<close> does: exactly the expired flows of these buckets are
  removed, and each removed flow is reported once.\<close>

definition reap_effect ::
  "xxh64 \<Rightarrow> (flow_key \<times> i32 \<times> u64 \<Rightarrow> bool) \<Rightarrow> nat set \<Rightarrow> conntrack_table \<Rightarrow>
     (flow_key \<times> i32 \<times> u64) list \<Rightarrow> conntrack_table \<Rightarrow> bool" where
  "reap_effect xxh E B ct evs ct' \<longleftrightarrow>
     ct_inv xxh ct' \<and> bucket_count ct' = bucket_count ct \<and> length (slab ct') = length (slab ct) \<and>
     mset evs + mset (ct_flows ct') = mset (ct_flows ct) \<and>
     (\<forall>d \<in> set evs. bucket_idx xxh ct (fst d) \<in> B \<and> E d) \<and>
     (\<forall>d \<in> set (ct_flows ct'). \<not> (bucket_idx xxh ct (fst d) \<in> B \<and> E d))"

lemma reap_effect_trans:
  assumes "reap_effect xxh E B ct evs ct1" "reap_effect xxh E B' ct1 evs' ct2"
  shows "reap_effect xxh E (B \<union> B') ct (evs @ evs') ct2"
proof -
  have b: "bucket_idx xxh ct1 = bucket_idx xxh ct"
    using assms(1) by (intro bucket_idx_cong) (simp add: reap_effect_def)
  have m: "mset evs' + mset (ct_flows ct2) = mset (ct_flows ct1)"
    using assms(2) by (simp add: reap_effect_def)
  have "set (ct_flows ct2) \<subseteq> set (ct_flows ct1)"
    by (metis m mset_subset_eq_add_right set_mset_mono set_mset_mset)
  moreover have "mset evs + (mset evs' + mset (ct_flows ct2)) = mset (ct_flows ct)"
    using assms(1) unfolding m by (simp add: reap_effect_def)
  ultimately show ?thesis
    using assms unfolding reap_effect_def b by (auto simp: add.assoc)
qed

lemma conntrack_reap_bucket_effect:
  assumes I: "ct_inv xxh ct" and b: "b < unat (bucket_count ct)"
  shows "\<exists>ct' evs. conntrack_reap_bucket now tcp udp oe ct reaped w (Link_bucket b) =
      Some (ct', reaped + word_of_nat (length evs), evict_all oe evs w) \<and>
    reap_effect xxh (flow_expired now tcp udp) {b} ct evs ct' \<and> sweep_cursor ct' = sweep_cursor ct"
proof -
  let ?E = "flow_expired now tcp udp"
  obtain cs free where R: "ct_rep xxh ct cs free" using I by (auto simp: ct_inv_iff)
  define dat where "dat = map ce_data (slab ct)"
  let ?X = "filter (\<lambda>i. ?E (dat ! i)) (cs ! b)" and ?K = "filter (\<lambda>i. \<not> ?E (dat ! i)) (cs ! b)"
  let ?evs = "map (\<lambda>i. dat ! i) ?X"
  have bl: "b < length cs" using b ct_repD(5) [OF R] by simp
  obtain ct' where ct': "conntrack_reap_bucket now tcp udp oe ct reaped w (Link_bucket b) =
      Some (ct', reaped + word_of_nat (length ?evs), evict_all oe ?evs w)"
      "ct_rep xxh ct' (cs[b := ?K]) (rev ?X @ free)" "map ce_data (slab ct') = dat"
      "sweep_cursor ct' = sweep_cursor ct" "bucket_count ct' = bucket_count ct"
    using conntrack_reap_bucket_chain [OF R bl, of "[]" "cs ! b" dat now tcp udp oe reaped w]
    by (auto simp: dat_def link_at_def)
  have len: "length (slab ct') = length (slab ct)"
    using map_eq_imp_length_eq [OF ct'(3) [unfolded dat_def]] .
  have fl: "ct_flows ct0 = map (\<lambda>i. dat ! i) (concat cs0)"
    if "ct_rep xxh ct0 cs0 free0" "map ce_data (slab ct0) = dat" for ct0 cs0 free0
    unfolding ct_rep_flows [OF that(1)]
  proof (rule map_cong [OF refl])
    fix i assume "i \<in> set (concat cs0)"
    then have "i < length (slab ct0)" by (rule ct_rep_member(2) [OF that(1)])
    then show "ce_data (slab ct0 ! i) = dat ! i" using that(2) by auto
  qed
  have m: "mset (concat (cs[b := ?K])) + mset (cs ! b) = mset (concat cs) + mset ?K"
    by (rule concat_update [OF bl])
  have "mset (cs ! b) = mset ?X + mset ?K" 
    unfolding mset_filter by (rule multiset_partition)
  with m have "mset (concat (cs[b := ?K])) + mset ?X + mset ?K = mset (concat cs) + mset ?K"
    by (simp only: add.assoc)
  then have "mset ?X + mset (concat (cs[b := ?K])) = mset (concat cs)"
    unfolding add_right_cancel by (subst add.commute)
  then have flows: "mset ?evs + mset (ct_flows ct') = mset (ct_flows ct)"
    unfolding fl [OF R dat_def [symmetric]] fl [OF ct'(2,3)] mset_map image_mset_union [symmetric]
    by (simp only:)
  have idx: "bucket_idx xxh ct (fst (dat ! i)) = c \<and> i < length (slab ct)"
    if "c < length cs" "i \<in> set (cs ! c)" for c i
  proof -
    have "i \<in> set (concat cs)" using that concat_nth_subset by blast
    then have "i < length (slab ct)" by (rule ct_rep_member(2) [OF R])
    then show ?thesis using R that by (simp add: ct_rep_def dat_def ce_data_def)
  qed
  have kept: "\<not> (bucket_idx xxh ct (fst d) \<in> {b} \<and> ?E d)" if "d \<in> set (ct_flows ct')" for d
  proof -
    obtain c i where c: "c < length cs" "i \<in> set (cs[b := ?K] ! c)" "d = dat ! i"
      using \<open>d \<in> set (ct_flows ct')\<close> unfolding fl [OF ct'(2,3)]
      by (auto simp: in_set_conv_nth [of _ "cs[b := ?K]"] simp del: nth_list_update)
    show ?thesis
    proof (cases "c = b")
      case True
      then show ?thesis using c bl by simp
    next
      case False
      then show ?thesis using c idx by auto
    qed
  qed
  have "reap_effect xxh ?E {b} ct ?evs ct'"
    unfolding reap_effect_def using ct'(2,5) len flows kept idx bl
    by (auto simp: ct_inv_iff)
  with ct'(1,4) show ?thesis by blast
qed

text \<open>The buckets a sweep of \<open>n\<close> steps visits from cursor \<open>c\<close>.\<close>

definition sweep_window :: "nat \<Rightarrow> nat \<Rightarrow> nat \<Rightarrow> nat set" where
  "sweep_window m c n = (\<lambda>i. (c + i) mod m) ` {..<n}"

lemma sweep_window_0 [simp]: "sweep_window m c 0 = {}"
  by (simp add: sweep_window_def)

lemma sweep_window_add:
  "sweep_window m c (n + n') = sweep_window m c n \<union> sweep_window m ((c + n) mod m) n'"
proof -
  have "{..<n + n'} = {..<n} \<union> (\<lambda>i. n + i) ` {..<n'}"
  proof (rule set_eqI)
    fix x
    have "x < n + n' \<longleftrightarrow> x < n \<or> (\<exists>i. i < n' \<and> x = n + i)" by presburger
    then show "x \<in> {..<n + n'} \<longleftrightarrow> x \<in> {..<n} \<union> (\<lambda>i. n + i) ` {..<n'}"
      by (auto simp: image_iff)
  qed
  then show ?thesis
    unfolding sweep_window_def by (simp add: image_Un image_image mod_add_left_eq add.assoc)
qed

lemma sweep_window_full:
  assumes "m \<le> n" "0 < m"
  shows "sweep_window m c n = {..<m}"
proof (rule equalityI)
  show "sweep_window m c n \<subseteq> {..<m}" using assms by (auto simp: sweep_window_def)
  have "(\<lambda>i. (c + i) mod m) ` {..<m} = {..<m}"
    using stride_bij [of 1 m c] assms(2) by (simp add: bij_betw_def)
  then show "{..<m} \<subseteq> sweep_window m c n"
    using assms(1) unfolding sweep_window_def
    by (metis image_mono lessThan_subset_iff)
qed

lemma ct_rep_cursor:
  "ct_rep xxh ct cs free \<Longrightarrow> unat v < unat (bucket_count ct) \<Longrightarrow>
   ct_rep xxh (ct\<lparr>sweep_cursor := v\<rparr>) cs free"
  by (simp add: ct_rep_def bucket_idx_def)

lemma ct_flows_cursor [simp]:
  "ct_flows (ct\<lparr>sweep_cursor := v\<rparr>) = ct_flows ct"
  "bucket_idx xxh (ct\<lparr>sweep_cursor := v\<rparr>) = bucket_idx xxh ct"
  by (simp_all add: ct_flows_def ct_chains_def bucket_idx_def fun_eq_iff)

lemma ct_inv_cursor:
  "ct_inv xxh ct \<Longrightarrow> unat v < unat (bucket_count ct) \<Longrightarrow> ct_inv xxh (ct\<lparr>sweep_cursor := v\<rparr>)"
  unfolding ct_inv_iff using ct_rep_cursor by blast

lemma ct_inv_count:
  assumes "ct_inv xxh ct"
  shows "0 < unat (bucket_count ct)" "unat (sweep_cursor ct) < unat (bucket_count ct)"
    "unat (bucket_count ct) \<le> 2 ^ 63" "bucket_idx xxh ct key < unat (bucket_count ct)"
proof -
  obtain cs free where R: "ct_rep xxh ct cs free" using assms by (auto simp: ct_inv_iff)
  obtain k where k: "k < 64" "bucket_count ct = 2 ^ k" "unat (bucket_count ct) = 2 ^ k"
    using R by (rule ct_rep_pow2)
  show "0 < unat (bucket_count ct)" by (simp add: k(3))
  show "unat (sweep_cursor ct) < unat (bucket_count ct)" using R by (simp add: ct_rep_def)
  show "unat (bucket_count ct) \<le> 2 ^ 63"
    unfolding k(3) by (rule power_increasing) (use k(1) in simp_all)
  show "bucket_idx xxh ct key < unat (bucket_count ct)"
    using bucket_idx_less [OF R] ct_repD(5) [OF R] by simp
qed

lemma cursor_step:
  assumes "ct_inv xxh ct"
  shows "unat ((sweep_cursor ct + 1) mod bucket_count ct) =
    (unat (sweep_cursor ct) + 1) mod unat (bucket_count ct)"
proof -
  have "unat (sweep_cursor ct + 1) = unat (sweep_cursor ct) + 1"
    using ct_inv_count [OF assms] by (simp add: unat_word_ariths)
  then show ?thesis by (simp only: unat_mod_distrib)
qed

lemma conntrack_reap_loop_effect:
  assumes "ct_inv xxh ct"
  shows "\<exists>ct' evs. conntrack_reap_loop n now tcp udp oe ct reaped w =
      Some (ct', reaped + word_of_nat (length evs), evict_all oe evs w) \<and>
    reap_effect xxh (flow_expired now tcp udp)
      (sweep_window (unat (bucket_count ct)) (unat (sweep_cursor ct)) n) ct evs ct' \<and>
    unat (sweep_cursor ct') = (unat (sweep_cursor ct) + n) mod unat (bucket_count ct)"
  using assms
proof (induction n arbitrary: ct reaped w)
  case 0
  then have "reap_effect xxh (flow_expired now tcp udp) {} ct [] ct" by (simp add: reap_effect_def)
  then show ?case using ct_inv_count(2) [OF 0] by (intro exI [of _ ct] exI [of _ "[]"]) simp
next
  case (Suc n)
  let ?E = "flow_expired now tcp udp"
  let ?m = "unat (bucket_count ct)" and ?c = "unat (sweep_cursor ct)"
  let ?ct = "ct\<lparr>sweep_cursor := (sweep_cursor ct + 1) mod bucket_count ct\<rparr>"
  note C = ct_inv_count [OF Suc.prems]
  have c': "unat (sweep_cursor ?ct) = (?c + 1) mod ?m" using cursor_step [OF Suc.prems] by simp
  have I: "ct_inv xxh ?ct" using ct_inv_cursor [OF Suc.prems] c' C(1) by simp
  obtain ct1 e1 where 1: "conntrack_reap_bucket now tcp udp oe ?ct reaped w (Link_bucket ?c) =
        Some (ct1, reaped + word_of_nat (length e1), evict_all oe e1 w)"
      "reap_effect xxh ?E {?c} ?ct e1 ct1" "sweep_cursor ct1 = sweep_cursor ?ct"
    using conntrack_reap_bucket_effect [OF I, of ?c now tcp udp oe reaped w] C(2) by auto
  have I1: "ct_inv xxh ct1" and m1: "bucket_count ct1 = bucket_count ct"
    using 1(2) by (simp_all add: reap_effect_def)
  obtain ct2 e2 where 2: "conntrack_reap_loop n now tcp udp oe ct1 (reaped + word_of_nat (length e1))
          (evict_all oe e1 w) =
        Some (ct2, reaped + word_of_nat (length e1) + word_of_nat (length e2), evict_all oe e2 (evict_all oe e1 w))"
      "reap_effect xxh ?E (sweep_window ?m ((?c + 1) mod ?m) n) ct1 e2 ct2"
      "unat (sweep_cursor ct2) = ((?c + 1) mod ?m + n) mod ?m"
    using Suc.IH [OF I1, of "reaped + word_of_nat (length e1)" "evict_all oe e1 w"]
    unfolding m1 1(3) c' by blast
  have "reap_effect xxh ?E {?c} ct e1 ct1"
    using 1(2) by (simp add: reap_effect_def)
  from reap_effect_trans [OF this 2(2)]
  have eff: "reap_effect xxh ?E (sweep_window ?m ?c (Suc n)) ct (e1 @ e2) ct2"
    using sweep_window_add [of ?m ?c 1 n] C(2) by (simp add: sweep_window_def lessThan_Suc)
  have "conntrack_reap_loop (Suc n) now tcp udp oe ct reaped w =
      Some (ct2, reaped + word_of_nat (length (e1 @ e2)), evict_all oe (e1 @ e2) w)"
    using 1(1) 2(1) by (simp add: add.assoc)
  moreover have "unat (sweep_cursor ct2) = (?c + Suc n) mod ?m"
    using 2(3) by (simp add: mod_simps)
  ultimately show ?case using eff by blast
qed

lemma reap_effect_map:
  assumes I: "ct_inv xxh ct" and eff: "reap_effect xxh E B ct evs ct'"
  shows "ct_map ct' k = (case ct_map ct k of None \<Rightarrow> None
    | Some d \<Rightarrow> if bucket_idx xxh ct k \<in> B \<and> E (k, d) then None else Some d)"
proof -
  have dist: "distinct (map fst (ct_flows ct0))" if "ct_inv xxh ct0" for ct0
    using that ct_rep_distinct_flows by (auto simp: ct_inv_iff)
  have mem: "ct_map ct0 k = Some d \<longleftrightarrow> (k, d) \<in> set (ct_flows ct0)" if "ct_inv xxh ct0" for ct0 d
    using dist [OF that] by (simp add: ct_map_def)
  have I': "ct_inv xxh ct'" using eff by (simp add: reap_effect_def)
  have m: "mset evs + mset (ct_flows ct') = mset (ct_flows ct)" using eff by (simp add: reap_effect_def)
  have U: "set evs \<union> set (ct_flows ct') = set (ct_flows ct)"
    using arg_cong [OF m, of set_mset] by simp
  have ev: "bucket_idx xxh ct (fst d) \<in> B \<and> E d" if "d \<in> set evs" for d
    using eff that by (simp add: reap_effect_def)
  have kept: "\<not> (bucket_idx xxh ct (fst d) \<in> B \<and> E d)" if "d \<in> set (ct_flows ct')" for d
    using eff that unfolding reap_effect_def by blast
  have "(k, d) \<in> set (ct_flows ct') \<longleftrightarrow>
      (k, d) \<in> set (ct_flows ct) \<and> \<not> (bucket_idx xxh ct k \<in> B \<and> E (k, d))" for d
    using U ev [of "(k, d)"] kept [of "(k, d)"] by auto
  then have st: "ct_map ct' k = Some d \<longleftrightarrow>
      ct_map ct k = Some d \<and> \<not> (bucket_idx xxh ct k \<in> B \<and> E (k, d))" for d
    unfolding mem [OF I'] mem [OF I] .
  show ?thesis
    by (rule option_eq_Some_iffI, unfold st) (cases "ct_map ct k", simp, force)
qed

lemma conntrack_reap_slice_effect:
  fixes max_buckets :: u64
  assumes "ct_inv xxh ct"
  defines "n \<equiv> min (unat max_buckets) (unat (bucket_count ct))"
  shows "\<exists>ct' evs. conntrack_reap_slice ct now tcp udp max_buckets oe w =
      Some (ct', word_of_nat (length evs), evict_all oe evs w) \<and>
    reap_effect xxh (flow_expired now tcp udp)
      (sweep_window (unat (bucket_count ct)) (unat (sweep_cursor ct)) n) ct evs ct' \<and>
    unat (sweep_cursor ct') = (unat (sweep_cursor ct) + n) mod unat (bucket_count ct)"
proof -
  have "unat (if max_buckets > bucket_count ct then bucket_count ct else max_buckets) = n"
    by (auto simp: n_def word_less_nat_alt)
  then show ?thesis
    using conntrack_reap_loop_effect [OF assms(1), of n now tcp udp oe 0 w]
    by (simp add: conntrack_reap_slice_def)
qed

section \<open>Creation\<close>

lemma next_pow2_from_eq:
  assumes "j \<le> 63" "unat x \<le> 2 ^ 63" "j = 0 \<or> 2 ^ (j - 1) < unat x"
  shows "\<exists>k \<le> 63. next_pow2_from (2 ^ j) x = Some (2 ^ k) \<and> unat x \<le> 2 ^ k \<and> (k = 0 \<or> 2 ^ (k - 1) < unat x)"
  using assms(1,3)
proof (induction "63 - j" arbitrary: j)
  case (0 j)
  then have "j = 63" by simp
  then have "\<not> (2 ^ j :: u64) < x" using assms(2) unat_pow2_u64 [of 63] by (simp add: word_less_nat_alt)
  then show ?case
    using \<open>j = 63\<close> 0 assms(2) by (subst next_pow2_from.simps) (auto intro!: exI [of _ 63])
next
  case (Suc d j)
  then have j: "j < 63" by simp
  have lt: "(2 ^ j :: u64) < x \<longleftrightarrow> 2 ^ j < unat x"
    using unat_pow2_u64 [of j] j by (simp add: word_less_nat_alt)
  show ?case
  proof (cases "2 ^ j < unat x")
    case True
    have "next_pow2_from (2 ^ j) x = next_pow2_from (2 ^ Suc j) x"
      using True lt by (subst next_pow2_from.simps) (simp add: push_bit_eq_mult mult.commute)
    moreover have "\<exists>k \<le> 63. next_pow2_from (2 ^ Suc j) x = Some (2 ^ k) \<and> unat x \<le> 2 ^ k \<and> (k = 0 \<or> 2 ^ (k - 1) < unat x)"
      using Suc True j by (intro Suc.hyps(1)) auto
    ultimately show ?thesis by (simp only:)
  next
    case False
    then have "next_pow2_from (2 ^ j) x = Some (2 ^ j)" using lt by (subst next_pow2_from.simps) simp
    with False Suc.prems show ?thesis by (intro exI [of _ j]) auto
  qed
qed

lemma next_pow2_eq:
  assumes "unat x \<le> 2 ^ 63"
  obtains k where "k < 64" "next_pow2 x = Some (2 ^ k)" "unat x \<le> 2 ^ k" "k = 0 \<or> 2 ^ (k - 1) < unat x"
proof -
  obtain k where k: "k \<le> 63" "next_pow2_from (2 ^ 0) x = Some (2 ^ k)" "unat x \<le> 2 ^ k"
      "k = 0 \<or> 2 ^ (k - 1) < unat x"
    using next_pow2_from_eq [of 0 x] assms by blast
  then show thesis by (intro that [of k]) (simp_all add: next_pow2_def)
qed

lemma conntrack_link_slab_eq:
  assumes "n \<le> length es" "i \<le> n"
    "\<And>j. j < i \<Longrightarrow> ce_next (es ! j) = (if j + 1 < n then Some (j + 1) else None)"
  shows "\<exists>es'. conntrack_link_slab i n es = Some es' \<and> length es' = length es \<and>
    (\<forall>j<n. ce_next (es' ! j) = (if j + 1 < n then Some (j + 1) else None))"
  using assms
proof (induction i n es rule: conntrack_link_slab.induct)
  case (1 i n es)
  show ?case
  proof (cases "i < n")
    case True
    let ?es = "es[i := (es ! i)\<lparr>ce_next := if i + 1 < n then Some (i + 1) else None\<rparr>]"
    have il: "i < length es" using True "1.prems" by simp
    have "ce_next (?es ! j) = (if j + 1 < n then Some (j + 1) else None)" if "j < i + 1" for j
      using that "1.prems"(3) [of j] il by (cases "j = i") auto
    then have "\<exists>es'. conntrack_link_slab (i + 1) n ?es = Some es' \<and> length es' = length ?es \<and>
        (\<forall>j<n. ce_next (es' ! j) = (if j + 1 < n then Some (j + 1) else None))"
      using True il "1.prems" by (intro "1.IH") auto
    then show ?thesis using True il by (subst conntrack_link_slab.simps) simp
  next
    case False
    then show ?thesis using "1.prems" by (subst conntrack_link_slab.simps) auto
  qed
qed

lemma chain_upt:
  assumes "length es = n" "\<forall>j<n. ce_next (es ! j) = (if j + 1 < n then Some (j + 1) else None)" "i \<le> n"
  shows "chain es (if i < n then Some i else None) [i..<n]"
  using assms(3)
proof (induction "n - i" arbitrary: i)
  case (Suc d i)
  then have "[i..<n] = i # [Suc i..<n]" "i < n" by (simp_all add: upt_conv_Cons)
  moreover have "chain es (if Suc i < n then Some (Suc i) else None) [Suc i..<n]"
    using Suc by (intro Suc.hyps(1)) auto
  ultimately show ?case using assms(1,2) by (cases "Suc i < n") simp_all
qed simp

lemma concat_replicate_Nil [simp]: "concat (replicate n []) = []"
  by (induction n) auto

lemma pow2_least:
  assumes "4 * n div 3 + 1 \<le> 2 ^ k" "k = 0 \<or> 2 ^ (k - 1) < 4 * n div 3 + (1 :: nat)"
  shows "4 * n < 3 * 2 ^ k \<and> (\<forall>j. 4 * n < 3 * 2 ^ j \<longrightarrow> k \<le> j)"
proof -
  have iff: "4 * n div 3 + 1 \<le> 2 ^ j \<longleftrightarrow> 4 * n < 3 * 2 ^ j" for j
  proof -
    have "4 * n div 3 < 2 ^ j \<longleftrightarrow> 4 * n < 2 ^ j * 3" by (rule div_less_iff_less_mult) simp
    then show ?thesis by (simp add: mult.commute Suc_le_eq)
  qed
  have "k \<le> j" if "4 * n < 3 * 2 ^ j" for j
  proof (rule ccontr)
    assume "\<not> k \<le> j"
    then have "(2 :: nat) ^ j \<le> 2 ^ (k - 1)" "k \<noteq> 0" by (auto intro: power_increasing)
    then show False using iff [of j] that assms(2) by linarith
  qed
  then show ?thesis using iff [of k] assms(1) by blast
qed

lemma conntrack_create_eq:
  assumes n: "unat max_flows < 2 ^ 50"
    and al: "alloc Alloc_ct" "alloc Alloc_buckets" "max_flows = 0 \<or> alloc Alloc_slab"
  shows "\<exists>ct k. conntrack_create alloc garbage max_flows = Some (Some ct) \<and> ct_inv xxh ct \<and>
    ct_flows ct = [] \<and> length (slab ct) = unat max_flows \<and> unat (bucket_count ct) = 2 ^ k \<and>
    4 * unat max_flows < 3 * 2 ^ k \<and> (\<forall>j. 4 * unat max_flows < 3 * 2 ^ j \<longrightarrow> k \<le> j)"
proof -
  let ?n = "unat max_flows" and ?q = "word_of_nat (4 * unat max_flows div 3) :: u64"
  have q: "unat ?q = 4 * ?n div 3" using n by (simp add: unat_of_nat)
  then have q1: "unat (?q + 1) = 4 * ?n div 3 + 1" using n by (simp add: unat_word_ariths)
  have q2: "unat (?q + 1) \<le> 2 ^ 63" unfolding q1 using n by simp
  obtain k where k: "k < 64" "next_pow2 (?q + 1) = Some (2 ^ k)" "unat (?q + 1) \<le> 2 ^ k"
      "k = 0 \<or> 2 ^ (k - 1) < unat (?q + 1)"
    using next_pow2_eq [OF q2] by blast
  note kk = unat_pow2_u64 [OF k(1)]
  have sz: "unat (sizeof_conntrack_entry * max_flows) div unat sizeof_conntrack_entry = ?n"
    using n by (simp add: sizeof_conntrack_entry_def unat_word_ariths)
  obtain es where es: "conntrack_link_slab 0 ?n (map garbage [0..<?n]) = Some es" "length es = ?n"
      "\<forall>j<?n. ce_next (es ! j) = (if j + 1 < ?n then Some (j + 1) else None)"
    using conntrack_link_slab_eq [of ?n "map garbage [0..<?n]" 0] by auto
  have pos: "max_flows > 0 \<longleftrightarrow> 0 < ?n" by (simp add: word_less_nat_alt)
  let ?ct = "\<lparr>buckets = replicate (2 ^ k) None, bucket_count = 2 ^ k, slab = es,
      free_list = (if 0 < ?n then Some 0 else None), sweep_cursor = 0, active = 0\<rparr>"
  have "conntrack_create alloc garbage max_flows = Some (Some ?ct)"
    using al k(2) sz es(1) f64_div_three_quarters [OF n]
    by (auto simp: conntrack_create_def Let_def pos kk)
  moreover have R: "ct_rep xxh ?ct (replicate (2 ^ k) []) [0..<?n]"
    using k(1) es n chain_upt [OF es(2,3), of 0] by (auto simp: ct_rep_def kk)
  then have "ct_inv xxh ?ct" unfolding ct_inv_iff by blast
  moreover have "ct_flows ?ct = []" using ct_rep_flows [OF R] by simp
  moreover have "4 * ?n < 3 * 2 ^ k \<and> (\<forall>j. 4 * ?n < 3 * 2 ^ j \<longrightarrow> k \<le> j)"
    by (rule pow2_least) (use k(3,4) q1 in simp_all)
  ultimately show ?thesis using es(2) kk by (intro exI [of _ ?ct] exI [of _ k]) simp
qed

lemma conntrack_create_fails:
  assumes "unat max_flows < 2 ^ 50" "\<not> (alloc Alloc_ct \<and> alloc Alloc_buckets \<and> (max_flows = 0 \<or> alloc Alloc_slab))"
  shows "conntrack_create alloc garbage max_flows = Some None"
proof -
  let ?q = "word_of_nat (4 * unat max_flows div 3) :: u64"
  have "unat (?q + 1) \<le> 2 ^ 63" using assms(1) by (simp add: unat_word_ariths unat_of_nat)
  then obtain k where "next_pow2 (?q + 1) = Some (2 ^ k)" using next_pow2_eq by blast
  moreover have "max_flows > 0 \<longleftrightarrow> max_flows \<noteq> 0" by (simp add: word_gt_0)
  ultimately show ?thesis
    using assms f64_div_three_quarters [OF assms(1)] by (auto simp: conntrack_create_def Let_def)
qed

text \<open>Doubling one never gets past \<open>2 ^ 63\<close>: the next value is zero.\<close>

lemma doubling_stays_below:
  fixes x :: u64
  assumes "2 ^ 63 < unat x"
  shows "(push_bit 1 ^^ i) 1 < x"
proof -
  have "(push_bit 1 ^^ i) 1 = push_bit i (1 :: u64)" for i
    by (induction i) (simp_all add: push_bit_eq_mult mult.commute)
  then have e: "(push_bit 1 ^^ i) 1 = (2 ^ i :: u64)" by (simp add: push_bit_eq_mult)
  show ?thesis
  proof (cases "i < 64")
    case True
    have "(2 :: nat) ^ i \<le> 2 ^ 63" by (rule power_increasing) (use True in simp_all)
    then show ?thesis using unat_pow2_u64 [OF True] assms unfolding e by (simp add: word_less_nat_alt)
  next
    case False
    then have "(2 ^ i :: u64) = 0" by simp
    then show ?thesis using assms unfolding e by (simp only: word_less_nat_alt unsigned_0)
  qed
qed

lemma next_pow2_from_diverges:
  fixes x :: u64
  assumes "2 ^ 63 < unat x" "p = 0 \<or> (\<exists>j < 64. p = 2 ^ j)"
  shows "next_pow2_from p x = None"
proof (rule ccontr)
  assume "next_pow2_from p x \<noteq> None"
  then obtain r where "next_pow2_from p x = Some r" by auto
  then have eq: "(case (p, x) of (p, x) \<Rightarrow> next_pow2_from p x) = Some r" by simp
  let ?P = "\<lambda>p x (r :: u64). 2 ^ 63 < unat (x :: u64) \<and> ((p :: u64) = 0 \<or> (\<exists>j < 64. p = 2 ^ j)) \<longrightarrow> False"
  have "(case (p, x) of (p, x) \<Rightarrow> ?P p x) r"
  proof (rule next_pow2_from.raw_induct [of ?P, OF _ eq])
    fix f and p x r :: u64
    assume IH: "\<And>p x r. f p x = Some r \<Longrightarrow> 2 ^ 63 < unat x \<and> (p = 0 \<or> (\<exists>j < 64. p = 2 ^ j)) \<longrightarrow> False"
      and eq: "(if p < x then f (push_bit 1 p) x else Some p) = Some r"
    show "2 ^ 63 < unat (x :: u64) \<and> (p = 0 \<or> (\<exists>j < 64. p = 2 ^ j)) \<longrightarrow> False"
    proof
      assume A: "2 ^ 63 < unat x \<and> (p = 0 \<or> (\<exists>j < 64. p = 2 ^ j))"
      have nxt: "push_bit 1 p = 0 \<or> (\<exists>j < 64. push_bit 1 p = 2 ^ j)"
      proof (cases "p = 0")
        case False
        then obtain j where j: "j < 64" "p = 2 ^ j" using A by auto
        then have "push_bit 1 p = 2 ^ Suc j" by (simp add: push_bit_eq_mult)
        moreover have "(2 :: u64) ^ 64 = 0" by simp
        ultimately show ?thesis using j(1)
          by (cases "Suc j = 64") (auto simp del: power_Suc intro!: exI [of _ "Suc j"])
      qed simp
      have "unat p \<le> 2 ^ 63"
      proof (cases "p = 0")
        case False
        then obtain j where j: "j < 64" "p = 2 ^ j" using A by auto
        have "(2 :: nat) ^ j \<le> 2 ^ 63" by (rule power_increasing) (use j(1) in simp_all)
        then show ?thesis using unat_pow2_u64 [OF j(1)] j(2) by simp
      qed simp
      then have "p < x" using A by (simp add: word_less_nat_alt)
      with eq have "f (push_bit 1 p) x = Some r" by simp
      from IH [OF this] A nxt show False by blast
    qed
  qed
  with assms show False by blast
qed

section \<open>The table as a flow store\<close>

type_synonym 'w sweep_args = "u64 \<times> u64 \<times> u64 \<times> u64 \<times> (i32 \<Rightarrow> 'w \<Rightarrow> 'w) option \<times> 'w"

fun ct_sweep :: "conntrack_table \<Rightarrow> 'w sweep_args \<Rightarrow> (conntrack_table \<times> u64 \<times> 'w) option" where
  "ct_sweep ct (now_ns, tcp_ns, udp_ns, n, on_evict, w) =
     conntrack_reap_slice ct now_ns tcp_ns udp_ns n on_evict w"

fun ct_expired :: "'w sweep_args \<Rightarrow> flow_key \<Rightarrow> i32 \<times> u64 \<Rightarrow> bool" where
  "ct_expired (now_ns, tcp_ns, udp_ns, _) k d = flow_expired now_ns tcp_ns udp_ns (k, d)"

lemma ct_inv_rep: "ct_inv xxh ct \<Longrightarrow> ct_rep xxh ct (ct_chains ct) (ct_free ct)"
  by (simp add: ct_inv_def)

lemma ct_rep_inv: "ct_rep xxh ct cs free \<Longrightarrow> ct_inv xxh ct"
  by (auto simp: ct_inv_iff)

lemma conntrack_lookup_inv:
  assumes "ct_inv xxh ct"
  shows "\<exists>ct'. conntrack_lookup xxh ct key now = Some (ct', map_option fst (ct_map ct key)) \<and>
    ct_inv xxh ct' \<and>
    ct_map ct' = (case ct_map ct key of None \<Rightarrow> ct_map ct | Some (b, t) \<Rightarrow> (ct_map ct)(key \<mapsto> (b, now)))"
  using conntrack_lookup_spec [OF ct_inv_rep [OF assms], of key now] ct_rep_inv by blast

lemma ct_flows_length:
  assumes "ct_inv xxh ct"
  shows "length (ct_flows ct) = unat (active ct)" "card (dom (ct_map ct)) = length (ct_flows ct)"
    "length (ct_flows ct) + length (ct_free ct) = length (slab ct)"
proof -
  note R = ct_inv_rep [OF assms]
  have "length (ct_flows ct) = length (concat (ct_chains ct))"
    using ct_rep_flows [OF R] by (simp only: length_map)
  then show "length (ct_flows ct) = unat (active ct)"
    "length (ct_flows ct) + length (ct_free ct) = length (slab ct)"
    using R ct_repD(9) [OF R] by (simp_all add: ct_rep_def)
  have "dom (ct_map ct) = set (map fst (ct_flows ct))"
    by (simp add: ct_map_def dom_map_of_conv_image_fst)
  then show "card (dom (ct_map ct)) = length (ct_flows ct)"
    using distinct_card [OF ct_rep_distinct_flows [OF R]] by simp
qed

lemma conntrack_insert_inv:
  assumes I: "ct_inv xxh ct" and new: "ct_map ct key = None"
  shows "\<exists>ct'. conntrack_insert xxh ct key b now =
      Some (ct', card (dom (ct_map ct)) < length (slab ct)) \<and> ct_inv xxh ct' \<and>
    ct_map ct' = (if card (dom (ct_map ct)) < length (slab ct) then (ct_map ct)(key \<mapsto> (b, now)) else ct_map ct) \<and>
    length (slab ct') = length (slab ct)"
proof (cases "ct_free ct")
  case Nil
  then have "ct_rep xxh ct (ct_chains ct) []" using ct_inv_rep [OF I] by simp
  moreover have "\<not> card (dom (ct_map ct)) < length (slab ct)"
    using ct_flows_length [OF I] Nil by simp
  ultimately show ?thesis using conntrack_insert_full I by simp
next
  case (Cons e fs)
  then have "ct_rep xxh ct (ct_chains ct) (e # fs)" using ct_inv_rep [OF I] by simp
  moreover have "card (dom (ct_map ct)) < length (slab ct)"
    using ct_flows_length [OF I] Cons by simp
  ultimately show ?thesis using conntrack_insert_spec [OF _ new, of xxh "ct_chains ct" e fs b now] ct_rep_inv
    by auto
qed

interpretation ct_store: flow_store "ct_inv xxh" ct_map "conntrack_lookup xxh" "conntrack_insert xxh"
  ct_sweep ct_expired for xxh
proof
  fix s k t
  assume "ct_inv xxh s"
  then show "\<exists>s'. conntrack_lookup xxh s k t = Some (s', map_option fst (ct_map s k)) \<and> ct_inv xxh s' \<and>
      ct_map s' = (case ct_map s k of None \<Rightarrow> ct_map s | Some (b, _) \<Rightarrow> (ct_map s)(k \<mapsto> (b, t)))"
    by (rule conntrack_lookup_inv)
next
  fix s k b t
  assume "ct_inv xxh s" "ct_map s k = None"
  then show "\<exists>s' ok. conntrack_insert xxh s k b t = Some (s', ok) \<and> ct_inv xxh s' \<and>
      ct_map s' = (if ok then (ct_map s)(k \<mapsto> (b, t)) else ct_map s)"
    using conntrack_insert_inv by blast
next
  fix s and e :: "'a sweep_args"
  assume I: "ct_inv xxh s"
  obtain now tcp udp n oe w where e: "e = (now, tcp, udp, n, oe, w)" by (cases e)
  obtain s' evs B where s': "conntrack_reap_slice s now tcp udp n oe w = Some (s', word_of_nat (length evs), evict_all oe evs w)"
      "reap_effect xxh (flow_expired now tcp udp) B s evs s'"
    using conntrack_reap_slice_effect [OF I, of now tcp udp n oe w] by blast
  have map: "ct_map s' k = (case ct_map s k of None \<Rightarrow> None
      | Some d \<Rightarrow> if bucket_idx xxh s k \<in> B \<and> flow_expired now tcp udp (k, d) then None else Some d)" for k
    by (rule reap_effect_map [OF I s'(2)])
  have "ct_sweep s e = Some (s', word_of_nat (length evs), evict_all oe evs w)"
    using s'(1) by (simp add: e)
  moreover have "ct_inv xxh s'" using s'(2) by (simp add: reap_effect_def)
  moreover have "ct_map s' k = Some d" if "ct_map s k = Some d" "\<not> ct_expired e k d" for k d
    using that by (simp add: map e)
  moreover have "ct_map s k = Some d" if "ct_map s' k = Some d" for k d
    using that by (simp add: map split: option.splits if_splits)
  ultimately show "\<exists>s' r. ct_sweep s e = Some (s', r) \<and> ct_inv xxh s' \<and>
      (\<forall>k d. ct_map s k = Some d \<longrightarrow> \<not> ct_expired e k d \<longrightarrow> ct_map s' k = Some d) \<and>
      (\<forall>k d. ct_map s' k = Some d \<longrightarrow> ct_map s k = Some d)"
    by blast
qed

section \<open>Repeated sweeps\<close>

text \<open>Ticks of the reaper with the same bound at the times \<open>nows\<close>.\<close>

fun reap_ticks ::
  "conntrack_table \<Rightarrow> u64 list \<Rightarrow> u64 \<Rightarrow> u64 \<Rightarrow> u64 \<Rightarrow> (i32 \<Rightarrow> 'w \<Rightarrow> 'w) option \<Rightarrow> 'w \<Rightarrow>
     (conntrack_table \<times> 'w) option" where
  "reap_ticks ct [] tcp udp n on_evict w = Some (ct, w)"
| "reap_ticks ct (now # nows) tcp udp n on_evict w =
     do {
       (ct, _, w) \<leftarrow> reaper_on_timer_fired ct now tcp udp n on_evict w;
       reap_ticks ct nows tcp udp n on_evict w
     }"

lemma reap_ticks_window:
  assumes "ct_inv xxh ct" "unat n \<le> unat (bucket_count ct)"
    "\<And>now. now \<in> set nows \<Longrightarrow> flow_expired now tcp udp (k, d)"
    "ct_map ct k = Some d \<or> ct_map ct k = None"
  shows "\<exists>ct' w'. reap_ticks ct nows tcp udp n oe w = Some (ct', w') \<and> ct_inv xxh ct' \<and>
    (bucket_idx xxh ct k \<in> sweep_window (unat (bucket_count ct)) (unat (sweep_cursor ct))
       (length nows * unat n) \<longrightarrow> ct_map ct' k = None) \<and>
    (ct_map ct k = None \<longrightarrow> ct_map ct' k = None)"
  using assms
proof (induction nows arbitrary: ct w)
  case (Cons now nows)
  let ?m = "unat (bucket_count ct)" and ?c = "unat (sweep_cursor ct)"
  have min: "min (unat n) ?m = unat n" using Cons.prems(2) by simp
  obtain ct1 evs where 1: "conntrack_reap_slice ct now tcp udp n oe w =
        Some (ct1, word_of_nat (length evs), evict_all oe evs w)"
      "reap_effect xxh (flow_expired now tcp udp) (sweep_window ?m ?c (unat n)) ct evs ct1"
      "unat (sweep_cursor ct1) = (?c + unat n) mod ?m"
    using conntrack_reap_slice_effect [OF Cons.prems(1), of now tcp udp n oe w] unfolding min by blast
  have I1: "ct_inv xxh ct1" and m1: "bucket_count ct1 = bucket_count ct"
    using 1(2) by (simp_all add: reap_effect_def)
  have b1: "bucket_idx xxh ct1 k = bucket_idx xxh ct k" using bucket_idx_cong [OF m1] by simp
  note map1 = reap_effect_map [OF Cons.prems(1) 1(2), of k]
  have E: "flow_expired now tcp udp (k, d)" using Cons.prems(3) by simp
  have d1: "ct_map ct1 k = Some d \<or> ct_map ct1 k = None"
    "ct_map ct k = None \<Longrightarrow> ct_map ct1 k = None"
    "bucket_idx xxh ct k \<in> sweep_window ?m ?c (unat n) \<Longrightarrow> ct_map ct1 k = None"
    using Cons.prems(4) E by (auto simp: map1 split: if_splits)
  obtain ct2 w2 where 2: "reap_ticks ct1 nows tcp udp n oe (evict_all oe evs w) = Some (ct2, w2)" "ct_inv xxh ct2"
      "bucket_idx xxh ct k \<in> sweep_window ?m ((?c + unat n) mod ?m) (length nows * unat n) \<longrightarrow> ct_map ct2 k = None"
      "ct_map ct1 k = None \<longrightarrow> ct_map ct2 k = None"
    using Cons.IH [OF I1 _ _ d1(1), of "evict_all oe evs w"] Cons.prems(2,3) unfolding m1 b1 1(3) by auto
  have "sweep_window ?m ?c (length (now # nows) * unat n) =
      sweep_window ?m ?c (unat n) \<union> sweep_window ?m ((?c + unat n) mod ?m) (length nows * unat n)"
    using sweep_window_add [of ?m ?c "unat n" "length nows * unat n"] by simp
  then show ?case
    using 1(1) 2 d1(2,3) by (auto simp: reaper_on_timer_fired_def)
qed simp


section \<open>Properties\<close>

text \<open>A small table for the witnesses: two entries, four buckets, one flow pinned.\<close>

definition demo_key :: flow_key where
  "demo_key = \<lparr>src_ip = 0x0100000A, dst_ip = 0x6400000A, src_port = 1, dst_port = 80, proto = IPPROTO_TCP\<rparr>"

definition demo_key2 :: flow_key where
  "demo_key2 = demo_key\<lparr>src_port := 2, proto := IPPROTO_UDP\<rparr>"

definition demo_ct :: conntrack_table where
  "demo_ct = \<lparr>buckets = [Some 0, None, None, None],
     bucket_count = 4,
     slab = [\<lparr>ce_key = demo_key, ce_backend_id = 1, ce_last_seen_ns = 100, ce_next = None\<rparr>,
             \<lparr>ce_key = demo_key, ce_backend_id = 0, ce_last_seen_ns = 0, ce_next = None\<rparr>],
     free_list = Some 1, sweep_cursor = 0, active = 1\<rparr>"

lemma demo_ct_rep: "ct_rep demo_xxh demo_ct [[0], [], [], []] [1]"
proof -
  have i: "bucket_idx demo_xxh demo_ct demo_key = 0" by code_simp
  have "bucket_count demo_ct = 2 ^ 2" by (simp add: demo_ct_def)
  then have "\<exists>k \<in> {..<64}. bucket_count demo_ct = 2 ^ k" by (intro bexI [of _ 2]) simp_all
  moreover have "mset ([1] @ concat [[0], [], [], []]) = mset [0..<length (slab demo_ct)]"
    by (simp add: demo_ct_def upt_rec)
  ultimately show ?thesis
    unfolding ct_rep_def using i by (simp add: demo_ct_def All_less_Suc2)
qed

lemma demo_ct_inv: "ct_inv demo_xxh demo_ct"
  using demo_ct_rep by (auto simp: ct_inv_iff)

lemma demo_ct_map: "ct_map demo_ct demo_key = Some (1, 100)" "ct_map demo_ct demo_key2 = None"
proof -
  have "ct_flows demo_ct = [(demo_key, 1, 100)]"
    using ct_rep_flows [OF demo_ct_rep] by (simp add: demo_ct_def ce_data_def)
  then show "ct_map demo_ct demo_key = Some (1, 100)" "ct_map demo_ct demo_key2 = None"
    by (simp_all add: ct_map_def demo_key_def demo_key2_def)
qed

lemma ticks_cover:
  assumes "0 < (m :: nat)"
  shows "m div 60 + 1 \<le> m" "m \<le> 60 * (m div 60 + 1)"
proof -
  have "m mod 60 < 60" "60 * (m div 60) + m mod 60 = m" by simp_all
  then show "m div 60 + 1 \<le> m" "m \<le> 60 * (m div 60 + 1)"
    using assms unfolding distrib_left by linarith+
qed

text \<open>C20. On a well-formed table \<open>conntrack_lookup\<close> terminates, never leaves the slab, answers
  exactly what the table stores for the flow, refreshes the time stamp of a hit and changes
  nothing else, and keeps the table well formed.\<close>

theorem conntrack_lookup_refines:
  assumes "ct_inv xxh ct"
  shows "\<exists>ct'. conntrack_lookup xxh ct key now = Some (ct', map_option fst (ct_map ct key)) \<and>
    ct_inv xxh ct' \<and>
    ct_map ct' = (case ct_map ct key of None \<Rightarrow> ct_map ct | Some (b, t) \<Rightarrow> (ct_map ct)(key \<mapsto> (b, now)))"
  using assms by (rule conntrack_lookup_inv)

theorem conntrack_lookup_refines_witness:
  "\<exists>ct'. conntrack_lookup demo_xxh demo_ct demo_key 150 = Some (ct', Some 1) \<and>
    ct_inv demo_xxh ct' \<and> ct_map ct' demo_key = Some (1, 150)"
  using conntrack_lookup_refines [OF demo_ct_inv, of demo_key 150] by (auto simp: demo_ct_map)

text \<open>C19. On a well-formed table that does not hold the flow, \<open>conntrack_insert\<close> succeeds
  exactly when fewer flows than slab entries are stored; then the flow is pinned to the given
  backend and nothing else changes, otherwise the table is left as it was. The table stays
  well formed, and its counter of active flows is exact.\<close>

theorem conntrack_insert_refines:
  assumes "ct_inv xxh ct" "ct_map ct key = None"
  shows "\<exists>ct'. conntrack_insert xxh ct key b now =
      Some (ct', card (dom (ct_map ct)) < length (slab ct)) \<and> ct_inv xxh ct' \<and>
    ct_map ct' = (if card (dom (ct_map ct)) < length (slab ct) then (ct_map ct)(key \<mapsto> (b, now)) else ct_map ct) \<and>
    length (slab ct') = length (slab ct) \<and> unat (conntrack_active_flows ct') = card (dom (ct_map ct'))"
proof -
  obtain ct' where ct': "conntrack_insert xxh ct key b now =
        Some (ct', card (dom (ct_map ct)) < length (slab ct))" "ct_inv xxh ct'"
      "ct_map ct' = (if card (dom (ct_map ct)) < length (slab ct) then (ct_map ct)(key \<mapsto> (b, now)) else ct_map ct)"
      "length (slab ct') = length (slab ct)"
    using conntrack_insert_inv [OF assms, of b now] by blast
  moreover have "unat (conntrack_active_flows ct') = card (dom (ct_map ct'))"
    using ct_flows_length [OF ct'(2)] by (simp add: conntrack_active_flows_def)
  ultimately show ?thesis by blast
qed

theorem conntrack_insert_refines_witness:
  "\<exists>ct'. conntrack_insert demo_xxh demo_ct demo_key2 2 160 = Some (ct', True) \<and>
    ct_inv demo_xxh ct' \<and> ct_map ct' demo_key2 = Some (2, 160) \<and> ct_map ct' demo_key = Some (1, 100)"
proof -
  have "card (dom (ct_map demo_ct)) = 1"
    using ct_flows_length [OF demo_ct_inv] by (simp add: demo_ct_def)
  moreover have "length (slab demo_ct) = 2" "demo_key \<noteq> demo_key2"
    by (simp_all add: demo_ct_def demo_key2_def demo_key_def)
  ultimately show ?thesis
    using conntrack_insert_refines [OF demo_ct_inv demo_ct_map(2), of 2 160] by (auto simp: demo_ct_map)
qed

text \<open>C9. A sweep terminates and removes exactly the flows that sit in one of the buckets of
  its window, from the cursor on and wrapping around, and have been idle for longer than the
  timeout of their protocol in 64-bit arithmetic. Every removed flow is counted and reported
  once to the eviction callback, every other flow is kept unchanged, and the cursor moves past
  the window.\<close>

theorem conntrack_reap_exact:
  assumes "ct_inv xxh ct"
  shows "\<exists>ct' evs.
    conntrack_reap_slice ct now tcp udp max_buckets on_evict w =
      Some (ct', word_of_nat (length evs), evict_all on_evict evs w) \<and>
    ct_inv xxh ct' \<and> mset evs + mset (ct_flows ct') = mset (ct_flows ct) \<and>
    ct_map ct' = (\<lambda>k. case ct_map ct k of None \<Rightarrow> None
      | Some d \<Rightarrow>
        if bucket_idx xxh ct k \<in> sweep_window (unat (bucket_count ct)) (unat (sweep_cursor ct))
             (min (unat max_buckets) (unat (bucket_count ct))) \<and> flow_expired now tcp udp (k, d)
        then None else Some d) \<and>
    unat (sweep_cursor ct') =
      (unat (sweep_cursor ct) + min (unat max_buckets) (unat (bucket_count ct))) mod unat (bucket_count ct)"
proof -
  let ?B = "sweep_window (unat (bucket_count ct)) (unat (sweep_cursor ct))
    (min (unat max_buckets) (unat (bucket_count ct)))"
  obtain ct' evs where ct': "conntrack_reap_slice ct now tcp udp max_buckets on_evict w =
        Some (ct', word_of_nat (length evs), evict_all on_evict evs w)"
      "reap_effect xxh (flow_expired now tcp udp) ?B ct evs ct'"
      "unat (sweep_cursor ct') =
        (unat (sweep_cursor ct) + min (unat max_buckets) (unat (bucket_count ct))) mod unat (bucket_count ct)"
    using conntrack_reap_slice_effect [OF assms, of now tcp udp max_buckets on_evict w] by blast
  moreover have "ct_inv xxh ct'" "mset evs + mset (ct_flows ct') = mset (ct_flows ct)"
    using ct'(2) by (simp_all add: reap_effect_def)
  ultimately show ?thesis using reap_effect_map [OF assms ct'(2)] by blast
qed

theorem conntrack_reap_exact_witness:
  "\<exists>ct' reaped.
    conntrack_reap_slice demo_ct 200 50 50 1 None () = Some (ct', reaped, ()) \<and>
    ct_inv demo_xxh ct' \<and> ct_map ct' demo_key = None"
proof -
  have "bucket_idx demo_xxh demo_ct demo_key \<in> sweep_window (unat (bucket_count demo_ct))
      (unat (sweep_cursor demo_ct)) (min (unat (1 :: u64)) (unat (bucket_count demo_ct))) \<and>
    flow_expired 200 50 50 (demo_key, 1, 100)"
    by code_simp
  moreover obtain ct' evs where ct':
      "conntrack_reap_slice demo_ct 200 50 50 1 None () =
        Some (ct', word_of_nat (length evs), evict_all None evs ())"
      "ct_inv demo_xxh ct'"
      "ct_map ct' = (\<lambda>k. case ct_map demo_ct k of None \<Rightarrow> None
        | Some d \<Rightarrow>
          if bucket_idx demo_xxh demo_ct k \<in> sweep_window (unat (bucket_count demo_ct))
            (unat (sweep_cursor demo_ct)) (min (unat (1 :: u64)) (unat (bucket_count demo_ct))) \<and>
            flow_expired 200 50 50 (k, d)
          then None else Some d)"
    using conntrack_reap_exact [OF demo_ct_inv, of 200 50 50 1 None "()"] by blast
  ultimately have "ct_map ct' demo_key = None" by (simp add: demo_ct_map)
  with ct'(1,2) show ?thesis by auto
qed

text \<open>C8. Affinity. Once a flow is pinned, any history of packets of any flows, each with any
  backend proposed by the routing table of the moment, and of sweeps none of which finds the
  flow idle for too long, terminates, answers every packet of the flow with the backend it was
  pinned to, and leaves it pinned.\<close>

theorem conntrack_affinity:
  assumes "ct_inv xxh ct" "ct_map ct k = Some (b, t)" "never_expires ct_expired k b t ops"
  shows "\<exists>ct' rs t'.
    store_run (conntrack_lookup xxh) (conntrack_insert xxh) ct_sweep ops ct = Some (ct', rs) \<and>
    ct_inv xxh ct' \<and> ct_map ct' k = Some (b, t') \<and> {r. (k, r) \<in> set rs} \<subseteq> {Some b}"
  using ct_store.affinity [OF assms] by blast

theorem conntrack_affinity_witness:
  "\<exists>ct' rs t'.
    store_run (conntrack_lookup demo_xxh) (conntrack_insert demo_xxh) ct_sweep
      [Packet demo_key2 120 (Some 2), Packet demo_key 150 (Some 2),
       Sweep (180, 50, 50, 4, None, ()), Packet demo_key 190 (Some 3)] demo_ct = Some (ct', rs) \<and>
    ct_map ct' demo_key = Some (1, t') \<and> {r. (demo_key, r) \<in> set rs} \<subseteq> {Some 1}"
proof -
  have "never_expires ct_expired demo_key 1 100
      [Packet demo_key2 120 (Some 2), Packet demo_key 150 (Some 2),
       Sweep (180, 50, 50, 4, None, ()), Packet demo_key 190 (Some 3)]"
    by code_simp
  from conntrack_affinity [OF demo_ct_inv demo_ct_map(1) this] show ?thesis by blast
qed

text \<open>C21. Liveness of the reaper. With the number of buckets per tick the datapath configures,
  one sixtieth of the buckets and one more, any sixty consecutive ticks that all find a flow
  idle for too long remove it, wherever the cursor stands and whatever the bucket count.\<close>

theorem conntrack_idle_evicted:
  assumes "ct_inv xxh ct" "ct_map ct k = Some d" "length nows = 60"
    "\<forall>now \<in> set nows. flow_expired now tcp udp (k, d)"
  shows "\<exists>ct' w'. reap_ticks ct nows tcp udp (conntrack_bucket_count ct div 60 + 1) on_evict w =
      Some (ct', w') \<and> ct_inv xxh ct' \<and> ct_map ct' k = None"
proof -
  let ?m = "unat (bucket_count ct)" and ?n = "bucket_count ct div 60 + 1"
  note C = ct_inv_count [OF assms(1)]
  have "?m div 60 < 2 ^ 63" using C(3) by simp
  then have n: "unat ?n = ?m div 60 + 1" by (simp add: unat_word_ariths unat_div_distrib)
  have "bucket_idx xxh ct k \<in> sweep_window ?m (unat (sweep_cursor ct)) (60 * unat ?n)"
    using ticks_cover(2) [OF C(1)] C(1,4) by (simp add: sweep_window_full n)
  then show ?thesis
    using reap_ticks_window [OF assms(1), of ?n nows tcp udp k d on_evict w] assms(2-4)
      ticks_cover(1) [OF C(1)]
    by (auto simp: n conntrack_bucket_count_def)
qed

theorem conntrack_idle_evicted_witness:
  "\<exists>ct' w'. reap_ticks demo_ct (replicate 60 200) 50 50 (conntrack_bucket_count demo_ct div 60 + 1)
      None () = Some (ct', w') \<and> ct_map ct' demo_key = None"
proof -
  have "flow_expired 200 50 50 (demo_key, 1, 100)" by code_simp
  then show ?thesis
    using conntrack_idle_evicted [OF demo_ct_inv demo_ct_map(1), of "replicate 60 200" 50 50 None "()"]
    by auto
qed

text \<open>C22. For every capacity below \<open>2 ^ 50\<close>, whatever the allocations do and whatever bytes they
  return, \<open>conntrack_create\<close> terminates. When an allocation it needs fails it returns NULL.
  Otherwise it returns a well-formed empty table of exactly that capacity, and its number of
  buckets is the least power of two that keeps the load factor of a full table below three
  quarters: no rounding of the double precision arithmetic that sizes it shows.\<close>

theorem conntrack_create_correct:
  assumes "unat max_flows < 2 ^ 50"
  shows "if alloc Alloc_ct \<and> alloc Alloc_buckets \<and> (max_flows = 0 \<or> alloc Alloc_slab)
    then \<exists>ct k. conntrack_create alloc garbage max_flows = Some (Some ct) \<and> ct_inv xxh ct \<and>
      ct_map ct = Map.empty \<and> length (slab ct) = unat max_flows \<and> unat (conntrack_bucket_count ct) = 2 ^ k \<and>
      4 * unat max_flows < 3 * 2 ^ k \<and> (\<forall>j. 4 * unat max_flows < 3 * 2 ^ j \<longrightarrow> k \<le> j)
    else conntrack_create alloc garbage max_flows = Some None"
proof (cases "alloc Alloc_ct \<and> alloc Alloc_buckets \<and> (max_flows = 0 \<or> alloc Alloc_slab)")
  case True
  then obtain ct k where "conntrack_create alloc garbage max_flows = Some (Some ct)" "ct_inv xxh ct"
      "ct_flows ct = []" "length (slab ct) = unat max_flows" "unat (bucket_count ct) = 2 ^ k"
      "4 * unat max_flows < 3 * 2 ^ k" "\<forall>j. 4 * unat max_flows < 3 * 2 ^ j \<longrightarrow> k \<le> j"
    using conntrack_create_eq [OF assms, of alloc garbage xxh] by blast
  with True show ?thesis by (auto simp: ct_map_def conntrack_bucket_count_def)
next
  case False
  then show ?thesis using conntrack_create_fails [OF assms] by simp
qed

theorem conntrack_create_correct_witness:
  "\<exists>ct. conntrack_create (\<lambda>_. True) (\<lambda>_. hd (slab demo_ct)) 65536 = Some (Some ct) \<and>
    ct_inv demo_xxh ct \<and> ct_map ct = Map.empty \<and> length (slab ct) = 65536 \<and>
    unat (conntrack_bucket_count ct) = 131072"
proof -
  have n: "unat (65536 :: u64) < 2 ^ 50" by simp
  obtain ct k where c: "conntrack_create (\<lambda>_. True) (\<lambda>_. hd (slab demo_ct)) 65536 = Some (Some ct)"
      "ct_inv demo_xxh ct" "ct_map ct = Map.empty" "length (slab ct) = 65536"
      "unat (conntrack_bucket_count ct) = 2 ^ k" "4 * 65536 < 3 * (2 :: nat) ^ k"
      "\<forall>j. 4 * 65536 < 3 * (2 :: nat) ^ j \<longrightarrow> k \<le> j"
    using conntrack_create_correct [OF n, of "\<lambda>_. True" "\<lambda>_. hd (slab demo_ct)" demo_xxh] by auto
  have "k \<le> 17" using c(7) by simp
  moreover have "\<not> k \<le> 16"
  proof
    assume "k \<le> 16"
    then have "(2 :: nat) ^ k \<le> 2 ^ 16" by (rule power_increasing) simp
    then show False using c(6) by simp
  qed
  ultimately have "k = 17" by simp
  then show ?thesis using c by simp
qed

text \<open>C27. The sizing loop does not end for a capacity from \<open>0.75 * 2 ^ 63\<close> up to the largest one the
  command line accepts, \<open>2 ^ 63 - 1\<close>: the requested number of buckets is above \<open>2 ^ 63\<close>, the
  condition of the loop in \<open>next_pow2\<close> holds after every number of doublings, and neither \<open>next_pow2\<close>
  nor \<open>conntrack_create\<close>, once its first allocation succeeds, returns.\<close>

theorem conntrack_create_hangs:
  assumes "3 * 2 ^ 61 \<le> unat max_flows" "unat max_flows < 2 ^ 63" "alloc Alloc_ct"
  shows "\<exists>q. f64_to_u64 (f64_div (f64_of_u64 max_flows) (3, - 2)) = Some q \<and>
    (\<forall>i. (push_bit 1 ^^ i) 1 < q + 1) \<and> next_pow2 (q + 1) = None \<and>
    conntrack_create alloc garbage max_flows = None"
proof -
  obtain q where q: "f64_to_u64 (f64_div (f64_of_u64 max_flows) (3, - 2)) = Some q" "2 ^ 63 < unat (q + 1)"
    using f64_div_three_quarters_large [OF assms(1,2)] by blast
  have "next_pow2 (q + 1) = None"
    unfolding next_pow2_def by (rule next_pow2_from_diverges [OF q(2)]) (auto intro!: exI [of _ 0])
  then show ?thesis
    using q(1) doubling_stays_below [OF q(2)] assms(3) by (simp add: conntrack_create_def)
qed

theorem conntrack_create_hangs_witness:
  "conntrack_create (\<lambda>_. True) (\<lambda>_. hd (slab demo_ct)) 0x7FFFFFFFFFFFFFFF = None"
  using conntrack_create_hangs [of "0x7FFFFFFFFFFFFFFF" "\<lambda>_. True" "\<lambda>_. hd (slab demo_ct)"] by auto

end
