(* ===== verification/Backend_Manager.thy ===== *)
theory Backend_Manager
  imports Net_Headers
begin

text \<open>
  \<open>src/backend/backend_manager.c\<close>: the registry of at most 64 backends, its mutators, the
  change callback and the three filtered snapshots. Each public operation takes the mutex for
  its whole access to the registry, so it is one atomic step here; the callback runs after the
  mutex is released and sees the changed registry. The callback and the state \<open>w\<close> it changes
  are a field of the manager; a callback that does not return makes the operation \<open>None\<close>.
\<close>

section \<open>Data\<close>

definition BACKEND_MAX :: nat where "BACKEND_MAX = 64"

datatype backend_admin_state = BACKEND_ENABLED | BACKEND_DRAINING | BACKEND_DISABLED

record backend =
  be_id :: u32
  be_addr :: u32
  be_port :: u16
  be_mac :: "u8 list"
  mac_resolved :: bool
  healthy :: bool
  admin_state :: backend_admin_state

record bm_slots =
  bm_backends :: "backend list"
  slot_used :: "bool list"
  next_id :: u32

text \<open>The callback receives the registry through the pointer it was registered with.\<close>

record 'w backend_manager = bm_slots +
  bm_cb :: "(bm_slots \<Rightarrow> 'w \<Rightarrow> 'w option) option"

definition zero_backend :: backend where
  "zero_backend = \<lparr>be_id = 0, be_addr = 0, be_port = 0, be_mac = replicate ETH_ADDR_LEN 0,
     mac_resolved = False, healthy = False, admin_state = BACKEND_ENABLED\<rparr>"

section \<open>Operations\<close>

definition backend_manager_create :: "bool \<Rightarrow> 'w backend_manager option" where
  "backend_manager_create alloc_ok =
     (if \<not> alloc_ok then None
      else Some \<lparr>bm_backends = replicate BACKEND_MAX zero_backend,
        slot_used = replicate BACKEND_MAX False, next_id = 0, bm_cb = None\<rparr>)"

definition notify :: "'w backend_manager \<Rightarrow> 'w \<Rightarrow> 'w option" where
  "notify bm w = (case bm_cb bm of None \<Rightarrow> Some w | Some cb \<Rightarrow> cb (bm_slots.truncate bm) w)"

definition find_slot :: "'z bm_slots_scheme \<Rightarrow> u32 \<Rightarrow> nat option" where
  "find_slot bm bid =
     find (\<lambda>i. slot_used bm ! i \<and> be_id (bm_backends bm ! i) = bid) [0..<BACKEND_MAX]"

definition find_free_slot :: "'z bm_slots_scheme \<Rightarrow> nat option" where
  "find_free_slot bm = find (\<lambda>i. \<not> slot_used bm ! i) [0..<BACKEND_MAX]"

text \<open>The id counter wraps; the id \<open>UINT32_MAX\<close> doubles as the error value.\<close>

definition backend_manager_add ::
  "'w backend_manager \<Rightarrow> u32 \<Rightarrow> u16 \<Rightarrow> 'w \<Rightarrow> ('w backend_manager \<times> u32 \<times> 'w) option" where
  "backend_manager_add bm addr port w =
     (let (bm, bid) =
        (case find_free_slot bm of
           None \<Rightarrow> (bm, UINT32_MAX)
         | Some i \<Rightarrow>
           (bm\<lparr>slot_used := (slot_used bm)[i := True], next_id := next_id bm + 1,
               bm_backends := (bm_backends bm)[i := zero_backend\<lparr>be_id := next_id bm,
                 be_addr := addr, be_port := port, mac_resolved := False, healthy := True,
                 admin_state := BACKEND_ENABLED\<rparr>]\<rparr>, next_id bm)) in
      if bid \<noteq> UINT32_MAX then do { w \<leftarrow> notify bm w; Some (bm, bid, w) }
      else Some (bm, bid, w))"

definition backend_manager_remove ::
  "'w backend_manager \<Rightarrow> u32 \<Rightarrow> 'w \<Rightarrow> ('w backend_manager \<times> int \<times> 'w) option" where
  "backend_manager_remove bm bid w =
     (case find_slot bm bid of
        None \<Rightarrow> Some (bm, - 1, w)
      | Some i \<Rightarrow>
        let bm = bm\<lparr>slot_used := (slot_used bm)[i := False]\<rparr> in
        do { w \<leftarrow> notify bm w; Some (bm, 0, w) })"

definition backend_manager_set_health ::
  "'w backend_manager \<Rightarrow> u32 \<Rightarrow> bool \<Rightarrow> 'w \<Rightarrow> ('w backend_manager \<times> bool \<times> 'w) option" where
  "backend_manager_set_health bm bid h w =
     (case find_slot bm bid of
        None \<Rightarrow> Some (bm, False, w)
      | Some i \<Rightarrow>
        if healthy (bm_backends bm ! i) \<noteq> h then
          let bm = bm\<lparr>bm_backends := (bm_backends bm)[i := (bm_backends bm ! i)\<lparr>healthy := h\<rparr>]\<rparr> in
          do { w \<leftarrow> notify bm w; Some (bm, True, w) }
        else Some (bm, False, w))"

definition backend_manager_set_admin_state ::
  "'w backend_manager \<Rightarrow> u32 \<Rightarrow> backend_admin_state \<Rightarrow> 'w \<Rightarrow>
     ('w backend_manager \<times> bool \<times> 'w) option" where
  "backend_manager_set_admin_state bm bid state w =
     (case find_slot bm bid of
        None \<Rightarrow> Some (bm, False, w)
      | Some i \<Rightarrow>
        if admin_state (bm_backends bm ! i) \<noteq> state then
          let bm = bm\<lparr>bm_backends :=
            (bm_backends bm)[i := (bm_backends bm ! i)\<lparr>admin_state := state\<rparr>]\<rparr> in
          do { w \<leftarrow> notify bm w; Some (bm, True, w) }
        else Some (bm, False, w))"

definition backend_manager_set_mac ::
  "'w backend_manager \<Rightarrow> u32 \<Rightarrow> u8 list \<Rightarrow> 'w \<Rightarrow> ('w backend_manager \<times> 'w) option" where
  "backend_manager_set_mac bm bid mac w =
     (case find_slot bm bid of
        None \<Rightarrow> Some (bm, w)
      | Some i \<Rightarrow>
        let bm = bm\<lparr>bm_backends := (bm_backends bm)[i := (bm_backends bm ! i)
          \<lparr>be_mac := take ETH_ADDR_LEN mac, mac_resolved := True\<rparr>]\<rparr> in
        do { w \<leftarrow> notify bm w; Some (bm, w) })"

definition backend_manager_subscribe ::
  "'w backend_manager \<Rightarrow> (bm_slots \<Rightarrow> 'w \<Rightarrow> 'w option) \<Rightarrow> 'w backend_manager" where
  "backend_manager_subscribe bm cb = bm\<lparr>bm_cb := Some cb\<rparr>"

text \<open>The snapshots scan the slots in order and stop when the output array is full.\<close>

definition snapshot_where ::
  "(backend \<Rightarrow> bool) \<Rightarrow> 'z bm_slots_scheme \<Rightarrow> nat \<Rightarrow> backend list" where
  "snapshot_where P bm out_cap =
     take out_cap (filter P (map (\<lambda>i. bm_backends bm ! i) (filter (\<lambda>i. slot_used bm ! i) [0..<BACKEND_MAX])))"

definition backend_eligible :: "backend \<Rightarrow> bool" where
  "backend_eligible b \<longleftrightarrow> admin_state b = BACKEND_ENABLED \<and> healthy b \<and> mac_resolved b"

definition backend_routable :: "backend \<Rightarrow> bool" where
  "backend_routable b \<longleftrightarrow> admin_state b \<noteq> BACKEND_DISABLED \<and> healthy b \<and> mac_resolved b"

definition backend_manager_snapshot_eligible :: "'z bm_slots_scheme \<Rightarrow> nat \<Rightarrow> backend list" where
  "backend_manager_snapshot_eligible bm out_cap = snapshot_where backend_eligible bm out_cap"

definition backend_manager_snapshot_routable :: "'z bm_slots_scheme \<Rightarrow> nat \<Rightarrow> backend list" where
  "backend_manager_snapshot_routable bm out_cap = snapshot_where backend_routable bm out_cap"

definition backend_manager_snapshot_all :: "'z bm_slots_scheme \<Rightarrow> nat \<Rightarrow> backend list" where
  "backend_manager_snapshot_all bm out_cap = snapshot_where (\<lambda>b. True) bm out_cap"

section \<open>The invariant and the abstraction\<close>

definition bm_used :: "'z bm_slots_scheme \<Rightarrow> nat list" where
  "bm_used bm = filter (\<lambda>i. slot_used bm ! i) [0..<BACKEND_MAX]"

text \<open>Ids are handed out in increasing order and never reused while the counter has not
  wrapped.\<close>

definition bm_inv :: "'z bm_slots_scheme \<Rightarrow> bool" where
  "bm_inv bm \<longleftrightarrow>
     length (bm_backends bm) = BACKEND_MAX \<and> length (slot_used bm) = BACKEND_MAX \<and>
     distinct (map (\<lambda>i. be_id (bm_backends bm ! i)) (bm_used bm)) \<and>
     (\<forall>i \<in> set (bm_used bm). be_id (bm_backends bm ! i) < next_id bm \<and>
        length (be_mac (bm_backends bm ! i)) = ETH_ADDR_LEN)"

text \<open>The registry as a map from ids to backends.\<close>

definition bm_map :: "'z bm_slots_scheme \<Rightarrow> u32 \<rightharpoonup> backend" where
  "bm_map bm bid = map_option (\<lambda>i. bm_backends bm ! i) (find_slot bm bid)"

lemma find_upt_Some:
  "find P [0..<n] = Some i \<Longrightarrow> i < n \<and> P i"
  by (auto simp: find_Some_iff)

lemma find_slot_SomeD:
  "find_slot bm bid = Some i \<Longrightarrow> i \<in> set (bm_used bm) \<and> be_id (bm_backends bm ! i) = bid \<and> i < BACKEND_MAX"
  unfolding find_slot_def bm_used_def by (auto dest: find_upt_Some)

lemma find_slot_None_iff:
  "find_slot bm bid = None \<longleftrightarrow> (\<forall>i \<in> set (bm_used bm). be_id (bm_backends bm ! i) \<noteq> bid)"
  by (auto simp: find_slot_def bm_used_def find_None_iff)

lemma bm_used_inj:
  assumes "bm_inv bm" "i \<in> set (bm_used bm)" "j \<in> set (bm_used bm)"
    "be_id (bm_backends bm ! i) = be_id (bm_backends bm ! j)"
  shows "i = j"
  using assms by (auto simp: bm_inv_def distinct_map dest: inj_onD)

lemma find_slot_used:
  assumes "bm_inv bm" "i \<in> set (bm_used bm)"
  shows "find_slot bm (be_id (bm_backends bm ! i)) = Some i"
proof (cases "find_slot bm (be_id (bm_backends bm ! i))")
  case None
  then show ?thesis using assms(2) by (auto simp: find_slot_None_iff)
next
  case (Some j)
  note j = find_slot_SomeD [OF Some]
  have "i = j" by (rule bm_used_inj [OF assms]) (use j in simp_all)
  with Some show ?thesis by simp
qed

lemma bm_map_Some_iff:
  assumes "bm_inv bm"
  shows "bm_map bm bid = Some b \<longleftrightarrow>
    (\<exists>i \<in> set (bm_used bm). bm_backends bm ! i = b \<and> be_id b = bid)"
proof
  assume "bm_map bm bid = Some b"
  then show "\<exists>i \<in> set (bm_used bm). bm_backends bm ! i = b \<and> be_id b = bid"
    by (auto simp: bm_map_def dest!: find_slot_SomeD)
next
  assume "\<exists>i \<in> set (bm_used bm). bm_backends bm ! i = b \<and> be_id b = bid"
  then show "bm_map bm bid = Some b" using find_slot_used [OF assms] by (auto simp: bm_map_def)
qed

lemma bm_map_id: "bm_map bm bid = Some b \<Longrightarrow> be_id b = bid"
  by (auto simp: bm_map_def dest: find_slot_SomeD)

text \<open>What a snapshot lists.\<close>

lemma set_snapshot_where:
  assumes "bm_inv bm"
  shows "set (snapshot_where P bm BACKEND_MAX) = {b \<in> ran (bm_map bm). P b}"
proof -
  have "length (filter P (map (\<lambda>i. bm_backends bm ! i) (bm_used bm))) \<le> BACKEND_MAX"
    unfolding bm_used_def
    by (rule le_trans [OF length_filter_le]) (simp, rule le_trans [OF length_filter_le], simp)
  then have "snapshot_where P bm BACKEND_MAX = filter P (map (\<lambda>i. bm_backends bm ! i) (bm_used bm))"
    by (simp add: snapshot_where_def bm_used_def)
  then show ?thesis by (auto simp: ran_def bm_map_Some_iff [OF assms])
qed

lemma distinct_snapshot_where:
  assumes "bm_inv bm"
  shows "distinct (map be_id (snapshot_where P bm n))"
proof -
  have "distinct (map be_id (map (\<lambda>i. bm_backends bm ! i) (bm_used bm)))"
    using assms by (simp add: bm_inv_def comp_def)
  then have "distinct (map be_id (filter P (map (\<lambda>i. bm_backends bm ! i) (bm_used bm))))"
    by (rule distinct_map_filter)
  then have "distinct (take n (map be_id (filter P (map (\<lambda>i. bm_backends bm ! i) (bm_used bm)))))"
    by (rule distinct_take)
  then show ?thesis by (simp add: snapshot_where_def bm_used_def take_map)
qed

section \<open>Refinement of the operations\<close>

lemma bm_map_eqI:
  assumes "bm_inv bm'"
    "\<And>bid b. (\<exists>i \<in> set (bm_used bm'). bm_backends bm' ! i = b \<and> be_id b = bid) \<longleftrightarrow> f bid = Some b"
  shows "bm_map bm' = f"
proof (rule ext)
  fix bid
  have "bm_map bm' bid = Some b \<longleftrightarrow> f bid = Some b" for b
    unfolding bm_map_Some_iff [OF assms(1)] by (rule assms(2))
  then show "bm_map bm' bid = f bid" by (metis not_Some_eq)
qed

lemma bm_used_less: "i \<in> set (bm_used bm) \<Longrightarrow> i < BACKEND_MAX"
  by (simp add: bm_used_def)

text \<open>Changing a used slot without touching its id.\<close>

lemma bm_update_slot:
  assumes I: "bm_inv bm" and f: "find_slot bm bid = Some i"
    and b: "be_id b = bid" "length (be_mac b) = ETH_ADDR_LEN"
  defines "bm' \<equiv> bm\<lparr>bm_backends := (bm_backends bm)[i := b]\<rparr>"
  shows "bm_inv bm'" "bm_map bm' = (bm_map bm)(bid \<mapsto> b)" "next_id bm' = next_id bm"
proof -
  note i = find_slot_SomeD [OF f]
  have len: "i < length (bm_backends bm)" using I i by (simp add: bm_inv_def)
  have used: "bm_used bm' = bm_used bm" by (simp add: bm'_def bm_used_def)
  have nth: "bm_backends bm' ! j = (if j = i then b else bm_backends bm ! j)" for j
    using len by (simp add: bm'_def)
  have idx: "be_id (bm_backends bm' ! j) = be_id (bm_backends bm ! j)" for j
    using i b by (simp add: nth)
  have mac: "length (be_mac (bm_backends bm' ! j)) = ETH_ADDR_LEN" if "j \<in> set (bm_used bm)" for j
    using I b that by (auto simp: nth bm_inv_def)
  show n: "next_id bm' = next_id bm" by (simp add: bm'_def)
  have l: "length (bm_backends bm') = length (bm_backends bm)" "slot_used bm' = slot_used bm"
    by (simp_all add: bm'_def)
  show I': "bm_inv bm'"
    using I mac unfolding bm_inv_def used idx n l by blast
  show "bm_map bm' = (bm_map bm)(bid \<mapsto> b)"
  proof (rule bm_map_eqI [OF I'])
    fix k c
    show "(\<exists>j \<in> set (bm_used bm'). bm_backends bm' ! j = c \<and> be_id c = k) \<longleftrightarrow>
        ((bm_map bm)(bid \<mapsto> b)) k = Some c"
    proof (cases "k = bid")
      case True
      have "j = i" if "j \<in> set (bm_used bm)" "be_id (bm_backends bm' ! j) = bid" for j
        using bm_used_inj [OF I, of j i] that i unfolding idx by simp
      then have "(\<exists>j \<in> set (bm_used bm). bm_backends bm' ! j = c \<and> be_id c = bid) \<longleftrightarrow> c = b"
        using i b nth by metis
      then show ?thesis using True unfolding used by auto
    next
      case False
      have "bm_backends bm' ! j = c \<and> be_id c = k \<longleftrightarrow> bm_backends bm ! j = c \<and> be_id c = k" for j
        using False b i by (auto simp: nth)
      then show ?thesis using False unfolding used by (simp add: bm_map_Some_iff [OF I])
    qed
  qed
qed

lemma bm_remove_slot:
  assumes I: "bm_inv bm" and f: "find_slot bm bid = Some i"
  defines "bm' \<equiv> bm\<lparr>slot_used := (slot_used bm)[i := False]\<rparr>"
  shows "bm_inv bm'" "bm_map bm' = (bm_map bm)(bid := None)" "next_id bm' = next_id bm"
proof -
  note i = find_slot_SomeD [OF f]
  have len: "length (slot_used bm) = BACKEND_MAX" using I by (simp add: bm_inv_def)
  have used: "bm_used bm' = filter (\<lambda>j. j \<noteq> i) (bm_used bm)"
    using i len by (auto simp: bm'_def bm_used_def nth_list_update intro!: filter_cong)
  have be: "bm_backends bm' = bm_backends bm" "next_id bm' = next_id bm" by (simp_all add: bm'_def)
  then show "next_id bm' = next_id bm" by simp
  show I': "bm_inv bm'"
    using I len unfolding bm_inv_def used be by (auto simp: distinct_map_filter bm'_def)
  show "bm_map bm' = (bm_map bm)(bid := None)"
  proof (rule bm_map_eqI [OF I'])
    fix k c
    have "j = i" if "j \<in> set (bm_used bm)" "be_id (bm_backends bm ! j) = bid" for j
      using bm_used_inj [OF I, of j i] that i by simp
    then show "(\<exists>j \<in> set (bm_used bm'). bm_backends bm' ! j = c \<and> be_id c = k) \<longleftrightarrow>
        ((bm_map bm)(bid := None)) k = Some c"
      using i unfolding used be by (auto simp: bm_map_Some_iff [OF I])
  qed
qed

lemma card_bm_map:
  assumes "bm_inv bm"
  shows "card (dom (bm_map bm)) = length (bm_used bm)"
proof -
  have "dom (bm_map bm) = set (map (\<lambda>i. be_id (bm_backends bm ! i)) (bm_used bm))"
    by (auto simp: dom_def bm_map_Some_iff [OF assms])
  then show ?thesis using assms distinct_card [of "map (\<lambda>i. be_id (bm_backends bm ! i)) (bm_used bm)"]
    by (simp add: bm_inv_def)
qed

lemma find_free_slot_None_iff:
  assumes "bm_inv bm"
  shows "find_free_slot bm = None \<longleftrightarrow> \<not> card (dom (bm_map bm)) < BACKEND_MAX"
proof -
  have "find_free_slot bm = None \<longleftrightarrow> filter (\<lambda>i. slot_used bm ! i) [0..<BACKEND_MAX] = [0..<BACKEND_MAX]"
    by (auto simp: find_free_slot_def find_None_iff filter_id_conv)
  also have "\<dots> \<longleftrightarrow> length (bm_used bm) = BACKEND_MAX"
    unfolding bm_used_def by (metis diff_zero filter_id_conv length_filter_less length_upt less_irrefl)
  also have "\<dots> \<longleftrightarrow> \<not> card (dom (bm_map bm)) < BACKEND_MAX"
    using length_filter_le [of "\<lambda>i. slot_used bm ! i" "[0..<BACKEND_MAX]"]
    unfolding card_bm_map [OF assms] bm_used_def by auto
  finally show ?thesis .
qed

lemma bm_add_slot:
  assumes I: "bm_inv bm" and f: "find_free_slot bm = Some i" and n: "next_id bm \<noteq> UINT32_MAX"
    and b: "be_id b = next_id bm" "length (be_mac b) = ETH_ADDR_LEN"
  defines "bm' \<equiv> bm\<lparr>slot_used := (slot_used bm)[i := True], next_id := next_id bm + 1,
      bm_backends := (bm_backends bm)[i := b]\<rparr>"
  shows "bm_inv bm'" "bm_map bm' = (bm_map bm)(next_id bm \<mapsto> b)"
proof -
  have i: "i < BACKEND_MAX" "\<not> slot_used bm ! i" using f by (auto simp: find_free_slot_def dest: find_upt_Some)
  have len: "length (bm_backends bm) = BACKEND_MAX" "length (slot_used bm) = BACKEND_MAX"
    using I by (simp_all add: bm_inv_def)
  have iu: "i \<notin> set (bm_used bm)" using i by (simp add: bm_used_def)
  have used: "set (bm_used bm') = insert i (set (bm_used bm))"
    using i len by (auto simp: bm'_def bm_used_def nth_list_update)
  have dist: "distinct (bm_used bm')" by (simp add: bm_used_def)
  have nth: "bm_backends bm' ! j = (if j = i then b else bm_backends bm ! j)" for j
    using i len by (simp add: bm'_def)
  have old: "be_id (bm_backends bm ! j) < next_id bm" "length (be_mac (bm_backends bm ! j)) = ETH_ADDR_LEN"
    if "j \<in> set (bm_used bm)" for j
    using I that by (auto simp: bm_inv_def)
  have inc: "next_id bm < next_id bm + 1"
    using unat_inc [OF n] by (simp add: word_less_nat_alt)
  have l: "length (bm_backends bm') = length (bm_backends bm)" "length (slot_used bm') = length (slot_used bm)"
    by (simp_all add: bm'_def)
  have nid: "next_id bm' = next_id bm + 1" by (simp add: bm'_def)
  have "inj_on (\<lambda>j. be_id (bm_backends bm' ! j)) (set (bm_used bm'))"
  proof (rule inj_onI)
    fix j k assume jk: "j \<in> set (bm_used bm')" "k \<in> set (bm_used bm')"
      "be_id (bm_backends bm' ! j) = be_id (bm_backends bm' ! k)"
    show "j = k"
      using jk old(1) [of j] old(1) [of k] bm_used_inj [OF I, of j k] b
      unfolding used nth by (auto split: if_splits)
  qed
  moreover have "be_id (bm_backends bm' ! j) < next_id bm' \<and> length (be_mac (bm_backends bm' ! j)) = ETH_ADDR_LEN"
    if "j \<in> set (bm_used bm')" for j
  proof (cases "j = i")
    case True
    then show ?thesis using b inc by (simp add: nth nid)
  next
    case False
    then have "j \<in> set (bm_used bm)" using that used by simp
    then show ?thesis using False old [of j] inc by (auto simp: nth nid intro: less_trans)
  qed
  ultimately show I': "bm_inv bm'"
    using len dist l unfolding bm_inv_def distinct_map by simp
  show "bm_map bm' = (bm_map bm)(next_id bm \<mapsto> b)"
  proof (rule bm_map_eqI [OF I'])
    fix k c
    show "(\<exists>j \<in> set (bm_used bm'). bm_backends bm' ! j = c \<and> be_id c = k) \<longleftrightarrow>
        ((bm_map bm)(next_id bm \<mapsto> b)) k = Some c"
    proof (cases "k = next_id bm")
      case True
      have "be_id (bm_backends bm ! j) \<noteq> next_id bm" if "j \<in> set (bm_used bm)" for j
        using old(1) [OF that] by simp
      then have "(\<exists>j \<in> set (bm_used bm'). bm_backends bm' ! j = c \<and> be_id c = next_id bm) \<longleftrightarrow> c = b"
        using b iu nth unfolding used by (metis insert_iff)
      then show ?thesis using True by auto
    next
      case False
      have "(\<exists>j \<in> set (bm_used bm'). bm_backends bm' ! j = c \<and> be_id c = k) \<longleftrightarrow>
          (\<exists>j \<in> set (bm_used bm). bm_backends bm ! j = c \<and> be_id c = k)"
        using False b iu nth unfolding used by (metis insert_iff)
      then show ?thesis using False by (simp add: bm_map_Some_iff [OF I])
    qed
  qed
qed

section \<open>Sequences of operations\<close>

datatype bm_op =
  Op_add u32 u16 | Op_remove u32 | Op_set_health u32 bool
| Op_set_admin_state u32 backend_admin_state | Op_set_mac u32 "u8 list"

fun bm_exec :: "bm_op \<Rightarrow> 'w backend_manager \<Rightarrow> 'w \<Rightarrow> ('w backend_manager \<times> 'w) option" where
  "bm_exec (Op_add addr port) bm w = map_option (\<lambda>(bm, _, w). (bm, w)) (backend_manager_add bm addr port w)"
| "bm_exec (Op_remove i) bm w = map_option (\<lambda>(bm, _, w). (bm, w)) (backend_manager_remove bm i w)"
| "bm_exec (Op_set_health i h) bm w =
     map_option (\<lambda>(bm, _, w). (bm, w)) (backend_manager_set_health bm i h w)"
| "bm_exec (Op_set_admin_state i st) bm w =
     map_option (\<lambda>(bm, _, w). (bm, w)) (backend_manager_set_admin_state bm i st w)"
| "bm_exec (Op_set_mac i mac) bm w = backend_manager_set_mac bm i mac w"

text \<open>The specification: a finite map of at most 64 backends and the next id. The result is
  \<open>None\<close> where nothing changes and no callback is due.\<close>

definition new_backend :: "u32 \<Rightarrow> u32 \<Rightarrow> u16 \<Rightarrow> backend" where
  "new_backend i addr port = \<lparr>be_id = i, be_addr = addr, be_port = port,
     be_mac = replicate ETH_ADDR_LEN 0, mac_resolved = False, healthy = True,
     admin_state = BACKEND_ENABLED\<rparr>"

fun spec_exec :: "bm_op \<Rightarrow> (u32 \<rightharpoonup> backend) \<times> u32 \<Rightarrow> ((u32 \<rightharpoonup> backend) \<times> u32) option" where
  "spec_exec (Op_add addr port) (f, n) =
     (if card (dom f) < BACKEND_MAX then Some (f(n \<mapsto> new_backend n addr port), n + 1) else None)"
| "spec_exec (Op_remove i) (f, n) = (case f i of None \<Rightarrow> None | Some b \<Rightarrow> Some (f(i := None), n))"
| "spec_exec (Op_set_health i h) (f, n) =
     (case f i of None \<Rightarrow> None
      | Some b \<Rightarrow> if healthy b = h then None else Some (f(i \<mapsto> b\<lparr>healthy := h\<rparr>), n))"
| "spec_exec (Op_set_admin_state i st) (f, n) =
     (case f i of None \<Rightarrow> None
      | Some b \<Rightarrow> if admin_state b = st then None else Some (f(i \<mapsto> b\<lparr>admin_state := st\<rparr>), n))"
| "spec_exec (Op_set_mac i mac) (f, n) =
     (case f i of None \<Rightarrow> None
      | Some b \<Rightarrow> Some (f(i \<mapsto> b\<lparr>be_mac := mac, mac_resolved := True\<rparr>), n))"

fun bm_op_ok :: "bm_op \<Rightarrow> bool" where
  "bm_op_ok (Op_set_mac i mac) \<longleftrightarrow> length mac = ETH_ADDR_LEN"
| "bm_op_ok op \<longleftrightarrow> True"

lemma bind_Some_map: "Option.bind x (\<lambda>y. Some (h y)) = map_option h x"
  by (cases x) simp_all

lemma bm_map_None_iff: "bm_map bm i = None \<longleftrightarrow> find_slot bm i = None"
  by (simp add: bm_map_def)

lemma bm_map_SomeD:
  assumes "bm_inv bm" "bm_map bm i = Some b"
  obtains j where "find_slot bm i = Some j" "bm_backends bm ! j = b" "be_id b = i"
    "length (be_mac b) = ETH_ADDR_LEN"
proof -
  obtain j where j: "find_slot bm i = Some j" "bm_backends bm ! j = b"
    using assms(2) by (auto simp: bm_map_def)
  with find_slot_SomeD [OF j(1)] assms(1) show thesis by (intro that [of j]) (auto simp: bm_inv_def)
qed

lemma bm_exec_spec_None:
  assumes "bm_inv bm" "spec_exec op (bm_map bm, next_id bm) = None"
  shows "bm_exec op bm w = Some (bm, w)"
proof (cases op)
  case (Op_add addr port)
  then show ?thesis
    using assms find_free_slot_None_iff [OF assms(1)]
    by (auto simp: backend_manager_add_def split: if_splits)
next
  case (Op_remove i)
  then show ?thesis using assms(2)
    by (auto simp: backend_manager_remove_def bm_map_None_iff split: option.splits)
next
  case (Op_set_health i h)
  then show ?thesis using assms(2)
    by (auto simp: backend_manager_set_health_def bm_map_def split: option.splits if_splits)
next
  case (Op_set_admin_state i st)
  then show ?thesis using assms(2)
    by (auto simp: backend_manager_set_admin_state_def bm_map_def split: option.splits if_splits)
next
  case (Op_set_mac i mac)
  then show ?thesis using assms(2)
    by (auto simp: backend_manager_set_mac_def bm_map_None_iff split: option.splits)
qed

lemma bm_exec_spec_Some:
  assumes I: "bm_inv bm" and n: "next_id bm \<noteq> UINT32_MAX" and ok: "bm_op_ok op"
    and s: "spec_exec op (bm_map bm, next_id bm) = Some (f, k)"
  shows "\<exists>bm'. bm_exec op bm w = map_option (\<lambda>w. (bm', w)) (notify bm' w) \<and>
    bm_inv bm' \<and> bm_map bm' = f \<and> next_id bm' = k \<and> bm_cb bm' = bm_cb bm"
proof (cases op)
  case (Op_add addr port)
  then obtain i where i: "find_free_slot bm = Some i"
    using s find_free_slot_None_iff [OF I] by (cases "find_free_slot bm") (auto split: if_splits)
  have nb: "zero_backend\<lparr>be_id := next_id bm, be_addr := addr, be_port := port, mac_resolved := False,
      healthy := True, admin_state := BACKEND_ENABLED\<rparr> = new_backend (next_id bm) addr port"
    by (simp add: zero_backend_def new_backend_def)
  show ?thesis
    using s n i bm_add_slot [OF I i n, of "new_backend (next_id bm) addr port"] Op_add
    by (auto simp: backend_manager_add_def nb bind_Some_map option.map_comp comp_def new_backend_def
        split: if_splits intro!: exI)
next
  case (Op_remove i)
  then obtain b where b: "bm_map bm i = Some b" using s by (auto split: option.splits)
  obtain j where j: "find_slot bm i = Some j" using bm_map_SomeD [OF I b] by blast
  show ?thesis
    using s b bm_remove_slot [OF I j] Op_remove j
    by (auto simp: backend_manager_remove_def Let_def bind_Some_map option.map_comp comp_def intro!: exI)
next
  case (Op_set_health i h)
  then obtain b where b: "bm_map bm i = Some b" "healthy b \<noteq> h" using s by (auto split: option.splits if_splits)
  obtain j where j: "find_slot bm i = Some j" "bm_backends bm ! j = b" "be_id b = i"
      "length (be_mac b) = ETH_ADDR_LEN"
    using bm_map_SomeD [OF I b(1)] by blast
  show ?thesis
    using s b bm_update_slot [OF I j(1), of "b\<lparr>healthy := h\<rparr>"] Op_set_health j
    by (auto simp: backend_manager_set_health_def Let_def bind_Some_map option.map_comp comp_def intro!: exI)
next
  case (Op_set_admin_state i st)
  then obtain b where b: "bm_map bm i = Some b" "admin_state b \<noteq> st" using s by (auto split: option.splits if_splits)
  obtain j where j: "find_slot bm i = Some j" "bm_backends bm ! j = b" "be_id b = i"
      "length (be_mac b) = ETH_ADDR_LEN"
    using bm_map_SomeD [OF I b(1)] by blast
  show ?thesis
    using s b bm_update_slot [OF I j(1), of "b\<lparr>admin_state := st\<rparr>"] Op_set_admin_state j
    by (auto simp: backend_manager_set_admin_state_def Let_def bind_Some_map option.map_comp comp_def intro!: exI)
next
  case (Op_set_mac i mac)
  then obtain b where b: "bm_map bm i = Some b" using s by (auto split: option.splits)
  obtain j where j: "find_slot bm i = Some j" "bm_backends bm ! j = b" "be_id b = i"
      "length (be_mac b) = ETH_ADDR_LEN"
    using bm_map_SomeD [OF I b(1)] by blast
  show ?thesis
    using s b bm_update_slot [OF I j(1), of "b\<lparr>be_mac := mac, mac_resolved := True\<rparr>"] Op_set_mac j ok
    by (auto simp: backend_manager_set_mac_def Let_def bind_Some_map option.map_comp comp_def intro!: exI)
qed


section \<open>Properties\<close>

fun bm_run :: "bm_op list \<Rightarrow> 'w backend_manager \<Rightarrow> 'w \<Rightarrow> ('w backend_manager \<times> 'w) option" where
  "bm_run [] bm w = Some (bm, w)"
| "bm_run (op # ops) bm w = do { (bm, w) \<leftarrow> bm_exec op bm w; bm_run ops bm w }"

fun spec_run :: "bm_op list \<Rightarrow> (u32 \<rightharpoonup> backend) \<times> u32 \<Rightarrow> (u32 \<rightharpoonup> backend) \<times> u32" where
  "spec_run [] s = s"
| "spec_run (op # ops) s = spec_run ops (case spec_exec op s of None \<Rightarrow> s | Some s' \<Rightarrow> s')"

lemma spec_exec_next_id:
  "spec_exec op (f, n) = Some (f', n') \<Longrightarrow> n' = n \<or> n' = n + 1"
  by (cases op) (auto split: option.splits if_splits)

lemma bm_create_inv:
  assumes "backend_manager_create True = Some bm"
  shows "bm_inv bm" "bm_map bm = Map.empty" "next_id bm = 0" "bm_cb bm = None"
proof -
  have "bm_used bm = []"
    using assms by (auto simp: backend_manager_create_def bm_used_def filter_empty_conv)
  then show "bm_inv bm" "bm_map bm = Map.empty" "next_id bm = 0" "bm_cb bm = None"
    using assms find_slot_None_iff [of bm]
    by (auto simp: backend_manager_create_def bm_inv_def bm_map_def)
qed

text \<open>A run with a subscriber: the callback keeps its world well-formed (\<open>ok\<close>) and brings it up to
  date with the registry (\<open>current\<close>); so the world is current after every run.\<close>

lemma bm_run_callback:
  assumes "bm_inv bm" "list_all bm_op_ok ops" "unat (next_id bm) + length ops < 2 ^ 32"
    "\<And>bm' w. bm_inv bm' \<Longrightarrow> bm_cb bm' = bm_cb bm \<Longrightarrow> ok w \<Longrightarrow>
       \<exists>w'. notify bm' w = Some w' \<and> ok w' \<and> current bm' w'"
    "ok w" "current bm w"
  shows "\<exists>bm' w'. bm_run ops bm w = Some (bm', w') \<and> bm_inv bm' \<and>
    (bm_map bm', next_id bm') = spec_run ops (bm_map bm, next_id bm) \<and> ok w' \<and> current bm' w'"
  using assms
proof (induction ops arbitrary: bm w)
  case (Cons op ops)
  have l: "list_all bm_op_ok ops" using Cons.prems(2) by simp
  show ?case
  proof (cases "spec_exec op (bm_map bm, next_id bm)")
    case None
    have n: "unat (next_id bm) + length ops < 2 ^ 32" using Cons.prems(3) by simp
    show ?thesis
      using Cons.IH [OF Cons.prems(1) l n Cons.prems(4-6)]
      by (simp add: bm_exec_spec_None [OF Cons.prems(1) None] None)
  next
    case (Some s')
    obtain f k where s': "s' = (f, k)" by (cases s')
    have nm: "next_id bm \<noteq> UINT32_MAX"
      using Cons.prems(3) by (auto simp: unsigned_minus_1_eq_mask mask_eq_exp_minus_1)
    obtain bm1 where bm1: "bm_exec op bm w = map_option (\<lambda>w. (bm1, w)) (notify bm1 w)" "bm_inv bm1"
        "bm_map bm1 = f" "next_id bm1 = k" "bm_cb bm1 = bm_cb bm"
      using bm_exec_spec_Some [OF Cons.prems(1) nm, of op f k w] Cons.prems(2) Some s' by auto
    obtain w1 where w1: "notify bm1 w = Some w1" "ok w1" "current bm1 w1"
      using Cons.prems(4) [OF bm1(2,5) Cons.prems(5)] by blast
    have "unat k \<le> unat (next_id bm) + 1"
      using spec_exec_next_id [of op "bm_map bm" "next_id bm" f k] Some s' unat_inc [OF nm] by auto
    then have n: "unat (next_id bm1) + length ops < 2 ^ 32" using Cons.prems(3) bm1(4) by simp
    have cb: "\<exists>w'. notify bm' w = Some w' \<and> ok w' \<and> current bm' w'"
      if "bm_inv bm'" "bm_cb bm' = bm_cb bm1" "ok w" for bm' w
      by (rule Cons.prems(4)) (use that bm1(5) in simp_all)
    show ?thesis
      using Cons.IH [OF bm1(2) l n cb w1(2,3)] by (simp add: bm1 w1(1) Some s')
  qed
next
  case Nil
  show ?case using Nil(1,5,6) by simp
qed

lemma bm_run_refines:
  assumes "bm_inv bm" "list_all bm_op_ok ops" "unat (next_id bm) + length ops < 2 ^ 32"
    "\<forall>cb. bm_cb bm = Some cb \<longrightarrow> (\<forall>b w. cb b w \<noteq> None)"
  shows "\<exists>bm' w'. bm_run ops bm w = Some (bm', w') \<and> bm_inv bm' \<and>
    (bm_map bm', next_id bm') = spec_run ops (bm_map bm, next_id bm)"
proof -
  have "\<exists>w'. notify bm' w = Some w' \<and> True \<and> True" if "bm_cb bm' = bm_cb bm" for bm' :: "'a backend_manager" and w
    using assms(4) that by (auto simp: notify_def split: option.splits)
  then show ?thesis
    using bm_run_callback [OF assms(1-3), of "\<lambda>w. True" "\<lambda>bm w. True" w] by simp
qed

section \<open>The interface of a subscriber\<close>

text \<open>What a mutator of the registry relies on in its callback: on a well-formed registry it
  returns and keeps its own state well-formed. Under it every change of one backend goes
  through and has its effect on the map.\<close>

lemma bm_inv_truncate [simp]: "bm_inv (bm_slots.truncate bm) = bm_inv bm"
  by (simp add: bm_inv_def bm_used_def bm_slots.defs)

locale subscriber =
  fixes cb :: "bm_slots \<Rightarrow> 'w \<Rightarrow> 'w option"
    and ok :: "'w \<Rightarrow> bool"
  assumes cb_total: "bm_inv s \<Longrightarrow> ok w \<Longrightarrow> \<exists>w'. cb s w = Some w' \<and> ok w'"
begin

lemma notify_ok:
  assumes "bm_inv bm" "bm_cb bm = Some cb" "ok w"
  shows "\<exists>w'. notify bm w = Some w' \<and> ok w'"
  using cb_total [of "bm_slots.truncate bm" w] assms by (simp add: notify_def)

lemma update_ok:
  assumes I: "bm_inv bm" and cb: "bm_cb bm = Some cb" and w: "ok w"
    and i: "find_slot bm bid = Some i"
    and b: "be_id b = bid" "length (be_mac b) = ETH_ADDR_LEN"
  shows "\<exists>w'. notify (bm\<lparr>bm_backends := (bm_backends bm)[i := b]\<rparr>) w = Some w' \<and> ok w'"
    and "bm_inv (bm\<lparr>bm_backends := (bm_backends bm)[i := b]\<rparr>)"
    and "bm_map (bm\<lparr>bm_backends := (bm_backends bm)[i := b]\<rparr>) = (bm_map bm)(bid \<mapsto> b)"
proof -
  note u = bm_update_slot [OF I i b]
  show "bm_inv (bm\<lparr>bm_backends := (bm_backends bm)[i := b]\<rparr>)" by (rule u(1))
  show "bm_map (bm\<lparr>bm_backends := (bm_backends bm)[i := b]\<rparr>) = (bm_map bm)(bid \<mapsto> b)" by (rule u(2))
  show "\<exists>w'. notify (bm\<lparr>bm_backends := (bm_backends bm)[i := b]\<rparr>) w = Some w' \<and> ok w'"
    by (rule notify_ok) (use u(1) cb w in simp_all)
qed

lemma slot_backend:
  assumes "bm_inv bm" "find_slot bm bid = Some i"
  shows "bm_map bm bid = Some (bm_backends bm ! i)" "be_id (bm_backends bm ! i) = bid"
    "length (be_mac (bm_backends bm ! i)) = ETH_ADDR_LEN"
  using assms find_slot_SomeD [OF assms(2)] by (auto simp: bm_map_def bm_inv_def)

lemma set_health_ok:
  assumes I: "bm_inv bm" and cb: "bm_cb bm = Some cb" and w: "ok w"
  shows "\<exists>bm' r w'. backend_manager_set_health bm bid h w = Some (bm', r, w') \<and> bm_inv bm' \<and>
    bm_map bm' = (bm_map bm)(bid := map_option (\<lambda>b. b\<lparr>healthy := h\<rparr>) (bm_map bm bid)) \<and>
    next_id bm' = next_id bm \<and> bm_cb bm' = Some cb \<and> ok w'"
proof (cases "find_slot bm bid")
  case None
  then have "bm_map bm bid = None" by (simp add: bm_map_def)
  then have "(bm_map bm)(bid := map_option (\<lambda>b. b\<lparr>healthy := h\<rparr>) (bm_map bm bid)) = bm_map bm" by auto
  then show ?thesis using None I cb w
      by (intro exI [of _ bm] exI [of _ False] exI [of _ w]) (simp add: backend_manager_set_health_def)
next
  case (Some i)
  note s = slot_backend [OF I Some]
  show ?thesis
  proof (cases "healthy (bm_backends bm ! i) = h")
    case True
    then have "(bm_backends bm ! i)\<lparr>healthy := h\<rparr> = bm_backends bm ! i" by simp
    then have "(bm_map bm)(bid := map_option (\<lambda>b. b\<lparr>healthy := h\<rparr>) (bm_map bm bid)) = bm_map bm"
      using s(1) by auto
    then show ?thesis using Some True I cb w
      by (intro exI [of _ bm] exI [of _ False] exI [of _ w]) (simp add: backend_manager_set_health_def)
  next
    case False
    let ?b = "(bm_backends bm ! i)\<lparr>healthy := h\<rparr>"
    have b: "be_id ?b = bid" "length (be_mac ?b) = ETH_ADDR_LEN" using s by simp_all
    note u = update_ok [OF I cb w Some b]
    obtain w' where "notify (bm\<lparr>bm_backends := (bm_backends bm)[i := ?b]\<rparr>) w = Some w'" "ok w'"
      using u(1) by blast
    then show ?thesis
      using u(2,3) Some False s(1) cb by (intro exI [of _ "bm\<lparr>bm_backends := (bm_backends bm)[i := ?b]\<rparr>"] exI [of _ True] exI [of _ w'])
        (simp add: backend_manager_set_health_def Let_def)
  qed
qed

lemma set_admin_ok:
  assumes I: "bm_inv bm" and cb: "bm_cb bm = Some cb" and w: "ok w"
  shows "\<exists>bm' r w'. backend_manager_set_admin_state bm bid a w = Some (bm', r, w') \<and> bm_inv bm' \<and>
    bm_map bm' = (bm_map bm)(bid := map_option (\<lambda>b. b\<lparr>admin_state := a\<rparr>) (bm_map bm bid)) \<and>
    next_id bm' = next_id bm \<and> bm_cb bm' = Some cb \<and> ok w'"
proof (cases "find_slot bm bid")
  case None
  then have "bm_map bm bid = None" by (simp add: bm_map_def)
  then have "(bm_map bm)(bid := map_option (\<lambda>b. b\<lparr>admin_state := a\<rparr>) (bm_map bm bid)) = bm_map bm" by auto
  then show ?thesis using None I cb w
      by (intro exI [of _ bm] exI [of _ False] exI [of _ w]) (simp add: backend_manager_set_admin_state_def)
next
  case (Some i)
  note s = slot_backend [OF I Some]
  show ?thesis
  proof (cases "admin_state (bm_backends bm ! i) = a")
    case True
    then have "(bm_backends bm ! i)\<lparr>admin_state := a\<rparr> = bm_backends bm ! i" by simp
    then have "(bm_map bm)(bid := map_option (\<lambda>b. b\<lparr>admin_state := a\<rparr>) (bm_map bm bid)) = bm_map bm"
      using s(1) by auto
    then show ?thesis using Some True I cb w
      by (intro exI [of _ bm] exI [of _ False] exI [of _ w]) (simp add: backend_manager_set_admin_state_def)
  next
    case False
    let ?b = "(bm_backends bm ! i)\<lparr>admin_state := a\<rparr>"
    have b: "be_id ?b = bid" "length (be_mac ?b) = ETH_ADDR_LEN" using s by simp_all
    note u = update_ok [OF I cb w Some b]
    obtain w' where "notify (bm\<lparr>bm_backends := (bm_backends bm)[i := ?b]\<rparr>) w = Some w'" "ok w'"
      using u(1) by blast
    then show ?thesis
      using u(2,3) Some False s(1) cb by (intro exI [of _ "bm\<lparr>bm_backends := (bm_backends bm)[i := ?b]\<rparr>"] exI [of _ True] exI [of _ w'])
        (simp add: backend_manager_set_admin_state_def Let_def)
  qed
qed

end

section \<open>Properties\<close>

text \<open>C15. The registry refines a finite map. Any sequence of well-formed operations on a fresh
  manager, whose callback returns and that stays below the wrap of the id counter, terminates;
  the registry then represents exactly the map the specification computes, with at most one
  entry per id, every id below the counter, and the 64-slot bound as the only reason for an
  addition to be refused.\<close>

theorem backend_manager_refines:
  assumes "backend_manager_create True = Some bm" "list_all bm_op_ok ops" "length ops < 2 ^ 32"
    "\<forall>b w. cb b w \<noteq> None"
  shows "\<exists>bm' w'. bm_run ops (backend_manager_subscribe bm cb) w = Some (bm', w') \<and> bm_inv bm' \<and>
    (bm_map bm', next_id bm') = spec_run ops (Map.empty, 0)"
proof -
  let ?bm = "backend_manager_subscribe bm cb"
  note c = bm_create_inv [OF assms(1)]
  have "bm_inv ?bm = bm_inv bm" "bm_map ?bm = bm_map bm"
    by (simp_all add: backend_manager_subscribe_def bm_inv_def bm_used_def bm_map_def fun_eq_iff find_slot_def)
  moreover have "next_id ?bm = 0" "bm_cb ?bm = Some cb"
    using c by (simp_all add: backend_manager_subscribe_def)
  ultimately show ?thesis
    using bm_run_refines [of ?bm ops w] c assms(2-) by simp
qed

definition demo_ops :: "bm_op list" where
  "demo_ops = [Op_add 0x0100000A 80, Op_add 0x0200000A 80, Op_set_mac 0 [2, 0, 0, 0, 0, 1],
     Op_set_mac 1 [2, 0, 0, 0, 0, 2], Op_set_admin_state 1 BACKEND_DRAINING, Op_set_health 0 True,
     Op_add 0x0300000A 80, Op_remove 2]"

theorem backend_manager_refines_witness:
  "\<exists>bm bm' w'. backend_manager_create True = Some bm \<and>
    bm_run demo_ops (backend_manager_subscribe bm (\<lambda>b n. Some (n + 1))) (0 :: nat) = Some (bm', w') \<and>
    bm_inv bm' \<and> next_id bm' = 3 \<and> bm_map bm' 2 = None \<and>
    map_option admin_state (bm_map bm' 1) = Some BACKEND_DRAINING"
proof -
  obtain bm :: "nat backend_manager" where bm: "backend_manager_create True = Some bm"
    by (simp add: backend_manager_create_def)
  let ?s = "spec_run demo_ops (Map.empty, 0)"
  have spec: "snd ?s = 3" "fst ?s 2 = None" "map_option admin_state (fst ?s 1) = Some BACKEND_DRAINING"
    by (simp_all add: demo_ops_def new_backend_def BACKEND_MAX_def)
  have ok: "list_all bm_op_ok demo_ops" "length demo_ops < 2 ^ 32"
    by (simp_all add: demo_ops_def ETH_ADDR_LEN_def)
  obtain bm' w' where bm': "bm_run demo_ops (backend_manager_subscribe bm (\<lambda>b n. Some (n + 1))) 0 = Some (bm', w')"
      "bm_inv bm'" "(bm_map bm', next_id bm') = ?s"
    using backend_manager_refines [OF bm ok, of "\<lambda>b n. Some (n + 1)" 0] by blast
  have "bm_map bm' = fst ?s" "next_id bm' = snd ?s"
    using arg_cong [OF bm'(3), of fst] arg_cong [OF bm'(3), of snd] by simp_all
  with bm bm'(1,2) spec show ?thesis by metis
qed

text \<open>C30. What the snapshots list. On a well-formed registry the routable snapshot holds exactly
  the healthy backends with a resolved address that are not disabled, the eligible snapshot
  those of them that are enabled, each backend once; so every eligible backend is routable, and
  a draining one is routable and not eligible.\<close>

theorem backend_manager_snapshots:
  assumes "bm_inv bm"
  shows "set (backend_manager_snapshot_routable bm BACKEND_MAX) =
      {b \<in> ran (bm_map bm). admin_state b \<noteq> BACKEND_DISABLED \<and> healthy b \<and> mac_resolved b} \<and>
    set (backend_manager_snapshot_eligible bm BACKEND_MAX) =
      {b \<in> set (backend_manager_snapshot_routable bm BACKEND_MAX). admin_state b = BACKEND_ENABLED} \<and>
    set (backend_manager_snapshot_all bm BACKEND_MAX) = ran (bm_map bm) \<and>
    distinct (map be_id (backend_manager_snapshot_routable bm BACKEND_MAX)) \<and>
    distinct (map be_id (backend_manager_snapshot_eligible bm BACKEND_MAX)) \<and>
    distinct (map be_id (backend_manager_snapshot_all bm BACKEND_MAX))"
  using set_snapshot_where [OF assms] distinct_snapshot_where [OF assms]
  by (auto simp: backend_manager_snapshot_routable_def backend_manager_snapshot_eligible_def
      backend_manager_snapshot_all_def backend_eligible_def backend_routable_def)

theorem backend_manager_snapshots_witness:
  "\<exists>bm :: unit backend_manager. bm_inv bm \<and>
    be_id ` set (backend_manager_snapshot_routable bm BACKEND_MAX) = {0, 1} \<and>
    be_id ` set (backend_manager_snapshot_eligible bm BACKEND_MAX) = {0}"
proof -
  obtain bm0 :: "unit backend_manager" where bm0: "backend_manager_create True = Some bm0"
    by (simp add: backend_manager_create_def)
  have "list_all bm_op_ok demo_ops" "length demo_ops < 2 ^ 32"
    by (simp_all add: demo_ops_def ETH_ADDR_LEN_def)
  then obtain bm w where bm: "bm_inv (bm :: unit backend_manager)"
      "(bm_map bm, next_id bm) = spec_run demo_ops (Map.empty, 0)"
    using bm_run_refines [of bm0 demo_ops "()"] bm_create_inv [OF bm0] by auto
  let ?b0 = "(new_backend 0 0x0100000A 80)\<lparr>be_mac := [2, 0, 0, 0, 0, 1], mac_resolved := True\<rparr>"
  let ?b1 = "(new_backend 1 0x0200000A 80)\<lparr>be_mac := [2, 0, 0, 0, 0, 2], mac_resolved := True,
        admin_state := BACKEND_DRAINING\<rparr>"
  have "fst (spec_run demo_ops (Map.empty, 0)) = Map.empty(0 \<mapsto> ?b0, 1 \<mapsto> ?b1)"
    by (rule ext) (simp add: demo_ops_def new_backend_def BACKEND_MAX_def)
  then have "bm_map bm = Map.empty(0 \<mapsto> ?b0, 1 \<mapsto> ?b1)"
    using arg_cong [OF bm(2), of fst] by simp
  then have ran: "ran (bm_map bm) = {?b0, ?b1}" by (simp add: ran_map_upd insert_commute)
  have both: "{b \<in> {x, y}. Q b} = {x, y}" if "Q x" "Q y" for x y :: backend and Q
    using that by auto
  have one: "{b \<in> {x, y}. Q b} = {x}" if "Q x" "\<not> Q y" for x y :: backend and Q
    using that by auto
  have r: "set (backend_manager_snapshot_routable bm BACKEND_MAX) = {?b0, ?b1}"
    using backend_manager_snapshots [OF bm(1)] unfolding ran
    by (subst (asm) both) (simp_all add: new_backend_def)
  have "set (backend_manager_snapshot_eligible bm BACKEND_MAX) = {?b0}"
    using backend_manager_snapshots [OF bm(1)] unfolding r
    by (subst (asm) one) (simp_all add: new_backend_def)
  with r bm(1) show ?thesis by (intro exI [of _ bm]) (simp add: new_backend_def)
qed

end
