(* ===== verification/Transition_System.thy ===== *)
theory Transition_System
  imports Main
begin

text \<open>
  Reachability in a transition system and the interface by which the concurrent parts of the
  development are verified: an inductive invariant, given by its two laws, holds in every
  reachable state, and so does everything it implies.
\<close>

inductive reach :: "('s \<Rightarrow> bool) \<Rightarrow> ('s \<Rightarrow> 's \<Rightarrow> bool) \<Rightarrow> 's \<Rightarrow> bool"
  for init :: "'s \<Rightarrow> bool" and step :: "'s \<Rightarrow> 's \<Rightarrow> bool"
where
  reach_init: "init s \<Longrightarrow> reach init step s"
| reach_step: "reach init step s \<Longrightarrow> step s s' \<Longrightarrow> reach init step s'"

text \<open>The steps are labelled, so that a schedule can be written down as a list.\<close>

definition some_step :: "('l \<Rightarrow> 's \<Rightarrow> 's \<Rightarrow> bool) \<Rightarrow> 's \<Rightarrow> 's \<Rightarrow> bool" where
  "some_step step s s' \<longleftrightarrow> (\<exists>l. step l s s')"

inductive exec :: "('l \<Rightarrow> 's \<Rightarrow> 's \<Rightarrow> bool) \<Rightarrow> 's \<Rightarrow> 'l list \<Rightarrow> 's \<Rightarrow> bool"
  for step :: "'l \<Rightarrow> 's \<Rightarrow> 's \<Rightarrow> bool"
where
  exec_Nil: "exec step s [] s"
| exec_Cons: "step l s s' \<Longrightarrow> exec step s' ls s'' \<Longrightarrow> exec step s (l # ls) s''"

inductive_cases exec_NilE [elim!]: "exec step s [] s'"
inductive_cases exec_ConsE [elim!]: "exec step s (l # ls) s'"

lemma reach_exec:
  assumes "exec step s ls s'" "reach init (some_step step) s"
  shows "reach init (some_step step) s'"
  using assms
proof (induction rule: exec.induct)
  case (exec_Cons l s s' ls s'')
  have "some_step step s s'" using exec_Cons.hyps(1) by (auto simp: some_step_def)
  with exec_Cons.prems have "reach init (some_step step) s'" by (rule reach_step)
  then show ?case by (rule exec_Cons.IH)
qed

locale safe_system =
  fixes init :: "'s \<Rightarrow> bool"
    and step :: "'l \<Rightarrow> 's \<Rightarrow> 's \<Rightarrow> bool"
    and inv :: "'s \<Rightarrow> bool"
  assumes inv_init: "init s \<Longrightarrow> inv s"
    and inv_step: "inv s \<Longrightarrow> step l s s' \<Longrightarrow> inv s'"
begin

lemma inv_reach: "reach init (some_step step) s \<Longrightarrow> inv s"
  by (induction rule: reach.induct) (auto simp: some_step_def intro: inv_init inv_step)

lemma inv_exec: "exec step s ls s' \<Longrightarrow> inv s \<Longrightarrow> inv s'"
  by (induction rule: exec.induct) (auto intro: inv_step)

end

end
