(* ===== verification/Table_Generator.thy ===== *)
theory Table_Generator
  imports Maglev_Table Backend_Manager Transition_System
begin

text \<open>
  \<open>src/backend/table_generator.c\<close>: building, installing, retiring and reclaiming routing
  snapshots. Snapshots live on a heap of their own: a pointer is a natural number, an
  allocated snapshot is a binding of \<open>tg_heap\<close>, and \<open>routing_snapshot_free\<close> removes it; freeing
  or reading an address that is not bound is an error. The environment of one rebuild, that is
  the outcomes of its allocations and its two readings of the clock, is a record.

  The first part is the sequential model, with the callback that the backend manager runs.
  The second part interleaves the writer thread (the health checker, which rebuilds) and the
  reader thread (the datapath, which loads, uses and reclaims) step by step and shows that the
  reader never touches a freed snapshot.
\<close>

section \<open>Data\<close>

record table_generator =
  tg_m :: u32
  tg_active :: "nat option"
  tg_generation :: u64
  tg_last_regen_us :: u64
  tg_retired :: "nat list"
  tg_retired_cap :: nat
  tg_heap :: "nat \<rightharpoonup> routing_snapshot"
  tg_next_addr :: nat

record tg_env =
  te_alloc :: allocator
  te_start_us :: u64
  te_end_us :: u64

section \<open>Operations\<close>

definition table_generator_create :: "bool \<Rightarrow> u32 \<Rightarrow> table_generator option" where
  "table_generator_create ok m =
     (if \<not> ok then None
      else Some \<lparr>tg_m = m, tg_active = None, tg_generation = 0, tg_last_regen_us = 0,
        tg_retired = [], tg_retired_cap = 0, tg_heap = Map.empty, tg_next_addr = 0\<rparr>)"

definition routing_snapshot_free :: "table_generator \<Rightarrow> nat option \<Rightarrow> table_generator option" where
  "routing_snapshot_free tg p =
     (case p of
        None \<Rightarrow> Some tg
      | Some a \<Rightarrow>
        if tg_heap tg a = None then None else Some (tg\<lparr>tg_heap := (tg_heap tg)(a := None)\<rparr>))"

fun routing_snapshot_free_all :: "table_generator \<Rightarrow> nat list \<Rightarrow> table_generator option" where
  "routing_snapshot_free_all tg [] = Some tg"
| "routing_snapshot_free_all tg (a # as) =
     do { tg \<leftarrow> routing_snapshot_free tg (Some a); routing_snapshot_free_all tg as }"

definition table_generator_destroy :: "table_generator \<Rightarrow> table_generator option" where
  "table_generator_destroy tg =
     do {
       tg1 \<leftarrow> routing_snapshot_free tg (tg_active tg);
       routing_snapshot_free_all tg1 (tg_retired tg)
     }"

definition copy_views :: "backend list \<Rightarrow> backend_view list" where
  "copy_views bs = map (\<lambda>b. \<lparr>bv_id = be_id b, bv_addr = be_addr b, bv_port = be_port b,
     bv_mac = be_mac b\<rparr>) bs"

text \<open>The parts of \<open>table_generator_rebuild_and_install\<close>: building the new snapshot, the atomic
  exchange of the active pointer, the two counters, and the retirement of the old snapshot. Only
  the rebuilding thread writes the generation, so the \<open>new_generation\<close> it computed before the
  exchange is still the counter plus one when it is stored.\<close>

definition tg_build ::
  "xxh64 \<Rightarrow> tg_env \<Rightarrow> 'z bm_slots_scheme \<Rightarrow> table_generator \<Rightarrow> (table_generator \<times> nat) option option" where
  "tg_build xxh env bm tg =
     (let routable = backend_manager_snapshot_routable bm BACKEND_MAX;
          eligible = backend_manager_snapshot_eligible bm BACKEND_MAX;
          new_generation = tg_generation tg + 1 in
      do {
        r \<leftarrow> routing_snapshot_create xxh (te_alloc env) (copy_views routable) (copy_views eligible)
               (tg_m tg) new_generation;
        Some (map_option (\<lambda>snap.
          (tg\<lparr>tg_heap := (tg_heap tg)(tg_next_addr tg \<mapsto> snap),
              tg_next_addr := tg_next_addr tg + 1\<rparr>, tg_next_addr tg)) r)
      })"

definition tg_exchange :: "table_generator \<Rightarrow> nat \<Rightarrow> table_generator \<times> nat option" where
  "tg_exchange tg new_snap = (tg\<lparr>tg_active := Some new_snap\<rparr>, tg_active tg)"

definition tg_publish :: "tg_env \<Rightarrow> table_generator \<Rightarrow> table_generator" where
  "tg_publish env tg =
     tg\<lparr>tg_generation := tg_generation tg + 1, tg_last_regen_us := te_end_us env - te_start_us env\<rparr>"

definition tg_retire :: "tg_env \<Rightarrow> table_generator \<Rightarrow> nat option \<Rightarrow> table_generator \<times> nat option" where
  "tg_retire env tg old =
     (case old of
        None \<Rightarrow> (tg, None)
      | Some a \<Rightarrow>
        let tg = (if length (tg_retired tg) = tg_retired_cap tg then
                    let new_cap = (if tg_retired_cap tg = 0 then 8 else tg_retired_cap tg * 2) in
                    if te_alloc env Alloc_retired then tg\<lparr>tg_retired_cap := new_cap\<rparr> else tg
                  else tg) in
        if length (tg_retired tg) < tg_retired_cap tg
        then (tg\<lparr>tg_retired := tg_retired tg @ [a]\<rparr>, None)
        else (tg, Some a))"

text \<open>The last component is the snapshot that is leaked when the retired array cannot grow.\<close>

definition table_generator_rebuild_and_install ::
  "xxh64 \<Rightarrow> tg_env \<Rightarrow> 'z bm_slots_scheme \<Rightarrow> table_generator \<Rightarrow> (table_generator \<times> int \<times> nat option) option" where
  "table_generator_rebuild_and_install xxh env bm tg =
     do {
       r \<leftarrow> tg_build xxh env bm tg;
       case r of
         None \<Rightarrow> Some (tg, - 1, None)
       | Some (tg, new_snap) \<Rightarrow>
         let (tg, old) = tg_exchange tg new_snap;
             tg = tg_publish env tg;
             (tg, leaked) = tg_retire env tg old in
         Some (tg, 0, leaked)
     }"

definition table_generator_reclaim :: "table_generator \<Rightarrow> table_generator option" where
  "table_generator_reclaim tg =
     routing_snapshot_free_all (tg\<lparr>tg_retired := [], tg_retired_cap := 0\<rparr>) (tg_retired tg)"

definition table_generator_get_active :: "table_generator \<Rightarrow> nat option" where
  "table_generator_get_active tg = tg_active tg"

definition table_generator_last_regen_us :: "table_generator \<Rightarrow> u64" where
  "table_generator_last_regen_us tg = tg_last_regen_us tg"

definition table_generator_generation :: "table_generator \<Rightarrow> u64" where
  "table_generator_generation tg = tg_generation tg"

text \<open>The callback: the \<open>k\<close>-th rebuild runs in the environment \<open>envs k\<close>. Its world is the
  generator with the number of rebuilds so far and the snapshots leaked.\<close>

type_synonym tg_world = "table_generator \<times> nat \<times> nat list"

definition on_backend_change :: "xxh64 \<Rightarrow> (nat \<Rightarrow> tg_env) \<Rightarrow> bm_slots \<Rightarrow> tg_world \<Rightarrow> tg_world option" where
  "on_backend_change xxh envs bm w =
     (case w of (tg, k, leaked) \<Rightarrow> do {
        (tg, _, lost) \<leftarrow> table_generator_rebuild_and_install xxh (envs k) bm tg;
        Some (tg, k + 1, (case lost of None \<Rightarrow> leaked | Some a \<Rightarrow> a # leaked))
      })"

definition table_generator_install_as_subscriber ::
  "xxh64 \<Rightarrow> (nat \<Rightarrow> tg_env) \<Rightarrow> tg_world backend_manager \<Rightarrow> tg_world backend_manager" where
  "table_generator_install_as_subscriber xxh envs bm =
     backend_manager_subscribe bm (on_backend_change xxh envs)"

section \<open>Two threads\<close>

datatype writer_pc = W_idle | W_built nat | W_swapped "nat option" | W_published "nat option"

datatype reader_pc = R_idle | R_holds "nat option" | R_freeing "nat list"

record tg_conf =
  cf_tg :: table_generator
  cf_writer :: writer_pc
  cf_reader :: reader_pc
  cf_leaked :: "nat list"

datatype tg_label =
  L_build bm_slots tg_env | L_swap | L_publish tg_env | L_retire tg_env
| L_load | L_done | L_grab | L_free | L_freed

text \<open>The writer: one rebuild in four steps, each an atomic access to the shared state. The
  reader: a packet (load the active pointer, use the snapshot, be done with it) or a
  reclamation (take the retired array under its mutex, then free one snapshot at a time).\<close>

inductive tg_step :: "xxh64 \<Rightarrow> tg_label \<Rightarrow> tg_conf \<Rightarrow> tg_conf \<Rightarrow> bool" for xxh where
  step_build: "cf_writer c = W_idle \<Longrightarrow> tg_build xxh env bm (cf_tg c) = Some (Some (tg, a)) \<Longrightarrow>
     tg_step xxh (L_build bm env) c (c\<lparr>cf_tg := tg, cf_writer := W_built a\<rparr>)"
| step_build_failed: "cf_writer c = W_idle \<Longrightarrow> tg_build xxh env bm (cf_tg c) = Some None \<Longrightarrow>
     tg_step xxh (L_build bm env) c c"
| step_swap: "cf_writer c = W_built a \<Longrightarrow> tg_exchange (cf_tg c) a = (tg, old) \<Longrightarrow>
     tg_step xxh L_swap c (c\<lparr>cf_tg := tg, cf_writer := W_swapped old\<rparr>)"
| step_publish: "cf_writer c = W_swapped old \<Longrightarrow>
     tg_step xxh (L_publish env) c (c\<lparr>cf_tg := tg_publish env (cf_tg c), cf_writer := W_published old\<rparr>)"
| step_retire: "cf_writer c = W_published old \<Longrightarrow> tg_retire env (cf_tg c) old = (tg, lost) \<Longrightarrow>
     tg_step xxh (L_retire env) c (c\<lparr>cf_tg := tg, cf_writer := W_idle,
       cf_leaked := (case lost of None \<Rightarrow> cf_leaked c | Some a \<Rightarrow> a # cf_leaked c)\<rparr>)"
| step_load: "cf_reader c = R_idle \<Longrightarrow>
     tg_step xxh L_load c (c\<lparr>cf_reader := R_holds (table_generator_get_active (cf_tg c))\<rparr>)"
| step_done: "cf_reader c = R_holds p \<Longrightarrow> tg_step xxh L_done c (c\<lparr>cf_reader := R_idle\<rparr>)"
| step_grab: "cf_reader c = R_idle \<Longrightarrow>
     tg_step xxh L_grab c (c\<lparr>cf_reader := R_freeing (tg_retired (cf_tg c)),
       cf_tg := (cf_tg c)\<lparr>tg_retired := [], tg_retired_cap := 0\<rparr>\<rparr>)"
| step_free: "cf_reader c = R_freeing (a # as) \<Longrightarrow> routing_snapshot_free (cf_tg c) (Some a) = Some tg \<Longrightarrow>
     tg_step xxh L_free c (c\<lparr>cf_reader := R_freeing as, cf_tg := tg\<rparr>)"
| step_freed: "cf_reader c = R_freeing [] \<Longrightarrow> tg_step xxh L_freed c (c\<lparr>cf_reader := R_idle\<rparr>)"

inductive_cases tg_stepE: "tg_step xxh l c c'"

definition tg_conf_init :: "u32 \<Rightarrow> tg_conf \<Rightarrow> bool" where
  "tg_conf_init m c \<longleftrightarrow> table_generator_create True m = Some (cf_tg c) \<and>
     cf_writer c = W_idle \<and> cf_reader c = R_idle \<and> cf_leaked c = []"

text \<open>The pointers the reader is about to follow are allocated.\<close>

definition reader_safe :: "tg_conf \<Rightarrow> bool" where
  "reader_safe c \<longleftrightarrow>
     (case cf_reader c of
        R_holds (Some a) \<Rightarrow> tg_heap (cf_tg c) a \<noteq> None
      | R_freeing (a # as) \<Rightarrow> tg_heap (cf_tg c) a \<noteq> None
      | _ \<Rightarrow> True)"

section \<open>Ownership\<close>

text \<open>Who is responsible for each allocated snapshot: the active pointer, the writer between its
  steps, the retired array, the reader's private array, or nobody (leaked).\<close>

fun writer_owns :: "writer_pc \<Rightarrow> nat list" where
  "writer_owns W_idle = []"
| "writer_owns (W_built a) = [a]"
| "writer_owns (W_swapped old) = (case old of None \<Rightarrow> [] | Some a \<Rightarrow> [a])"
| "writer_owns (W_published old) = (case old of None \<Rightarrow> [] | Some a \<Rightarrow> [a])"

fun reader_owns :: "reader_pc \<Rightarrow> nat list" where
  "reader_owns (R_freeing as) = as"
| "reader_owns _ = []"

definition active_list :: "table_generator \<Rightarrow> nat list" where
  "active_list tg = (case tg_active tg of None \<Rightarrow> [] | Some a \<Rightarrow> [a])"

definition tg_owned :: "tg_conf \<Rightarrow> nat list" where
  "tg_owned c = active_list (cf_tg c) @ writer_owns (cf_writer c) @ tg_retired (cf_tg c) @
     reader_owns (cf_reader c) @ cf_leaked c"

definition tg_conf_inv :: "tg_conf \<Rightarrow> bool" where
  "tg_conf_inv c \<longleftrightarrow>
     distinct (tg_owned c) \<and> set (tg_owned c) = dom (tg_heap (cf_tg c)) \<and>
     (\<forall>a \<in> dom (tg_heap (cf_tg c)). a < tg_next_addr (cf_tg c)) \<and>
     length (tg_retired (cf_tg c)) \<le> tg_retired_cap (cf_tg c) \<and>
     (\<forall>a. cf_reader c = R_holds (Some a) \<longrightarrow> a \<in> dom (tg_heap (cf_tg c)))"

lemma tg_buildD:
  assumes "tg_build xxh env bm tg = Some (Some (tg', a))"
  obtains snap where "a = tg_next_addr tg"
    "tg' = tg\<lparr>tg_heap := (tg_heap tg)(a \<mapsto> snap), tg_next_addr := a + 1\<rparr>"
    "routing_snapshot_create xxh (te_alloc env)
       (copy_views (backend_manager_snapshot_routable bm BACKEND_MAX))
       (copy_views (backend_manager_snapshot_eligible bm BACKEND_MAX)) (tg_m tg) (tg_generation tg + 1)
     = Some (Some snap)"
  using assms by (auto simp: tg_build_def Let_def bind_eq_Some_conv split: option.splits)

lemma tg_retire_cases:
  assumes "tg_retire env tg old = (tg', lost)" "length (tg_retired tg) \<le> tg_retired_cap tg"
  obtains (none) "old = None" "tg' = tg" "lost = None"
  | (kept) a cap where "old = Some a" "lost = None" "length (tg_retired tg) < cap"
      "tg' = tg\<lparr>tg_retired := tg_retired tg @ [a], tg_retired_cap := cap\<rparr>"
  | (leaked) a where "old = Some a" "lost = Some a" "tg' = tg" "\<not> te_alloc env Alloc_retired"
proof (cases old)
  case None
  then show thesis using assms none by (simp add: tg_retire_def)
next
  case (Some a)
  let ?cap = "if tg_retired_cap tg = 0 then 8 else tg_retired_cap tg * 2"
  consider "length (tg_retired tg) < tg_retired_cap tg"
    | "length (tg_retired tg) = tg_retired_cap tg" "te_alloc env Alloc_retired"
    | "length (tg_retired tg) = tg_retired_cap tg" "\<not> te_alloc env Alloc_retired"
    using assms(2) by linarith
  then show thesis
  proof cases
    case 1
    then show thesis using kept [of a "tg_retired_cap tg"] assms Some by (auto simp: tg_retire_def)
  next
    case 2
    then have "length (tg_retired tg) < ?cap" by auto
    with 2 show thesis using kept [of a ?cap] assms(1) Some by (auto simp: tg_retire_def Let_def)
  next
    case 3
    then show thesis using leaked [of a] assms(1) Some by (auto simp: tg_retire_def Let_def)
  qed
qed

lemma tg_conf_inv_init: "tg_conf_init m c \<Longrightarrow> tg_conf_inv c"
  by (cases c) (auto simp: tg_conf_init_def table_generator_create_def tg_conf_inv_def tg_owned_def
      active_list_def)

text \<open>A step that only moves responsibilities around preserves the invariant.\<close>

lemma tg_conf_inv_move:
  assumes I: "tg_conf_inv c" and m: "mset (tg_owned c') = mset (tg_owned c)"
    and h: "tg_heap (cf_tg c') = tg_heap (cf_tg c)" "tg_next_addr (cf_tg c') = tg_next_addr (cf_tg c)"
    and r: "length (tg_retired (cf_tg c')) \<le> tg_retired_cap (cf_tg c')"
    and rd: "\<And>a. cf_reader c' = R_holds (Some a) \<Longrightarrow> a \<in> dom (tg_heap (cf_tg c))"
  shows "tg_conf_inv c'"
proof -
  have "distinct (tg_owned c')" using I m by (metis mset_eq_imp_distinct_iff tg_conf_inv_def)
  moreover have "set (tg_owned c') = set (tg_owned c)" using m by (metis set_mset_mset)
  ultimately show ?thesis using I h r rd by (simp add: tg_conf_inv_def)
qed

lemma tg_conf_inv_step:
  assumes I: "tg_conf_inv c" and s: "tg_step xxh l c c'"
  shows "tg_conf_inv c'"
  using s
proof (cases rule: tg_step.cases)
  case (step_build env bm tg a)
  obtain snap where b: "a = tg_next_addr (cf_tg c)"
      "tg = (cf_tg c)\<lparr>tg_heap := (tg_heap (cf_tg c))(a \<mapsto> snap), tg_next_addr := a + 1\<rparr>"
    using tg_buildD [OF step_build(4)] by metis
  have "a \<notin> dom (tg_heap (cf_tg c))" using I b(1) by (auto simp: tg_conf_inv_def)
  then have a: "a \<notin> set (tg_owned c)" using I by (simp add: tg_conf_inv_def)
  have m: "mset (tg_owned c') = add_mset a (mset (tg_owned c))"
    using step_build by (simp add: tg_owned_def active_list_def b(2))
  have "distinct (tg_owned c')"
    using mset_eq_imp_distinct_iff [of "tg_owned c'" "a # tg_owned c"] m a I by (simp add: tg_conf_inv_def)
  moreover have "set (tg_owned c') = insert a (set (tg_owned c))"
    using arg_cong [OF m, of set_mset] by simp
  ultimately show ?thesis
    using I step_build b by (auto simp: tg_conf_inv_def less_Suc_eq)
next
  case (step_build_failed env bm)
  then show ?thesis using I by simp
next
  case (step_swap a tg old)
  show ?thesis
    by (rule tg_conf_inv_move [OF I])
      (use I step_swap in \<open>auto simp: tg_owned_def active_list_def tg_exchange_def tg_conf_inv_def
        split: option.splits\<close>)
next
  case (step_publish old env)
  show ?thesis
    by (rule tg_conf_inv_move [OF I])
      (use I step_publish in \<open>auto simp: tg_owned_def active_list_def tg_publish_def tg_conf_inv_def\<close>)
next
  case (step_retire old env tg lost)
  have cap: "length (tg_retired (cf_tg c)) \<le> tg_retired_cap (cf_tg c)" using I by (simp add: tg_conf_inv_def)
  from step_retire(4) cap show ?thesis
  proof (cases rule: tg_retire_cases)
    case none
    show ?thesis
      by (rule tg_conf_inv_move [OF I])
        (use I step_retire none in \<open>auto simp: tg_owned_def active_list_def tg_conf_inv_def\<close>)
  next
    case (kept a n)
    show ?thesis
      by (rule tg_conf_inv_move [OF I])
        (use I step_retire kept in \<open>auto simp: tg_owned_def active_list_def tg_conf_inv_def\<close>)
  next
    case (leaked a)
    show ?thesis
      by (rule tg_conf_inv_move [OF I])
        (use I step_retire leaked in \<open>auto simp: tg_owned_def active_list_def tg_conf_inv_def\<close>)
  qed
next
  case step_load
  show ?thesis
    by (rule tg_conf_inv_move [OF I])
      (use I step_load in \<open>auto simp: tg_owned_def active_list_def tg_conf_inv_def table_generator_get_active_def\<close>)
next
  case (step_done p)
  show ?thesis
    by (rule tg_conf_inv_move [OF I])
      (use I step_done in \<open>auto simp: tg_owned_def active_list_def tg_conf_inv_def\<close>)
next
  case step_grab
  show ?thesis
    by (rule tg_conf_inv_move [OF I])
      (use I step_grab in \<open>auto simp: tg_owned_def active_list_def tg_conf_inv_def\<close>)
next
  case (step_free a as tg)
  have t: "tg = (cf_tg c)\<lparr>tg_heap := (tg_heap (cf_tg c))(a := None)\<rparr>"
    using step_free(4) by (simp add: routing_snapshot_free_def split: if_splits)
  have m: "mset (tg_owned c) = add_mset a (mset (tg_owned c'))"
    using step_free by (simp add: tg_owned_def active_list_def t)
  have "distinct (a # tg_owned c')"
    using mset_eq_imp_distinct_iff [of "tg_owned c" "a # tg_owned c'"] m I by (simp add: tg_conf_inv_def)
  moreover have "insert a (set (tg_owned c')) = set (tg_owned c)"
    using arg_cong [OF m, of set_mset] by simp
  ultimately show ?thesis
    using I step_free t by (auto simp: tg_conf_inv_def)
next
  case step_freed
  show ?thesis
    by (rule tg_conf_inv_move [OF I])
      (use I step_freed in \<open>auto simp: tg_owned_def active_list_def tg_conf_inv_def\<close>)
qed

interpretation tg_threads: safe_system "tg_conf_init m" "tg_step xxh" tg_conf_inv for m xxh
  by unfold_locales (auto intro: tg_conf_inv_init tg_conf_inv_step)

lemma tg_conf_inv_safe: "tg_conf_inv c \<Longrightarrow> reader_safe c"
  by (auto simp: tg_conf_inv_def reader_safe_def tg_owned_def split: reader_pc.splits option.splits list.splits)

section \<open>What a rebuild installs\<close>

text \<open>A snapshot the datapath can use: a full lookup table whose entries are resolvable.\<close>

definition snapshot_ok :: "routing_snapshot \<Rightarrow> bool" where
  "snapshot_ok snap \<longleftrightarrow>
     0 < unat (mt_m (rs_table snap)) \<and>
     length (mt_lookup (rs_table snap)) = unat (mt_m (rs_table snap)) \<and>
     distinct (map bv_id (rs_backends snap)) \<and>
     set (mt_lookup (rs_table snap)) \<subseteq> insert (- 1) (bv_id ` set (rs_backends snap)) \<and>
     - 1 \<notin> bv_id ` set (rs_backends snap) \<and>
     (\<forall>v \<in> set (rs_backends snap). length (bv_mac v) = ETH_ADDR_LEN)"

lemma bv_id_copy_views [simp]: "map bv_id (copy_views bs) = map be_id bs"
  by (simp add: copy_views_def comp_def)

lemma bv_id_image_copy_views [simp]: "bv_id ` set (copy_views bs) = be_id ` set bs"
  by (metis bv_id_copy_views list.set_map)

lemma copy_views_Nil_iff [simp]: "copy_views bs = [] \<longleftrightarrow> bs = []"
  by (simp add: copy_views_def)

lemma copy_views_mono: "set bs \<subseteq> set bs' \<Longrightarrow> set (copy_views bs) \<subseteq> set (copy_views bs')"
  by (auto simp: copy_views_def)

lemma bm_snapshots_subset:
  assumes "bm_inv bm"
  shows "set (backend_manager_snapshot_eligible bm BACKEND_MAX) \<subseteq>
    set (backend_manager_snapshot_routable bm BACKEND_MAX)"
  using set_snapshot_where [OF assms]
  by (auto simp: backend_manager_snapshot_eligible_def backend_manager_snapshot_routable_def
      backend_eligible_def backend_routable_def)

lemma bm_snapshot_facts:
  assumes "bm_inv bm" "b \<in> set (snapshot_where P bm BACKEND_MAX)"
  shows "be_id b < next_id bm" "be_id b \<noteq> - 1" "length (be_mac b) = ETH_ADDR_LEN"
proof -
  obtain i where "i \<in> set (bm_used bm)" "bm_backends bm ! i = b"
    using assms by (auto simp: set_snapshot_where ran_def bm_map_Some_iff)
  then show "be_id b < next_id bm" "length (be_mac b) = ETH_ADDR_LEN"
    using assms(1) by (auto simp: bm_inv_def)
  then show "be_id b \<noteq> - 1"
    by (metis word_not_simps(3) not_less word_order.extremum)
qed

lemma snapshot_create_ok:
  assumes I: "bm_inv bm" and p: "prime_nat (unat m)" and al: "\<forall>s. alloc s"
  defines "routable \<equiv> backend_manager_snapshot_routable bm BACKEND_MAX"
    and "eligible \<equiv> backend_manager_snapshot_eligible bm BACKEND_MAX"
  shows "\<exists>snap. routing_snapshot_create xxh alloc (copy_views routable) (copy_views eligible) m gen =
      Some (Some snap) \<and> snapshot_ok snap \<and> mt_m (rs_table snap) = m \<and>
    rs_backends snap = copy_views routable \<and> rs_generation snap = gen \<and>
    set (mt_lookup (rs_table snap)) \<subseteq> (if eligible = [] then {- 1} else be_id ` set eligible)"
proof -
  have m: "0 < unat m" using p by (simp add: prime_nat_def)
  have sub: "be_id ` set eligible \<subseteq> be_id ` set routable"
    using bm_snapshots_subset [OF I] by (auto simp: routable_def eligible_def)
  have noid: "- 1 \<notin> be_id ` set routable"
    using bm_snapshot_facts(2) [OF I]
    by (metis (no_types, lifting) imageE routable_def backend_manager_snapshot_routable_def)
  have macs: "\<forall>v \<in> set (copy_views routable). length (bv_mac v) = ETH_ADDR_LEN"
    using bm_snapshot_facts(3) [OF I]
    by (auto simp: routable_def backend_manager_snapshot_routable_def copy_views_def)
  have dist: "distinct (map be_id routable)"
    using distinct_snapshot_where [OF I] by (simp add: routable_def backend_manager_snapshot_routable_def)
  show ?thesis
  proof (cases "eligible = []")
    case True
    let ?snap = "\<lparr>rs_table = \<lparr>mt_m = m, mt_lookup = replicate (unat m) (- 1)\<rparr>,
        rs_backends = copy_views routable, rs_generation = gen\<rparr>"
    have "alloc Alloc_table" "alloc Alloc_lookup" "alloc Alloc_snapshot" "alloc Alloc_snapshot_backends"
      using al by simp_all
    then have "routing_snapshot_create xxh alloc (copy_views routable) (copy_views eligible) m gen =
        Some (Some ?snap)"
      using True by (simp add: routing_snapshot_create_def maglev_table_generate_empty copy_views_def)
    moreover have "snapshot_ok ?snap"
      using m noid macs dist by (auto simp: snapshot_ok_def)
    ultimately show ?thesis using True by (intro exI [of _ ?snap]) auto
  next
    case False
    let ?bs = "qsort backend_view_cmp_by_id (copy_views eligible)"
    let ?snap = "\<lparr>rs_table = \<lparr>mt_m = m, mt_lookup = maglev_spec xxh ?bs m\<rparr>,
        rs_backends = copy_views routable, rs_generation = gen\<rparr>"
    have "routing_snapshot_create xxh alloc (copy_views routable) (copy_views eligible) m gen =
        Some (Some ?snap)"
      using False sub noid by (intro routing_snapshot_create_eq p al) auto
    moreover have "set (maglev_spec xxh ?bs m) \<subseteq> bv_id ` set (copy_views eligible)"
    proof
      fix i
      assume "i \<in> set (maglev_spec xxh ?bs m)"
      then obtain j where j: "j < unat m" "maglev_spec xxh ?bs m ! j = i"
        by (auto simp: in_set_conv_nth)
      have "?bs \<noteq> []" using False by simp
      then obtain v where "v \<in> set ?bs" "i = bv_id v"
        using maglev_spec_nth [OF p _ j(1)] j(2) by metis
      then show "i \<in> bv_id ` set (copy_views eligible)"
        by (simp only: set_qsort image_eqI)
    qed
    then have slots: "set (maglev_spec xxh ?bs m) \<subseteq> be_id ` set eligible" by simp
    moreover have "set (maglev_spec xxh ?bs m) \<subseteq> insert (- 1) (be_id ` set routable)"
      using sub slots by (meson order.trans subset_insertI)
    then have "snapshot_ok ?snap"
      using m noid macs dist by (simp add: snapshot_ok_def)
    ultimately show ?thesis using False by (intro exI [of _ ?snap]) simp
  qed
qed

text \<open>A sequential state: both threads between operations.\<close>

definition quiescent :: "table_generator \<Rightarrow> nat list \<Rightarrow> tg_conf" where
  "quiescent tg leaked = \<lparr>cf_tg = tg, cf_writer = W_idle, cf_reader = R_idle, cf_leaked = leaked\<rparr>"

definition leak :: "nat option \<Rightarrow> nat list \<Rightarrow> nat list" where
  "leak lost leaked = (case lost of None \<Rightarrow> leaked | Some a \<Rightarrow> a # leaked)"

lemma rebuild_schedule:
  assumes "table_generator_rebuild_and_install xxh env bm (cf_tg c) = Some (tg, 0, lost)"
    and "cf_writer c = W_idle"
  shows "exec (tg_step xxh) c [L_build bm env, L_swap, L_publish env, L_retire env]
    (c\<lparr>cf_tg := tg, cf_leaked := leak lost (cf_leaked c)\<rparr>)"
proof -
  obtain tg1 a where b: "tg_build xxh env bm (cf_tg c) = Some (Some (tg1, a))"
    using assms(1)
    by (auto simp: table_generator_rebuild_and_install_def bind_eq_Some_conv split: option.splits)
  obtain tg2 old where x: "tg_exchange tg1 a = (tg2, old)" by (cases "tg_exchange tg1 a")
  have r: "tg_retire env (tg_publish env tg2) old = (tg, lost)"
    using assms(1) b x by (auto simp: table_generator_rebuild_and_install_def Let_def split: prod.splits)
  let ?c1 = "c\<lparr>cf_tg := tg1, cf_writer := W_built a\<rparr>"
  let ?c2 = "c\<lparr>cf_tg := tg2, cf_writer := W_swapped old\<rparr>"
  let ?c3 = "c\<lparr>cf_tg := tg_publish env tg2, cf_writer := W_published old\<rparr>"
  have "tg_step xxh (L_build bm env) c ?c1" using step_build [OF assms(2) b] .
  moreover have "tg_step xxh L_swap ?c1 ?c2" using step_swap [of ?c1 a tg2 old] x by simp
  moreover have "tg_step xxh (L_publish env) ?c2 ?c3" using step_publish [of ?c2 old] by simp
  moreover have "tg_step xxh (L_retire env) ?c3 (c\<lparr>cf_tg := tg, cf_leaked := leak lost (cf_leaked c)\<rparr>)"
    using step_retire [of ?c3 old env tg lost xxh] r assms(2)
    by (cases c; cases lost) (simp_all add: leak_def)
  ultimately show ?thesis by (blast intro: exec_Cons exec_Nil)
qed

lemma free_all_ok:
  assumes "distinct as" "set as \<subseteq> dom (tg_heap tg)"
  shows "routing_snapshot_free_all tg as = Some (tg\<lparr>tg_heap := (tg_heap tg) |` (- set as)\<rparr>)"
  using assms
proof (induction as arbitrary: tg)
  case Nil
  then show ?case by simp
next
  case (Cons a as)
  let ?tg = "tg\<lparr>tg_heap := (tg_heap tg)(a := None)\<rparr>"
  have "routing_snapshot_free tg (Some a) = Some ?tg"
    using Cons.prems by (auto simp: routing_snapshot_free_def)
  moreover have "routing_snapshot_free_all ?tg as = Some (?tg\<lparr>tg_heap := (tg_heap ?tg) |` (- set as)\<rparr>)"
    using Cons.prems by (intro Cons.IH) auto
  moreover have "((tg_heap tg)(a := None)) |` (- set as) = (tg_heap tg) |` (- set (a # as))"
    by (auto simp: restrict_map_def fun_eq_iff)
  ultimately show ?case by simp
qed

lemma quiescent_inv_iff:
  "tg_conf_inv (quiescent tg leaked) \<longleftrightarrow>
     distinct (active_list tg @ tg_retired tg @ leaked) \<and>
     set (active_list tg @ tg_retired tg @ leaked) = dom (tg_heap tg) \<and>
     (\<forall>a \<in> dom (tg_heap tg). a < tg_next_addr tg) \<and> length (tg_retired tg) \<le> tg_retired_cap tg"
  by (simp add: tg_conf_inv_def tg_owned_def quiescent_def)

lemma reclaim_ok:
  assumes "tg_conf_inv (quiescent tg leaked)"
  shows "\<exists>tg'. table_generator_reclaim tg = Some tg' \<and> tg_conf_inv (quiescent tg' leaked) \<and>
    tg_active tg' = tg_active tg \<and> tg_retired tg' = [] \<and> tg_m tg' = tg_m tg \<and>
    tg_generation tg' = tg_generation tg \<and>
    tg_heap tg' = (tg_heap tg) |` (set (active_list tg) \<union> set leaked)"
proof -
  note I = assms [unfolded quiescent_inv_iff]
  let ?tg = "tg\<lparr>tg_retired := [], tg_retired_cap := 0\<rparr>"
  have "set (tg_retired tg) \<subseteq> set (active_list tg @ tg_retired tg @ leaked)" by auto
  then have sub: "set (tg_retired tg) \<subseteq> dom (tg_heap ?tg)" using I by simp
  have f: "table_generator_reclaim tg = Some (?tg\<lparr>tg_heap := (tg_heap tg) |` (- set (tg_retired tg))\<rparr>)"
    unfolding table_generator_reclaim_def using free_all_ok [OF _ sub] I by simp
  have "(tg_heap tg) |` (- set (tg_retired tg)) = (tg_heap tg) |` (set (active_list tg) \<union> set leaked)"
  proof
    fix a
    have "tg_heap tg a = None \<or> a \<in> set (active_list tg @ tg_retired tg @ leaked)" using I by blast
    then show "((tg_heap tg) |` (- set (tg_retired tg))) a =
        ((tg_heap tg) |` (set (active_list tg) \<union> set leaked)) a"
      using I by (auto simp: restrict_map_def)
  qed
  note heap = this
  let ?tg' = "?tg\<lparr>tg_heap := (tg_heap tg) |` (set (active_list tg) \<union> set leaked)\<rparr>"
  have act: "active_list ?tg' = active_list tg" by (simp add: active_list_def)
  have "set (active_list tg) \<union> set leaked \<subseteq> set (active_list tg @ tg_retired tg @ leaked)" by auto
  then have own: "set (active_list tg) \<union> set leaked \<subseteq> dom (tg_heap tg)"
    by (simp only: I)
  then have dm: "dom (tg_heap ?tg') = set (active_list tg) \<union> set leaked" by auto
  have "tg_conf_inv (quiescent ?tg' leaked)"
    unfolding quiescent_inv_iff act dm using I own by auto
  then show ?thesis using f heap by simp
qed

section \<open>The active snapshot and the registry\<close>

text \<open>The snapshot describes the registry: it lists the routable backends, and its table sends
  every flow to an eligible one, or nowhere when there is none.\<close>

definition snapshot_for :: "'z bm_slots_scheme \<Rightarrow> routing_snapshot \<Rightarrow> bool" where
  "snapshot_for bm snap \<longleftrightarrow> snapshot_ok snap \<and>
     rs_backends snap = copy_views (backend_manager_snapshot_routable bm BACKEND_MAX) \<and>
     set (mt_lookup (rs_table snap)) \<subseteq>
       (if backend_manager_snapshot_eligible bm BACKEND_MAX = [] then {- 1}
        else be_id ` set (backend_manager_snapshot_eligible bm BACKEND_MAX))"

definition active_snapshot :: "table_generator \<Rightarrow> routing_snapshot option" where
  "active_snapshot tg = Option.bind (tg_active tg) (tg_heap tg)"

lemma maglev_table_lookup_in:
  assumes "snapshot_ok snap"
  shows "\<exists>i \<in> set (mt_lookup (rs_table snap)). maglev_table_lookup xxh (rs_table snap) key = Some i"
  using assms by (auto simp: snapshot_ok_def maglev_table_lookup_eq intro!: nth_mem)

lemma snapshot_find_view:
  assumes "snapshot_ok snap" "v \<in> set (rs_backends snap)"
  shows "routing_snapshot_find_backend snap (bv_id v) = Some v"
  using assms by (simp add: snapshot_ok_def routing_snapshot_find_backend_def find_backend_scan_distinct)

lemma snapshot_for_resolves:
  assumes I: "bm_inv bm" and s: "snapshot_for bm snap"
    and e: "backend_manager_snapshot_eligible bm BACKEND_MAX \<noteq> []"
  shows "\<exists>v \<in> set (copy_views (backend_manager_snapshot_eligible bm BACKEND_MAX)).
    maglev_table_lookup xxh (rs_table snap) key = Some (bv_id v) \<and>
    routing_snapshot_find_backend snap (bv_id v) = Some v"
proof -
  let ?e = "copy_views (backend_manager_snapshot_eligible bm BACKEND_MAX)"
  have ok: "snapshot_ok snap" using s by (simp add: snapshot_for_def)
  obtain i where i: "i \<in> set (mt_lookup (rs_table snap))"
      "maglev_table_lookup xxh (rs_table snap) key = Some i"
    using maglev_table_lookup_in [OF ok] by blast
  have "set (mt_lookup (rs_table snap)) \<subseteq> be_id ` set (backend_manager_snapshot_eligible bm BACKEND_MAX)"
    using s e by (simp add: snapshot_for_def)
  with i(1) have "i \<in> bv_id ` set ?e" by auto
  then obtain v where v: "v \<in> set ?e" "i = bv_id v" by blast
  have "v \<in> set (rs_backends snap)"
    using v(1) copy_views_mono [OF bm_snapshots_subset [OF I]] s by (auto simp: snapshot_for_def)
  with v i(2) snapshot_find_view [OF ok] show ?thesis by blast
qed

lemma snapshot_for_nowhere:
  assumes "snapshot_for bm snap" "backend_manager_snapshot_eligible bm BACKEND_MAX = []"
  shows "maglev_table_lookup xxh (rs_table snap) key = Some (- 1)"
proof -
  have ok: "snapshot_ok snap" using assms(1) by (simp add: snapshot_for_def)
  show ?thesis using maglev_table_lookup_in [OF ok] assms by (auto simp: snapshot_for_def)
qed

lemma maglev_table_generate_alloc:
  "maglev_table_generate xxh alloc bs m = Some None \<or>
   maglev_table_generate xxh alloc bs m = maglev_table_generate xxh (\<lambda>s. True) bs m"
  by (cases "bs = []") (simp_all add: maglev_table_generate_def Let_def)

lemma routing_snapshot_create_alloc:
  assumes "routing_snapshot_create xxh (\<lambda>s. True) routable candidates m gen = Some (Some snap)"
  shows "routing_snapshot_create xxh alloc routable candidates m gen \<in> {Some None, Some (Some snap)}"
proof -
  let ?g = "maglev_table_generate xxh (\<lambda>s. True) candidates m"
  obtain t where t: "?g = Some (Some t)"
      "snap = \<lparr>rs_table = t, rs_backends = routable, rs_generation = gen\<rparr>"
    using assms by (auto simp: routing_snapshot_create_def bind_eq_Some_conv split: option.splits)
  show ?thesis
    using maglev_table_generate_alloc [of xxh alloc candidates m] t
    by (elim disjE) (simp_all add: routing_snapshot_create_def)
qed

text \<open>A rebuild that is given any allocator either fails before it has changed anything or
  installs a snapshot for the registry; only the retirement can still leak.\<close>

lemma rebuild_cases:
  assumes I: "bm_inv bm" and p: "prime_nat (unat (tg_m tg))"
    and q: "length (tg_retired tg) \<le> tg_retired_cap tg"
  obtains (failed) "table_generator_rebuild_and_install xxh env bm tg = Some (tg, - 1, None)"
      "\<not> (\<forall>s. te_alloc env s)"
  | (installed) tg' snap lost where
      "table_generator_rebuild_and_install xxh env bm tg = Some (tg', 0, lost)"
      "tg_active tg' = Some (tg_next_addr tg)"
      "tg_heap tg' = (tg_heap tg)(tg_next_addr tg \<mapsto> snap)" "tg_next_addr tg' = tg_next_addr tg + 1"
      "snapshot_for bm snap" "rs_generation snap = tg_generation tg + 1" "tg_m tg' = tg_m tg"
      "tg_generation tg' = tg_generation tg + 1" "tg_last_regen_us tg' = te_end_us env - te_start_us env"
      "tg_retired tg' @ leak lost [] = tg_retired tg @ active_list tg"
      "lost = None \<or> \<not> te_alloc env Alloc_retired"
proof -
  let ?rv = "copy_views (backend_manager_snapshot_routable bm BACKEND_MAX)"
  let ?ev = "copy_views (backend_manager_snapshot_eligible bm BACKEND_MAX)"
  let ?create = "\<lambda>alloc. routing_snapshot_create xxh alloc ?rv ?ev (tg_m tg) (tg_generation tg + 1)"
  obtain snap where s: "?create (\<lambda>s. True) = Some (Some snap)" "snapshot_for bm snap"
      "rs_generation snap = tg_generation tg + 1"
    using snapshot_create_ok [OF I p, of "\<lambda>s. True" xxh "tg_generation tg + 1"]
    unfolding snapshot_for_def by blast
  consider "?create (te_alloc env) = Some None" | "?create (te_alloc env) = Some (Some snap)"
    using routing_snapshot_create_alloc [OF s(1), of "te_alloc env"] by blast
  then show thesis
  proof cases
    case 1
    have "te_alloc env \<noteq> (\<lambda>s. True)" using 1 s(1) by (intro notI) simp
    then have "\<not> (\<forall>s. te_alloc env s)" by (auto simp: fun_eq_iff)
    moreover have "tg_build xxh env bm tg = Some None" using 1 by (simp add: tg_build_def)
    ultimately show thesis
      by (intro failed) (simp_all add: table_generator_rebuild_and_install_def)
  next
    case 2
    let ?tg1 = "tg\<lparr>tg_heap := (tg_heap tg)(tg_next_addr tg \<mapsto> snap), tg_next_addr := tg_next_addr tg + 1\<rparr>"
    have b: "tg_build xxh env bm tg = Some (Some (?tg1, tg_next_addr tg))"
      using 2 by (simp add: tg_build_def)
    let ?tg2 = "tg_publish env (?tg1\<lparr>tg_active := Some (tg_next_addr tg)\<rparr>)"
    obtain tg' lost where r: "tg_retire env ?tg2 (tg_active tg) = (tg', lost)"
      by (cases "tg_retire env ?tg2 (tg_active tg)")
    have reb: "table_generator_rebuild_and_install xxh env bm tg = Some (tg', 0, lost)"
      using b r by (simp add: table_generator_rebuild_and_install_def tg_exchange_def)
    have q2: "length (tg_retired ?tg2) \<le> tg_retired_cap ?tg2" using q by (simp add: tg_publish_def)
    from r q2 show thesis
      by (cases rule: tg_retire_cases)
        (use installed [OF reb] s(2,3) in \<open>simp_all add: tg_publish_def active_list_def leak_def\<close>)
  qed
qed

lemma snapshot_where_truncate [simp]:
  "snapshot_where P (bm_slots.truncate bm) n = snapshot_where P bm n"
  by (simp add: snapshot_where_def bm_slots.defs)

lemma rebuild_truncate [simp]:
  "table_generator_rebuild_and_install xxh env (bm_slots.truncate bm) tg =
   table_generator_rebuild_and_install xxh env bm tg"
  by (simp add: table_generator_rebuild_and_install_def tg_build_def
      backend_manager_snapshot_routable_def backend_manager_snapshot_eligible_def)

lemma rebuild_inv:
  assumes "tg_conf_inv (quiescent tg leaked)"
    "table_generator_rebuild_and_install xxh env bm tg = Some (tg', r, lost)"
  shows "tg_conf_inv (quiescent tg' (leak lost leaked))"
proof -
  consider "r = 0" | "tg' = tg" "lost = None"
    using assms(2)
    by (auto simp: table_generator_rebuild_and_install_def bind_eq_Some_conv Let_def case_prod_unfold
        split: option.splits)
  then show ?thesis
  proof cases
    case 1
    let ?c = "quiescent tg leaked"
    have "exec (tg_step xxh) ?c [L_build (bm_slots.truncate bm) env, L_swap, L_publish env, L_retire env]
        (?c\<lparr>cf_tg := tg', cf_leaked := leak lost (cf_leaked ?c)\<rparr>)"
      using assms(2) 1
      by (intro rebuild_schedule) (simp_all add: quiescent_def)
    from tg_threads.inv_exec [OF this assms(1)] show ?thesis by (simp add: quiescent_def)
  next
    case 2
    then show ?thesis using assms(1) by (simp add: leak_def)
  qed
qed

text \<open>The subscriber keeps the active snapshot current.\<close>

definition tg_world_ok :: "tg_world \<Rightarrow> bool" where
  "tg_world_ok w \<longleftrightarrow> (case w of (tg, k, leaked) \<Rightarrow>
     tg_conf_inv (quiescent tg leaked) \<and> prime_nat (unat (tg_m tg)))"

definition tg_world_current :: "'z bm_slots_scheme \<Rightarrow> tg_world \<Rightarrow> bool" where
  "tg_world_current bm w \<longleftrightarrow> (case w of (tg, k, leaked) \<Rightarrow>
     (case active_snapshot tg of
        None \<Rightarrow> bm_map bm = Map.empty
      | Some snap \<Rightarrow> snapshot_for bm snap))"

lemma quiescent_retired_le:
  "tg_conf_inv (quiescent tg leaked) \<Longrightarrow> length (tg_retired tg) \<le> tg_retired_cap tg"
  by (simp add: quiescent_inv_iff)

lemma on_backend_change_current:
  assumes I: "bm_inv bm" and al: "\<forall>k s. te_alloc (envs k) s" and w: "tg_world_ok w"
  shows "\<exists>w'. on_backend_change xxh envs (bm_slots.truncate bm) w = Some w' \<and>
    tg_world_ok w' \<and> tg_world_current bm w'"
proof -
  obtain tg k leaked where W: "w = (tg, k, leaked)" by (cases w)
  then have inv: "tg_conf_inv (quiescent tg leaked)" and p: "prime_nat (unat (tg_m tg))"
    using w by (simp_all add: tg_world_ok_def)
  from I p quiescent_retired_le [OF inv] show ?thesis
  proof (cases rule: rebuild_cases [of bm tg xxh "envs k"])
    case failed
    then show ?thesis using al by simp
  next
    case (installed tg' snap lost)
    have "tg_conf_inv (quiescent tg' (leak lost leaked))"
      by (rule rebuild_inv [OF inv installed(1)])
    then have "tg_world_ok (tg', k + 1, leak lost leaked)"
      using p installed(7) by (simp add: tg_world_ok_def)
    moreover have "tg_world_current bm (tg', k + 1, leak lost leaked)"
      using installed by (simp add: tg_world_current_def active_snapshot_def)
    moreover have "on_backend_change xxh envs (bm_slots.truncate bm) w = Some (tg', k + 1, leak lost leaked)"
      using installed(1) W by (simp add: on_backend_change_def leak_def)
    ultimately show ?thesis by blast
  qed
qed

text \<open>The table generator as a subscriber, whatever its allocations do.\<close>

lemma on_backend_change_ok:
  assumes "bm_inv s" "tg_world_ok w"
  shows "\<exists>w'. on_backend_change xxh envs s w = Some w' \<and> tg_world_ok w'"
proof -
  obtain tg k leaked where W: "w = (tg, k, leaked)" by (cases w)
  then have inv: "tg_conf_inv (quiescent tg leaked)" and p: "prime_nat (unat (tg_m tg))"
    using assms(2) by (simp_all add: tg_world_ok_def)
  from assms(1) p quiescent_retired_le [OF inv] show ?thesis
  proof (cases rule: rebuild_cases [of s tg xxh "envs k"])
    case failed
    then show ?thesis using inv p W by (simp add: on_backend_change_def tg_world_ok_def)
  next
    case (installed tg' snap lost)
    have "tg_conf_inv (quiescent tg' (leak lost leaked))" by (rule rebuild_inv [OF inv installed(1)])
    then show ?thesis
      using installed(1,7) p W by (simp add: on_backend_change_def tg_world_ok_def leak_def)
  qed
qed

interpretation tg_subscriber: subscriber "on_backend_change xxh envs" tg_world_ok for xxh envs
  by unfold_locales (rule on_backend_change_ok)

section \<open>Properties\<close>

definition demo_env :: tg_env where
  "demo_env = \<lparr>te_alloc = alloc_ok, te_start_us = 5, te_end_us = 9\<rparr>"

definition demo_registry :: bm_slots where
  "demo_registry = \<lparr>bm_backends = zero_backend\<lparr>be_addr := 0x0100000A, be_port := 80,
       be_mac := [2, 0, 0, 0, 0, 1], mac_resolved := True, healthy := True\<rparr> # replicate 63 zero_backend,
     slot_used = True # replicate 63 False, next_id = 1\<rparr>"

definition demo_tg :: table_generator where
  "demo_tg = the (table_generator_create True 7)"

lemma demo_registry_ok:
  "bm_inv demo_registry" "backend_manager_snapshot_eligible demo_registry BACKEND_MAX \<noteq> []"
  by code_simp+

lemma demo_tg_ok:
  "maglev_is_prime (tg_m demo_tg)" "tg_conf_inv (quiescent demo_tg [])" "prime_nat (unat (tg_m demo_tg))"
proof -
  show "maglev_is_prime (tg_m demo_tg)" by code_simp
  then show "prime_nat (unat (tg_m demo_tg))" by (simp add: maglev_is_prime_iff)
  show "tg_conf_inv (quiescent demo_tg [])"
    by (simp add: quiescent_inv_iff demo_tg_def table_generator_create_def active_list_def)
qed

lemma demo_env_ok: "\<forall>s. te_alloc demo_env s"
  by (simp add: demo_env_def alloc_ok_def)

text \<open>C28. A rebuild installs a table for the registry it reads. When every allocation succeeds and
  some backend is eligible it returns 0; the active snapshot then sends every flow to an eligible
  backend and resolves its id to that backend's view, its generation is the published one, the
  regeneration time is the difference of the clock readings, and every snapshot that was
  allocated before still is, so a reader may go on using the old one.\<close>

theorem table_generator_rebuild_installs:
  assumes "bm_inv bm" "maglev_is_prime (tg_m tg)" "tg_conf_inv (quiescent tg leaked)"
    "\<forall>s. te_alloc env s" "backend_manager_snapshot_eligible bm BACKEND_MAX \<noteq> []"
  shows "\<exists>tg' lost snap. table_generator_rebuild_and_install xxh env bm tg = Some (tg', 0, lost) \<and>
    active_snapshot tg' = Some snap \<and>
    (\<forall>key. \<exists>v \<in> set (copy_views (backend_manager_snapshot_eligible bm BACKEND_MAX)).
       maglev_table_lookup xxh (rs_table snap) key = Some (bv_id v) \<and>
       routing_snapshot_find_backend snap (bv_id v) = Some v) \<and>
    rs_generation snap = table_generator_generation tg' \<and>
    table_generator_generation tg' = table_generator_generation tg + 1 \<and>
    table_generator_last_regen_us tg' = te_end_us env - te_start_us env \<and>
    tg_heap tg \<subseteq>\<^sub>m tg_heap tg'"
proof -
  have p: "prime_nat (unat (tg_m tg))" using assms(2) by (simp add: maglev_is_prime_iff)
  have fresh: "tg_heap tg (tg_next_addr tg) = None"
    using assms(3) by (auto simp: quiescent_inv_iff)
  from assms(1) p quiescent_retired_le [OF assms(3)] show ?thesis
  proof (cases rule: rebuild_cases [of bm tg xxh env])
    case failed
    then show ?thesis using assms(4) by simp
  next
    case (installed tg' snap lost)
    have "active_snapshot tg' = Some snap" using installed by (simp add: active_snapshot_def)
    moreover have "tg_heap tg \<subseteq>\<^sub>m tg_heap tg'"
      using installed(3) fresh by (auto simp: map_le_def)
    moreover note snapshot_for_resolves [OF assms(1) installed(5) assms(5), of xxh]
    ultimately show ?thesis
      using installed(1,6,8,9)
      unfolding table_generator_generation_def table_generator_last_regen_us_def
      by (intro exI [of _ tg'] exI [of _ lost] exI [of _ snap] conjI allI) simp_all
  qed
qed

theorem table_generator_rebuild_installs_witness:
  "\<exists>tg lost snap. table_generator_rebuild_and_install demo_xxh demo_env demo_registry demo_tg =
      Some (tg, 0, lost) \<and> active_snapshot tg = Some snap \<and>
    maglev_table_lookup demo_xxh (rs_table snap) \<lparr>src_ip = 1, dst_ip = 2, src_port = 3, dst_port = 4,
      proto = 6\<rparr> = Some 0 \<and> table_generator_last_regen_us tg = 4"
proof -
  have e: "copy_views (backend_manager_snapshot_eligible demo_registry BACKEND_MAX) =
      [\<lparr>bv_id = 0, bv_addr = 0x0100000A, bv_port = 80, bv_mac = [2, 0, 0, 0, 0, 1]\<rparr>]"
    by code_simp
  show ?thesis
    using table_generator_rebuild_installs [OF demo_registry_ok(1) demo_tg_ok(1,2) demo_env_ok
        demo_registry_ok(2), of demo_xxh]
    unfolding e by (fastforce simp: demo_env_def)
qed

text \<open>C29. A rebuild is all or nothing under any pattern of allocation failures: it returns; either
  it reports -1 and leaves the generator as it was, so the previous snapshot stays in service,
  or it reports 0 and the active snapshot describes the registry. Either way every allocated
  snapshot has exactly one owner, or is the one counted as leaked.\<close>

theorem table_generator_rebuild_all_or_nothing:
  assumes "bm_inv bm" "maglev_is_prime (tg_m tg)" "tg_conf_inv (quiescent tg leaked)"
  shows "table_generator_rebuild_and_install xxh env bm tg = Some (tg, - 1, None) \<or>
    (\<exists>tg' lost snap. table_generator_rebuild_and_install xxh env bm tg = Some (tg', 0, lost) \<and>
       active_snapshot tg' = Some snap \<and> snapshot_for bm snap \<and>
       tg_conf_inv (quiescent tg' (leak lost leaked)))"
proof -
  have p: "prime_nat (unat (tg_m tg))" using assms(2) by (simp add: maglev_is_prime_iff)
  from assms(1) p quiescent_retired_le [OF assms(3)] show ?thesis
  proof (cases rule: rebuild_cases [of bm tg xxh env])
    case failed
    then show ?thesis by simp
  next
    case (installed tg' snap lost)
    have "active_snapshot tg' = Some snap" using installed by (simp add: active_snapshot_def)
    with installed rebuild_inv [OF assms(3) installed(1)] show ?thesis by blast
  qed
qed

theorem table_generator_rebuild_all_or_nothing_witness:
  "table_generator_rebuild_and_install demo_xxh (demo_env\<lparr>te_alloc := \<lambda>s. s \<noteq> Alloc_snapshot\<rparr>)
     demo_registry demo_tg = Some (demo_tg, - 1, None)"
proof -
  let ?env = "demo_env\<lparr>te_alloc := \<lambda>s. s \<noteq> Alloc_snapshot\<rparr>"
  have "table_generator_rebuild_and_install demo_xxh ?env demo_registry demo_tg \<noteq> Some (tg, 0, lost)" for tg lost
    by (auto simp: table_generator_rebuild_and_install_def tg_build_def routing_snapshot_create_def
        Let_def bind_eq_Some_conv split: option.splits)
  then show ?thesis
    using table_generator_rebuild_all_or_nothing [OF demo_registry_ok(1) demo_tg_ok(1,2), of demo_xxh ?env]
    by blast
qed

text \<open>C5. No use after free and no double free. In every state that the health checker's thread
  (rebuilding) and the datapath's thread (loading, using and reclaiming snapshots) can reach in
  any interleaving, the snapshot the datapath is about to read or free is allocated; the
  allocated snapshots are exactly those reachable from the active pointer, the writer, the
  retired array, the reader and the leak record, each once.\<close>

theorem table_generator_reader_safe:
  assumes "reach (tg_conf_init m) (some_step (tg_step xxh)) c"
  shows "reader_safe c \<and> distinct (tg_owned c) \<and> set (tg_owned c) = dom (tg_heap (cf_tg c))"
  using tg_conf_inv_safe [OF tg_threads.inv_reach [OF assms]] tg_threads.inv_reach [OF assms]
  by (simp add: tg_conf_inv_def)

theorem table_generator_reader_safe_witness:
  "\<exists>c a. reach (tg_conf_init 7) (some_step (tg_step demo_xxh)) c \<and> cf_reader c = R_holds (Some a) \<and>
    a \<in> set (tg_retired (cf_tg c)) \<and> reader_safe c"
proof -
  let ?L = "[L_build demo_registry demo_env, L_swap, L_publish demo_env, L_retire demo_env]"
  let ?c0 = "quiescent demo_tg []"
  have init: "tg_conf_init 7 ?c0"
    by (simp add: tg_conf_init_def quiescent_def demo_tg_def table_generator_create_def)
  have q: "length (tg_retired demo_tg) \<le> tg_retired_cap demo_tg"
    by (rule quiescent_retired_le [OF demo_tg_ok(2)])
  obtain tg1 lost1 where r1: "table_generator_rebuild_and_install demo_xxh demo_env demo_registry demo_tg =
        Some (tg1, 0, lost1)" "tg_active tg1 = Some (tg_next_addr demo_tg)" "tg_m tg1 = tg_m demo_tg"
    by (rule rebuild_cases [OF demo_registry_ok(1) demo_tg_ok(3) q, of demo_xxh demo_env])
      (use demo_env_ok in auto)
  let ?c1 = "?c0\<lparr>cf_tg := tg1, cf_leaked := leak lost1 (cf_leaked ?c0)\<rparr>"
  have e1: "exec (tg_step demo_xxh) ?c0 ?L ?c1"
    by (rule rebuild_schedule) (use r1 in \<open>simp_all add: quiescent_def\<close>)
  let ?c2 = "?c1\<lparr>cf_reader := R_holds (tg_active tg1)\<rparr>"
  have e2: "exec (tg_step demo_xxh) ?c1 [L_load] ?c2"
    using step_load [of ?c1 demo_xxh]
    by (intro exec_Cons [OF _ exec_Nil]) (simp add: quiescent_def table_generator_get_active_def)
  have inv: "tg_conf_inv (quiescent tg1 (leak lost1 []))" by (rule rebuild_inv [OF demo_tg_ok(2) r1(1)])
  have p1: "prime_nat (unat (tg_m tg1))" using r1(3) demo_tg_ok(3) by simp
  obtain tg2 lost2 where r2: "table_generator_rebuild_and_install demo_xxh demo_env demo_registry tg1 =
        Some (tg2, 0, lost2)" "tg_retired tg2 @ leak lost2 [] = tg_retired tg1 @ active_list tg1"
      "lost2 = None"
    by (rule rebuild_cases [OF demo_registry_ok(1) p1 quiescent_retired_le [OF inv], of demo_xxh demo_env])
      (use demo_env_ok in auto)
  let ?c3 = "?c2\<lparr>cf_tg := tg2, cf_leaked := leak lost2 (cf_leaked ?c2)\<rparr>"
  have e3: "exec (tg_step demo_xxh) ?c2 ?L ?c3"
    by (rule rebuild_schedule) (use r2 in \<open>simp_all add: quiescent_def\<close>)
  have "reach (tg_conf_init 7) (some_step (tg_step demo_xxh)) ?c3"
    by (rule reach_exec [OF e3 reach_exec [OF e2 reach_exec [OF e1 reach_init [of "tg_conf_init 7", OF init]]]])
  moreover have "tg_next_addr demo_tg \<in> set (tg_retired tg2)"
    using r2(2,3) r1(2) by (simp add: leak_def active_list_def)
  ultimately show ?thesis
    using table_generator_reader_safe [of 7 demo_xxh ?c3] r1(2)
    by (intro exI [of _ ?c3] exI [of _ "tg_next_addr demo_tg"]) simp
qed

text \<open>C16. The active snapshot follows the registry. When the generator is subscribed to a fresh
  manager and every allocation succeeds, after any sequence of well-formed registry operations
  the active snapshot lists exactly the routable backends and sends every flow to an eligible
  one; before the first change there is none and the registry is empty.\<close>

theorem active_snapshot_follows_registry:
  assumes "backend_manager_create True = Some bm" "table_generator_create True m = Some tg"
    "maglev_is_prime m" "\<forall>k s. te_alloc (envs k) s" "list_all bm_op_ok ops" "length ops < 2 ^ 32"
  shows "\<exists>bm' tg' k leaked.
    bm_run ops (table_generator_install_as_subscriber xxh envs bm) (tg, 0, []) = Some (bm', tg', k, leaked) \<and>
    bm_inv bm' \<and> (bm_map bm', next_id bm') = spec_run ops (Map.empty, 0) \<and>
    (case active_snapshot tg' of None \<Rightarrow> bm_map bm' = Map.empty | Some snap \<Rightarrow> snapshot_for bm' snap)"
proof -
  let ?bm = "table_generator_install_as_subscriber xxh envs bm"
  note c = bm_create_inv [OF assms(1)]
  have bm: "bm_inv ?bm" "bm_map ?bm = Map.empty" "next_id ?bm = 0" "bm_cb ?bm = Some (on_backend_change xxh envs)"
    using c by (simp_all add: table_generator_install_as_subscriber_def backend_manager_subscribe_def
        bm_inv_def bm_used_def bm_map_def fun_eq_iff find_slot_def)
  have ok: "tg_world_ok (tg, 0, [])"
    using assms(2,3) by (auto simp: tg_world_ok_def quiescent_inv_iff table_generator_create_def
        active_list_def maglev_is_prime_iff)
  have cur: "tg_world_current ?bm (tg, 0, [])"
    using assms(2) bm(2) by (auto simp: tg_world_current_def active_snapshot_def table_generator_create_def)
  have step: "\<exists>w'. notify bm' w = Some w' \<and> tg_world_ok w' \<and> tg_world_current bm' w'"
    if "bm_inv bm'" "bm_cb bm' = bm_cb ?bm" "tg_world_ok w" for bm' w
    using on_backend_change_current [OF that(1) assms(4) that(3), of xxh] that(2) bm(4)
    by (simp add: notify_def)
  have n: "unat (next_id ?bm) + length ops < 2 ^ 32" using bm(3) assms(6) by simp
  obtain bm' w' where r: "bm_run ops ?bm (tg, 0, []) = Some (bm', w')" "bm_inv bm'"
      "(bm_map bm', next_id bm') = spec_run ops (Map.empty, 0)" "tg_world_current bm' w'"
    using bm_run_callback [OF bm(1) assms(5) n step ok cur] bm(2,3) by auto
  then show ?thesis by (cases w') (auto simp: tg_world_current_def)
qed

theorem active_snapshot_follows_registry_witness:
  "\<exists>bm tg bm' tg' k leaked snap. backend_manager_create True = Some bm \<and> table_generator_create True 7 = Some tg \<and>
    bm_run demo_ops (table_generator_install_as_subscriber demo_xxh (\<lambda>k. demo_env) bm) (tg, 0, []) =
      Some (bm', tg', k, leaked) \<and>
    active_snapshot tg' = Some snap \<and> be_id ` ran (bm_map bm') = {0, 1} \<and> snapshot_for bm' snap"
proof -
  obtain bm :: "tg_world backend_manager" where bm: "backend_manager_create True = Some bm"
    by (simp add: backend_manager_create_def)
  obtain tg where tg: "table_generator_create True 7 = Some tg" by (simp add: table_generator_create_def)
  have h: "maglev_is_prime 7" "\<forall>k s. te_alloc ((\<lambda>k. demo_env) k) s" "list_all bm_op_ok demo_ops"
      "length demo_ops < 2 ^ 32"
    by (code_simp, simp_all add: demo_env_def alloc_ok_def demo_ops_def ETH_ADDR_LEN_def)
  obtain bm' tg' k leaked where r:
      "bm_run demo_ops (table_generator_install_as_subscriber demo_xxh (\<lambda>k. demo_env) bm) (tg, 0, []) =
        Some (bm', tg', k, leaked)"
      "(bm_map bm', next_id bm') = spec_run demo_ops (Map.empty, 0)"
      "case active_snapshot tg' of None \<Rightarrow> bm_map bm' = Map.empty | Some snap \<Rightarrow> snapshot_for bm' snap"
    using active_snapshot_follows_registry [OF bm tg h, of demo_xxh] by blast
  have "bm_map bm' = fst (spec_run demo_ops (Map.empty, 0))"
    using arg_cong [OF r(2), of fst] by simp
  also have "fst (spec_run demo_ops (Map.empty, 0)) = Map.empty(
      0 \<mapsto> (new_backend 0 0x0100000A 80)\<lparr>be_mac := [2, 0, 0, 0, 0, 1], mac_resolved := True\<rparr>,
      1 \<mapsto> (new_backend 1 0x0200000A 80)\<lparr>be_mac := [2, 0, 0, 0, 0, 2], mac_resolved := True,
        admin_state := BACKEND_DRAINING\<rparr>)" (is "_ = ?m")
    by (rule ext) (simp add: demo_ops_def new_backend_def BACKEND_MAX_def)
  finally have m: "bm_map bm' = ?m" .
  have "be_id ` ran ?m = {0, 1}" by (simp add: ran_map_upd insert_commute new_backend_def)
  then have ids: "be_id ` ran (bm_map bm') = {0, 1}" unfolding m .
  have "bm_map bm' \<noteq> Map.empty" unfolding m by (rule map_upd_nonempty)
  then obtain snap where "active_snapshot tg' = Some snap" "snapshot_for bm' snap"
    using r(3) by (cases "active_snapshot tg'") simp_all
  with bm tg r(1) ids show ?thesis by blast
qed

end
