(* ===== verification/Stats_Registry.thy ===== *)
theory Stats_Registry
  imports LB_Prelude
begin

text \<open>
  \<open>src/stats/stats_registry.c\<close>: the counters. Every counter is a 64-bit atomic, so an addition
  or subtraction is one step modulo \<open>2 ^ 64\<close>. The per-backend array is a separate allocation:
  \<open>None\<close> stands for the NULL pointer it holds before \<open>stats_registry_init\<close> succeeds with a
  positive size and after \<open>stats_registry_destroy\<close>, and an operation that dereferences it then
  has the value \<open>None\<close>.
\<close>

section \<open>Data\<close>

record per_backend_stats =
  pb_packets :: u64
  pb_bytes :: u64
  pb_active_flows :: u64
  pb_flows_assigned :: u64
  pb_health_check_failures :: u64

record lb_stats =
  rx_packets :: u64
  rx_bytes :: u64
  tx_packets :: u64
  tx_bytes :: u64
  drops_parse_error :: u64
  drops_no_backend :: u64
  drops_backend_unhealthy :: u64
  drops_conntrack_full :: u64
  conntrack_hits :: u64
  conntrack_misses :: u64
  conntrack_evictions :: u64
  st_backends :: "per_backend_stats list option"
  st_max_backends :: nat

definition zero_pb :: per_backend_stats where
  "zero_pb = \<lparr>pb_packets = 0, pb_bytes = 0, pb_active_flows = 0, pb_flows_assigned = 0,
     pb_health_check_failures = 0\<rparr>"

definition zero_stats :: lb_stats where
  "zero_stats = \<lparr>rx_packets = 0, rx_bytes = 0, tx_packets = 0, tx_bytes = 0,
     drops_parse_error = 0, drops_no_backend = 0, drops_backend_unhealthy = 0,
     drops_conntrack_full = 0, conntrack_hits = 0, conntrack_misses = 0, conntrack_evictions = 0,
     st_backends = None, st_max_backends = 0\<rparr>"

section \<open>Operations\<close>

text \<open>The flag says whether the allocation succeeds. On failure the size stays 0.\<close>

definition stats_registry_init :: "bool \<Rightarrow> nat \<Rightarrow> lb_stats \<times> int" where
  "stats_registry_init alloc_ok max_backends =
     (if max_backends > 0 then
        if \<not> alloc_ok then (zero_stats, - 1)
        else (zero_stats\<lparr>st_backends := Some (replicate max_backends zero_pb),
                st_max_backends := max_backends\<rparr>, 0)
      else (zero_stats\<lparr>st_max_backends := max_backends\<rparr>, 0))"

definition stats_registry_destroy :: "lb_stats \<Rightarrow> lb_stats" where
  "stats_registry_destroy s = s\<lparr>st_backends := None\<rparr>"

definition update_backend ::
  "lb_stats \<Rightarrow> u32 \<Rightarrow> (per_backend_stats \<Rightarrow> per_backend_stats) \<Rightarrow> lb_stats option" where
  "update_backend s backend_id f =
     (if unat backend_id \<ge> st_max_backends s then Some s
      else case st_backends s of
        None \<Rightarrow> None
      | Some bs \<Rightarrow>
        if unat backend_id < length bs then
          Some (s\<lparr>st_backends := Some (bs[unat backend_id := f (bs ! unat backend_id)])\<rparr>)
        else None)"

definition stats_record_backend_packet :: "lb_stats \<Rightarrow> u32 \<Rightarrow> u64 \<Rightarrow> lb_stats option" where
  "stats_record_backend_packet s backend_id bytes =
     update_backend s backend_id
       (\<lambda>b. b\<lparr>pb_packets := pb_packets b + 1, pb_bytes := pb_bytes b + bytes\<rparr>)"

definition stats_backend_flow_opened :: "lb_stats \<Rightarrow> u32 \<Rightarrow> lb_stats option" where
  "stats_backend_flow_opened s backend_id =
     update_backend s backend_id
       (\<lambda>b. b\<lparr>pb_active_flows := pb_active_flows b + 1,
              pb_flows_assigned := pb_flows_assigned b + 1\<rparr>)"

definition stats_backend_flow_closed :: "lb_stats \<Rightarrow> u32 \<Rightarrow> lb_stats option" where
  "stats_backend_flow_closed s backend_id =
     update_backend s backend_id (\<lambda>b. b\<lparr>pb_active_flows := pb_active_flows b - 1\<rparr>)"

definition stats_backend_health_check_failed :: "lb_stats \<Rightarrow> u32 \<Rightarrow> lb_stats option" where
  "stats_backend_health_check_failed s backend_id =
     update_backend s backend_id
       (\<lambda>b. b\<lparr>pb_health_check_failures := pb_health_check_failures b + 1\<rparr>)"

record lb_stats_snapshot =
  ss_rx_packets :: u64
  ss_rx_bytes :: u64
  ss_tx_packets :: u64
  ss_tx_bytes :: u64
  ss_drops_parse_error :: u64
  ss_drops_no_backend :: u64
  ss_drops_backend_unhealthy :: u64
  ss_drops_conntrack_full :: u64
  ss_conntrack_hits :: u64
  ss_conntrack_misses :: u64
  ss_conntrack_evictions :: u64

definition stats_registry_snapshot :: "lb_stats \<Rightarrow> lb_stats_snapshot" where
  "stats_registry_snapshot s =
     \<lparr>ss_rx_packets = rx_packets s, ss_rx_bytes = rx_bytes s, ss_tx_packets = tx_packets s,
      ss_tx_bytes = tx_bytes s, ss_drops_parse_error = drops_parse_error s,
      ss_drops_no_backend = drops_no_backend s,
      ss_drops_backend_unhealthy = drops_backend_unhealthy s,
      ss_drops_conntrack_full = drops_conntrack_full s, ss_conntrack_hits = conntrack_hits s,
      ss_conntrack_misses = conntrack_misses s, ss_conntrack_evictions = conntrack_evictions s\<rparr>"

text \<open>The per-backend snapshot has the fields of the counters themselves.\<close>

definition stats_registry_snapshot_backend :: "lb_stats \<Rightarrow> u32 \<Rightarrow> per_backend_stats option" where
  "stats_registry_snapshot_backend s backend_id =
     (if unat backend_id \<ge> st_max_backends s then Some zero_pb
      else case st_backends s of
        None \<Rightarrow> None
      | Some bs \<Rightarrow> if unat backend_id < length bs then Some (bs ! unat backend_id) else None)"

section \<open>The invariant and the counters of one backend\<close>

definition stats_inv :: "lb_stats \<Rightarrow> bool" where
  "stats_inv s \<longleftrightarrow>
     (case st_backends s of None \<Rightarrow> st_max_backends s = 0 | Some bs \<Rightarrow> length bs = st_max_backends s)"

definition pb_of :: "lb_stats \<Rightarrow> nat \<Rightarrow> per_backend_stats" where
  "pb_of s i = (case st_backends s of None \<Rightarrow> zero_pb | Some bs \<Rightarrow> bs ! i)"

lemma stats_inv_init: "fst (stats_registry_init ok n) = s \<Longrightarrow> stats_inv s"
  by (auto simp: stats_registry_init_def stats_inv_def zero_stats_def)

lemma update_backend_spec:
  assumes "stats_inv s"
  shows "\<exists>s'. update_backend s i f = Some s' \<and> stats_inv s' \<and>
    lb_stats.st_max_backends s' = st_max_backends s \<and>
    s'\<lparr>st_backends := st_backends s\<rparr> = s \<and>
    (\<forall>j < st_max_backends s. pb_of s' j = (if j = unat i then f (pb_of s j) else pb_of s j))"
  using assms by (auto simp: update_backend_def stats_inv_def pb_of_def split: option.splits)

lemma snapshot_backend_eq:
  assumes "stats_inv s"
  shows "stats_registry_snapshot_backend s i =
    Some (if unat i < st_max_backends s then pb_of s (unat i) else zero_pb)"
  using assms by (auto simp: stats_registry_snapshot_backend_def stats_inv_def pb_of_def split: option.splits)

text \<open>The result of an update that applies \<open>f\<close> to the counters of backend \<open>i\<close>: it returns, the
  totals are those before, and a reader sees \<open>f\<close> applied to the record of an id in range and every
  other record unchanged.\<close>

definition applies_to :: "lb_stats \<Rightarrow> u32 \<Rightarrow> (per_backend_stats \<Rightarrow> per_backend_stats) \<Rightarrow> lb_stats option \<Rightarrow> bool" where
  "applies_to s i f r \<longleftrightarrow>
     (\<exists>s'. r = Some s' \<and> stats_inv s' \<and> st_max_backends s' = st_max_backends s \<and>
        stats_registry_snapshot s' = stats_registry_snapshot s \<and>
        (\<forall>j. stats_registry_snapshot_backend s' j =
           (if j = i \<and> unat i < st_max_backends s
            then map_option f (stats_registry_snapshot_backend s j)
            else stats_registry_snapshot_backend s j)))"

lemma update_backend_applies:
  assumes "stats_inv s"
  shows "applies_to s i f (update_backend s i f)"
proof -
  obtain s' where s': "update_backend s i f = Some s'" "stats_inv s'" "st_max_backends s' = st_max_backends s"
      "s'\<lparr>st_backends := st_backends s\<rparr> = s"
      "\<forall>j < st_max_backends s. pb_of s' j = (if j = unat i then f (pb_of s j) else pb_of s j)"
    using update_backend_spec [OF assms] by blast
  have "stats_registry_snapshot s' = stats_registry_snapshot (s'\<lparr>st_backends := st_backends s\<rparr>)"
    by (simp add: stats_registry_snapshot_def)
  with s' show ?thesis
    by (auto simp: applies_to_def snapshot_backend_eq assms word_unat_eq_iff)
qed

text \<open>C31. The per-backend counters. In every registry that \<open>stats_registry_init\<close> produced and the
  updates changed, each of the four updates returns for any backend id whatsoever, without an access
  outside the array. It changes nothing when the id is out of range. Otherwise a reader sees
  afterwards exactly the change of its own counters in the record of that backend: one packet and
  its bytes, one more active and assigned flow, one active flow less, or one failed probe; every
  other record and all totals are as before.\<close>

theorem stats_updates_safe:
  assumes "stats_inv s"
  shows "applies_to s i (\<lambda>b. b\<lparr>pb_packets := pb_packets b + 1, pb_bytes := pb_bytes b + bytes\<rparr>)
      (stats_record_backend_packet s i bytes) \<and>
    applies_to s i (\<lambda>b. b\<lparr>pb_active_flows := pb_active_flows b + 1, pb_flows_assigned := pb_flows_assigned b + 1\<rparr>)
      (stats_backend_flow_opened s i) \<and>
    applies_to s i (\<lambda>b. b\<lparr>pb_active_flows := pb_active_flows b - 1\<rparr>) (stats_backend_flow_closed s i) \<and>
    applies_to s i (\<lambda>b. b\<lparr>pb_health_check_failures := pb_health_check_failures b + 1\<rparr>)
      (stats_backend_health_check_failed s i)"
  using update_backend_applies [OF assms]
  by (simp add: stats_record_backend_packet_def stats_backend_flow_opened_def stats_backend_flow_closed_def
      stats_backend_health_check_failed_def)

theorem stats_updates_safe_witness:
  "\<exists>s'. stats_record_backend_packet (fst (stats_registry_init True 2)) 1 60 = Some s' \<and>
    stats_registry_snapshot_backend s' 1 = Some (zero_pb\<lparr>pb_packets := 1, pb_bytes := 60\<rparr>) \<and>
    stats_registry_snapshot_backend s' 0 = Some zero_pb \<and> stats_inv s'"
proof -
  let ?s = "fst (stats_registry_init True 2)"
  have i: "stats_inv ?s" by (rule stats_inv_init) simp
  have 0: "stats_registry_snapshot_backend ?s 1 = Some zero_pb" "stats_registry_snapshot_backend ?s 0 = Some zero_pb"
    "st_max_backends ?s = 2"
    by (simp_all add: stats_registry_init_def stats_registry_snapshot_backend_def zero_stats_def)
  show ?thesis using stats_updates_safe [OF i, of 1 60] 0 by (auto simp: applies_to_def zero_pb_def)
qed

end
