(* ===== verification/Datapath.thy ===== *)
theory Datapath
  imports Gre_Encap Conntrack_Inv Table_Generator Stats_Registry
begin

text \<open>
  \<open>src/forward/datapath.c\<close>: the packet handler, the reaper tick and the event loop. The record
  holds what the code reaches through its configuration pointers: the table generator, the
  connection table and the statistics. The bytes of a received frame, the clock readings and
  the results of sending are arguments; a handler returns the frame it hands to the socket.
  Another thread may exchange the table between two events, which a history of steps shows as
  a step of its own. The result \<open>None\<close> is an access outside a buffer, a freed snapshot, a
  division by zero or a loop that does not return.
\<close>

section \<open>Data\<close>

definition RX_BUF_LEN :: nat where "RX_BUF_LEN = 2048"
definition TX_BUF_LEN :: nat where "TX_BUF_LEN = 2048"

record datapath_config =
  dp_vip :: u32
  dp_director_ip :: u32
  dp_ttl :: u8
  dp_reaper_interval_ms :: u32
  dp_tcp_timeout_ns :: u64
  dp_udp_timeout_ns :: u64

record datapath =
  dp_cfg :: datapath_config
  dp_tg :: table_generator
  dp_ct :: conntrack_table
  dp_stats :: lb_stats
  own_mac :: "u8 list"
  reaper_buckets_per_tick :: u64
  dp_is_running :: bool
  tx_buf :: buffer

text \<open>The transmit buffer is a local array of the loop; its initial bytes are the last argument.\<close>

definition datapath_create ::
  "bool \<Rightarrow> datapath_config \<Rightarrow> table_generator \<Rightarrow> conntrack_table \<Rightarrow> lb_stats \<Rightarrow> buffer \<Rightarrow> datapath option" where
  "datapath_create calloc_ok cfg tg ct stats garbage =
     (if \<not> calloc_ok then None
      else Some \<lparr>dp_cfg = cfg, dp_tg = tg, dp_ct = ct, dp_stats = stats,
        own_mac = replicate ETH_ADDR_LEN 0, reaper_buckets_per_tick = 0, dp_is_running = False,
        tx_buf = garbage\<rparr>)"

section \<open>One packet\<close>

definition count_stat :: "(lb_stats \<Rightarrow> lb_stats) \<Rightarrow> datapath \<Rightarrow> datapath" where
  "count_stat f dp = dp\<lparr>dp_stats := f (dp_stats dp)\<rparr>"

text \<open>The backend of a packet: the pinned one, or for a new flow the one of the table, which is
  then pinned.\<close>

definition choose_backend ::
  "xxh64 \<Rightarrow> routing_snapshot \<Rightarrow> flow_key \<Rightarrow> u64 \<Rightarrow> i32 option \<Rightarrow> datapath \<Rightarrow> (datapath \<times> i32 option) option" where
  "choose_backend xxh snap key now hit dp =
     (case hit of
        Some backend_id \<Rightarrow> Some (dp, Some backend_id)
      | None \<Rightarrow>
        do {
          backend_id \<leftarrow> maglev_table_lookup xxh (rs_table snap) key;
          if sint backend_id < 0 then
            Some (count_stat (\<lambda>s. s\<lparr>drops_no_backend := drops_no_backend s + 1\<rparr>) dp, None)
          else
            do {
              (ct, inserted) \<leftarrow> conntrack_insert xxh (dp_ct dp) key backend_id now;
              let dp = dp\<lparr>dp_ct := ct\<rparr>;
              if \<not> inserted then
                Some (count_stat (\<lambda>s. s\<lparr>drops_conntrack_full := drops_conntrack_full s + 1\<rparr>) dp, None)
              else
                do {
                  s \<leftarrow> stats_backend_flow_opened (dp_stats dp) backend_id;
                  Some (dp\<lparr>dp_stats := s\<rparr>, Some backend_id)
                }
            }
        })"

text \<open>The tail of the handler: resolve, encapsulate, send and count.\<close>

definition forward_packet ::
  "routing_snapshot \<Rightarrow> i32 \<Rightarrow> buffer \<Rightarrow> flow_extract_result \<Rightarrow> (buffer \<Rightarrow> int) \<Rightarrow> datapath \<Rightarrow>
     (datapath \<times> buffer option) option" where
  "forward_packet snap backend_id rx fx send dp =
     (case routing_snapshot_find_backend snap backend_id of
        None \<Rightarrow>
        Some (count_stat (\<lambda>s. s\<lparr>drops_backend_unhealthy := drops_backend_unhealthy s + 1\<rparr>) dp, None)
      | Some backend \<Rightarrow>
        do {
          (frame_len, tx) \<leftarrow> gre_encap_build (tx_buf dp) TX_BUF_LEN (bv_mac backend) (own_mac dp)
             (dp_director_ip (dp_cfg dp)) (bv_addr backend) (dp_ttl (dp_cfg dp))
             (drop (ip_offset fx) rx) (ip_total_len fx);
          let dp = dp\<lparr>tx_buf := tx\<rparr>;
          if frame_len = 0 then
            Some (count_stat (\<lambda>s. s\<lparr>drops_parse_error := drops_parse_error s + 1\<rparr>) dp, None)
          else
            let frame = take frame_len tx; sent = send frame in
            if sent > 0 then
              let dp = count_stat (\<lambda>s. s\<lparr>tx_packets := tx_packets s + 1,
                         tx_bytes := tx_bytes s + of_int sent\<rparr>) dp in
              do {
                s \<leftarrow> stats_record_backend_packet (dp_stats dp) backend_id (of_int sent);
                Some (dp\<lparr>dp_stats := s\<rparr>, Some frame)
              }
            else Some (dp, Some frame)
        })"

text \<open>An empty receive stands for \<open>n <= 0\<close>.\<close>

definition handle_packet ::
  "xxh64 \<Rightarrow> buffer \<Rightarrow> u64 \<Rightarrow> (buffer \<Rightarrow> int) \<Rightarrow> datapath \<Rightarrow> (datapath \<times> buffer option) option" where
  "handle_packet xxh rx now send dp =
     (if rx = [] then Some (dp, None)
      else
        let dp = count_stat (\<lambda>s. s\<lparr>rx_packets := rx_packets s + 1,
                   rx_bytes := rx_bytes s + of_nat (length rx)\<rparr>) dp in
        do {
          ps \<leftarrow> packet_extract_flow rx;
          case ps of
            Inl status \<Rightarrow>
            Some (if status = PARSE_TRUNCATED
                  then count_stat (\<lambda>s. s\<lparr>drops_parse_error := drops_parse_error s + 1\<rparr>) dp else dp, None)
          | Inr fx \<Rightarrow>
            if dst_ip (fx_key fx) \<noteq> dp_vip (dp_cfg dp) then Some (dp, None)
            else
              do {
                (ct, hit) \<leftarrow> conntrack_lookup xxh (dp_ct dp) (fx_key fx) now;
                let dp = count_stat (\<lambda>s. if hit \<noteq> None
                           then s\<lparr>conntrack_hits := conntrack_hits s + 1\<rparr>
                           else s\<lparr>conntrack_misses := conntrack_misses s + 1\<rparr>) (dp\<lparr>dp_ct := ct\<rparr>);
                case table_generator_get_active (dp_tg dp) of
                  None \<Rightarrow>
                  Some (count_stat (\<lambda>s. s\<lparr>drops_no_backend := drops_no_backend s + 1\<rparr>) dp, None)
                | Some a \<Rightarrow>
                  do {
                    snap \<leftarrow> tg_heap (dp_tg dp) a;
                    (dp, chosen) \<leftarrow> choose_backend xxh snap (fx_key fx) now hit dp;
                    case chosen of
                      None \<Rightarrow> Some (dp, None)
                    | Some backend_id \<Rightarrow> forward_packet snap backend_id rx fx send dp
                  }
              }
        })"

section \<open>The reaper tick\<close>

text \<open>The callback's state is the statistics, or \<open>None\<close> after a bad access.\<close>

definition on_flow_evicted :: "i32 \<Rightarrow> lb_stats option \<Rightarrow> lb_stats option" where
  "on_flow_evicted backend_id ctx =
     do {
       stats \<leftarrow> ctx;
       if sint backend_id \<ge> 0 then stats_backend_flow_closed stats backend_id else Some stats
     }"

definition timer_tick :: "u64 \<Rightarrow> datapath \<Rightarrow> datapath option" where
  "timer_tick now dp =
     do {
       (ct, reaped, ctx) \<leftarrow> reaper_on_timer_fired (dp_ct dp) now (dp_tcp_timeout_ns (dp_cfg dp))
          (dp_udp_timeout_ns (dp_cfg dp)) (reaper_buckets_per_tick dp) (Some on_flow_evicted)
          (Some (dp_stats dp));
       s \<leftarrow> ctx;
       let dp = count_stat (\<lambda>s. s\<lparr>conntrack_evictions := conntrack_evictions s + reaped\<rparr>)
                  (dp\<lparr>dp_ct := ct, dp_stats := s\<rparr>);
       tg \<leftarrow> table_generator_reclaim (dp_tg dp);
       Some (dp\<lparr>dp_tg := tg\<rparr>)
     }"

section \<open>The event loop\<close>

text \<open>A signal event carries whether its record was read completely.\<close>

datatype dp_event = Dp_signal bool | Dp_timer u64 | Dp_packet buffer u64 "buffer \<Rightarrow> int"

datatype dp_wait = Dp_events "dp_event list" | Dp_eintr | Dp_error

text \<open>The frames handed to the socket, and whether to go on.\<close>

fun dp_events_loop :: "xxh64 \<Rightarrow> dp_event list \<Rightarrow> datapath \<Rightarrow> (datapath \<times> buffer list \<times> bool) option" where
  "dp_events_loop xxh [] dp = Some (dp, [], True)"
| "dp_events_loop xxh (Dp_signal full # evs) dp = Some (dp, [], \<not> full)"
| "dp_events_loop xxh (Dp_timer now # evs) dp =
     do { dp \<leftarrow> timer_tick now dp; dp_events_loop xxh evs dp }"
| "dp_events_loop xxh (Dp_packet rx now send # evs) dp =
     do {
       (dp, tx) \<leftarrow> handle_packet xxh rx now send dp;
       (dp, txs, go) \<leftarrow> dp_events_loop xxh evs dp;
       Some (dp, (case tx of None \<Rightarrow> txs | Some f \<Rightarrow> f # txs), go)
     }"

fun dp_loop :: "xxh64 \<Rightarrow> dp_wait list \<Rightarrow> datapath \<Rightarrow> (datapath \<times> buffer list \<times> int) option" where
  "dp_loop xxh [] dp = None"
| "dp_loop xxh (Dp_eintr # ws) dp = dp_loop xxh ws dp"
| "dp_loop xxh (Dp_error # ws) dp = Some (dp\<lparr>dp_is_running := False\<rparr>, [], - 1)"
| "dp_loop xxh (Dp_events evs # ws) dp =
     do {
       (dp, txs, go) \<leftarrow> dp_events_loop xxh evs dp;
       if go then
         do { (dp, txs', rc) \<leftarrow> dp_loop xxh ws dp; Some (dp, txs @ txs', rc) }
       else Some (dp\<lparr>dp_is_running := False\<rparr>, txs, 0)
     }"

text \<open>The outcomes of the calls that set the loop up.\<close>

record dp_setup =
  ds_raw_socket :: bool
  ds_mac :: "u8 list option"
  ds_timerfd :: bool
  ds_sigmask :: bool
  ds_signalfd :: bool
  ds_epoll_create :: bool
  ds_epoll_add :: "nat \<Rightarrow> bool"

definition setup_epoll :: "dp_setup \<Rightarrow> int" where
  "setup_epoll env =
     (if \<not> ds_epoll_create env then - 1
      else if \<not> ds_epoll_add env 0 then - 1
      else if \<not> ds_epoll_add env 1 then - 1
      else if \<not> ds_epoll_add env 2 then - 1
      else 0)"

text \<open>What \<open>datapath_run\<close> does before its loop, and whether it gets there.\<close>

definition datapath_open :: "dp_setup \<Rightarrow> datapath \<Rightarrow> datapath \<times> bool" where
  "datapath_open env dp =
     (if \<not> ds_raw_socket env then (dp, False)
      else case ds_mac env of
        None \<Rightarrow> (dp, False)
      | Some mac \<Rightarrow>
        let dp = dp\<lparr>own_mac := mac\<rparr> in
        if \<not> ds_timerfd env then (dp, False)
        else if \<not> ds_sigmask env then (dp, False)
        else if \<not> ds_signalfd env then (dp, False)
        else if setup_epoll env \<noteq> 0 then (dp, False)
        else
          (dp\<lparr>reaper_buckets_per_tick := conntrack_bucket_count (dp_ct dp) div 60 + 1,
            dp_is_running := True\<rparr>, True))"

definition datapath_run ::
  "xxh64 \<Rightarrow> dp_setup \<Rightarrow> dp_wait list \<Rightarrow> datapath \<Rightarrow> (datapath \<times> buffer list \<times> int) option" where
  "datapath_run xxh env ws dp =
     (case datapath_open env dp of
        (dp, False) \<Rightarrow> Some (dp, [], - 1)
      | (dp, True) \<Rightarrow> dp_loop xxh ws dp)"

definition datapath_is_running :: "datapath \<Rightarrow> bool" where
  "datapath_is_running dp = dp_is_running dp"

section \<open>The invariant\<close>

text \<open>The flows pinned to a backend.\<close>

definition pinned :: "conntrack_table \<Rightarrow> i32 \<Rightarrow> flow_key set" where
  "pinned ct b = {k. map_option fst (ct_map ct k) = Some b}"

text \<open>The per-backend gauge of active flows is the number of flows pinned to the backend.\<close>

definition gauges_exact :: "conntrack_table \<Rightarrow> lb_stats \<Rightarrow> bool" where
  "gauges_exact ct s \<longleftrightarrow>
     (\<forall>b. unat b < st_max_backends s \<longrightarrow>
        pb_active_flows (pb_of s (unat b)) = of_nat (card (pinned ct b)))"

definition dp_inv :: "xxh64 \<Rightarrow> nat list \<Rightarrow> datapath \<Rightarrow> bool" where
  "dp_inv xxh leaked dp \<longleftrightarrow>
     ct_inv xxh (dp_ct dp) \<and> stats_inv (dp_stats dp) \<and> st_max_backends (dp_stats dp) \<le> 2 ^ 31 \<and>
     gauges_exact (dp_ct dp) (dp_stats dp) \<and>
     tg_conf_inv (quiescent (dp_tg dp) leaked) \<and>
     (case active_snapshot (dp_tg dp) of None \<Rightarrow> True | Some snap \<Rightarrow> snapshot_ok snap) \<and>
     length (own_mac dp) = ETH_ADDR_LEN \<and> length (tx_buf dp) = TX_BUF_LEN"

lemma active_snapshot_cases:
  assumes "tg_conf_inv (quiescent tg leaked)"
  obtains (none) "tg_active tg = None" "active_snapshot tg = None"
  | (some) a snap where "tg_active tg = Some a" "tg_heap tg a = Some snap" "active_snapshot tg = Some snap"
proof (cases "tg_active tg")
  case None
  then show thesis using none by (simp add: active_snapshot_def)
next
  case (Some a)
  have "set (active_list tg) \<subseteq> dom (tg_heap tg)"
    using assms unfolding quiescent_inv_iff by auto
  then obtain snap where "tg_heap tg a = Some snap" using Some by (auto simp: active_list_def)
  then show thesis using some Some by (simp add: active_snapshot_def)
qed

lemma card_pinned:
  assumes "ct_inv xxh ct"
  shows "card (pinned ct b) = length (filter (\<lambda>d. fst (snd d) = b) (ct_flows ct))"
proof -
  have dist: "distinct (map fst (ct_flows ct))"
    by (rule ct_rep_distinct_flows [OF ct_inv_rep [OF assms]])
  have "pinned ct b = fst ` set (filter (\<lambda>d. fst (snd d) = b) (ct_flows ct))"
    using dist by (force simp: pinned_def ct_map_def)
  moreover have "distinct (map fst (filter (\<lambda>d. fst (snd d) = b) (ct_flows ct)))"
    using dist by (rule distinct_map_filter)
  ultimately show ?thesis using distinct_card by fastforce
qed

lemma finite_pinned:
  assumes "ct_inv xxh ct"
  shows "finite (pinned ct b)"
proof -
  have "pinned ct b \<subseteq> dom (ct_map ct)" by (auto simp: pinned_def dom_def)
  moreover have "finite (dom (ct_map ct))" by (simp add: ct_map_def finite_dom_map_of)
  ultimately show ?thesis by (rule finite_subset)
qed

lemma pinned_lookup:
  assumes "ct_map ct' = (case ct_map ct k of None \<Rightarrow> ct_map ct | Some (b, t) \<Rightarrow> (ct_map ct)(k \<mapsto> (b, now)))"
  shows "pinned ct' = pinned ct"
proof (rule ext)
  fix b
  show "pinned ct' b = pinned ct b"
    using assms by (cases "ct_map ct k") (auto simp: pinned_def split: if_splits)
qed

lemma pinned_insert:
  assumes "ct_map ct' = (ct_map ct)(k \<mapsto> (b, now))" "ct_map ct k = None"
  shows "pinned ct' c = (if c = b then insert k (pinned ct c) else pinned ct c)" "k \<notin> pinned ct c"
  using assms by (auto simp: pinned_def)

lemma gauges_opened:
  assumes S: "stats_inv s" and g: "gauges_exact ct s" and I: "ct_inv xxh ct"
    and m: "ct_map ct' = (ct_map ct)(k \<mapsto> (b, now))" "ct_map ct k = None"
  shows "\<exists>s'. stats_backend_flow_opened s b = Some s' \<and> stats_inv s' \<and>
    st_max_backends s' = st_max_backends s \<and> s'\<lparr>st_backends := st_backends s\<rparr> = s \<and> gauges_exact ct' s'"
proof -
  let ?f = "\<lambda>p. p\<lparr>pb_active_flows := pb_active_flows p + 1, pb_flows_assigned := pb_flows_assigned p + 1\<rparr>"
  obtain s' where s': "stats_backend_flow_opened s b = Some s'" "stats_inv s'"
      "st_max_backends s' = st_max_backends s" "s'\<lparr>st_backends := st_backends s\<rparr> = s"
      "\<forall>j < st_max_backends s. pb_of s' j = (if j = unat b then ?f (pb_of s j) else pb_of s j)"
    using update_backend_spec [OF S, of b ?f] unfolding stats_backend_flow_opened_def by blast
  have "pb_active_flows (pb_of s' (unat c)) = of_nat (card (pinned ct' c))"
    if c: "unat c < st_max_backends s" for c
  proof (cases "c = b")
    case True
    have "card (pinned ct' b) = Suc (card (pinned ct b))"
      using pinned_insert [OF m, of b] finite_pinned [OF I, of b] by simp
    then show ?thesis using s'(5) g c True by (simp add: gauges_exact_def)
  next
    case False
    then have "unat c \<noteq> unat b" by (simp add: word_unat_eq_iff)
    then show ?thesis using s'(5) g c False pinned_insert(1) [OF m, of c] by (simp add: gauges_exact_def)
  qed
  then show ?thesis using s' by (auto simp: gauges_exact_def)
qed

text \<open>A sweep: every reported flow lowers the gauge of its backend by one.\<close>

lemma sint_nonneg_iff: "0 \<le> sint (b :: i32) \<longleftrightarrow> unat b < 2 ^ 31"
proof -
  have "sint b < 0 \<longleftrightarrow> bit b 31" using bit_last_iff [of b] by simp
  also have "\<dots> \<longleftrightarrow> bit (unat b) 31" by (simp add: bit_unsigned_iff)
  also have "\<dots> \<longleftrightarrow> odd (unat b div 2 ^ 31)" by (simp add: bit_iff_odd)
  also have "\<dots> \<longleftrightarrow> 2 ^ 31 \<le> unat b"
  proof (cases "2 ^ 31 \<le> unat b")
    case True
    have "unat b div 2 ^ 31 = 1" using True unat_u32_less [of b] by (intro div_nat_eqI) simp_all
    with True show ?thesis by simp
  next
    case False
    then have "unat b div 2 ^ 31 = 0" by (intro div_less) simp
    with False show ?thesis by simp
  qed
  finally show ?thesis by auto
qed

lemma evict_all_gauges:
  assumes "stats_inv s" "st_max_backends s \<le> 2 ^ 31"
  shows "\<exists>s'. evict_all (Some on_flow_evicted) evs (Some s) = Some s' \<and> stats_inv s' \<and>
    st_max_backends s' = st_max_backends s \<and> s'\<lparr>st_backends := st_backends s\<rparr> = s \<and>
    (\<forall>b. unat b < st_max_backends s \<longrightarrow> pb_active_flows (pb_of s' (unat b)) =
       pb_active_flows (pb_of s (unat b)) - of_nat (length (filter (\<lambda>d. fst (snd d) = b) evs)))"
  using assms
proof (induction evs arbitrary: s)
  case Nil
  then show ?case by simp
next
  case (Cons d evs)
  let ?b = "fst (snd d)"
  let ?f = "\<lambda>p. p\<lparr>pb_active_flows := pb_active_flows p - 1\<rparr>"
  obtain s1 where s1: "on_flow_evicted ?b (Some s) = Some s1" "stats_inv s1"
      "st_max_backends s1 = st_max_backends s" "s1\<lparr>st_backends := st_backends s\<rparr> = s"
      "\<forall>j < st_max_backends s. pb_of s1 j = (if j = unat ?b then ?f (pb_of s j) else pb_of s j)"
  proof (cases "0 \<le> sint ?b")
    case True
    then show thesis
      using update_backend_spec [OF Cons.prems(1), of ?b ?f] that
      by (auto simp: on_flow_evicted_def stats_backend_flow_closed_def)
  next
    case False
    then have "2 ^ 31 \<le> unat ?b" by (simp add: sint_nonneg_iff)
    then show thesis using that [of s] Cons.prems False by (simp add: on_flow_evicted_def)
  qed
  obtain s' where s': "evict_all (Some on_flow_evicted) evs (Some s1) = Some s'" "stats_inv s'"
      "st_max_backends s' = st_max_backends s1" "s'\<lparr>st_backends := st_backends s1\<rparr> = s1"
      "\<forall>b. unat b < st_max_backends s1 \<longrightarrow> pb_active_flows (pb_of s' (unat b)) =
       pb_active_flows (pb_of s1 (unat b)) - of_nat (length (filter (\<lambda>d. fst (snd d) = b) evs))"
    using Cons.IH [OF s1(2)] Cons.prems(2) s1(3) by auto
  have "s'\<lparr>st_backends := st_backends s\<rparr> = (s'\<lparr>st_backends := st_backends s1\<rparr>)\<lparr>st_backends := st_backends s\<rparr>"
    by simp
  also have "\<dots> = s" unfolding s'(4) by (rule s1(4))
  finally have rest: "s'\<lparr>st_backends := st_backends s\<rparr> = s" .
  have "pb_active_flows (pb_of s' (unat b)) =
      pb_active_flows (pb_of s (unat b)) - of_nat (length (filter (\<lambda>d. fst (snd d) = b) (d # evs)))"
    if "unat b < st_max_backends s" for b
  proof (cases "b = ?b")
    case True
    then show ?thesis using s'(5) s1(3,5) that by (simp add: diff_diff_eq)
  next
    case False
    then have "unat b \<noteq> unat ?b" by (simp add: word_unat_eq_iff)
    then show ?thesis using s'(5) s1(3,5) that False by auto
  qed
  then show ?case using s' s1(1,3) rest by (simp add: evict_one_def)
qed

lemma gauges_swept:
  assumes I: "ct_inv xxh ct" "ct_inv xxh ct'" and m: "mset evs + mset (ct_flows ct') = mset (ct_flows ct)"
    and g: "gauges_exact ct s" "st_max_backends s' = st_max_backends s"
    and d: "\<forall>b. unat b < st_max_backends s \<longrightarrow> pb_active_flows (pb_of s' (unat b)) =
       pb_active_flows (pb_of s (unat b)) - of_nat (length (filter (\<lambda>d. fst (snd d) = b) evs))"
  shows "gauges_exact ct' s'"
proof -
  have "card (pinned ct b) = length (filter (\<lambda>d. fst (snd d) = b) evs) + card (pinned ct' b)" for b
  proof -
    have "size (filter_mset (\<lambda>d. fst (snd d) = b) (mset evs + mset (ct_flows ct'))) =
        size (filter_mset (\<lambda>d. fst (snd d) = b) (mset (ct_flows ct)))"
      unfolding m ..
    then show ?thesis
      by (simp add: card_pinned [OF I(1)] card_pinned [OF I(2)] flip: mset_filter)
  qed
  then show ?thesis using g d by (simp add: gauges_exact_def)
qed

section \<open>What the handler does\<close>

definition dp_same :: "datapath \<Rightarrow> datapath \<Rightarrow> bool" where
  "dp_same dp dp' \<longleftrightarrow> dp_cfg dp' = dp_cfg dp \<and> dp_tg dp' = dp_tg dp \<and> own_mac dp' = own_mac dp \<and>
     reaper_buckets_per_tick dp' = reaper_buckets_per_tick dp \<and> dp_is_running dp' = dp_is_running dp"

lemma dp_same_refl [simp]: "dp_same dp dp"
  by (simp add: dp_same_def)

lemma dp_same_trans: "dp_same a b \<Longrightarrow> dp_same b c \<Longrightarrow> dp_same a c"
  by (simp add: dp_same_def)

definition keeps_backends :: "(lb_stats \<Rightarrow> lb_stats) \<Rightarrow> bool" where
  "keeps_backends f \<longleftrightarrow> (\<forall>s. st_backends (f s) = st_backends s \<and> st_max_backends (f s) = st_max_backends s)"

lemma keeps_backends_inv:
  assumes "keeps_backends f"
  shows "stats_inv (f s) = stats_inv s" "gauges_exact ct (f s) = gauges_exact ct s"
    "st_max_backends (f s) = st_max_backends s"
  using assms by (simp_all add: keeps_backends_def stats_inv_def gauges_exact_def pb_of_def split: option.splits)

text \<open>An update of the per-backend array leaves the other counters alone.\<close>

lemma backends_only:
  assumes "s'\<lparr>st_backends := b\<rparr> = s"
  shows "tx_packets s' = tx_packets s" "drops_parse_error s' = drops_parse_error s"
    "drops_no_backend s' = drops_no_backend s" "drops_backend_unhealthy s' = drops_backend_unhealthy s"
    "drops_conntrack_full s' = drops_conntrack_full s" "rx_packets s' = rx_packets s"
    "conntrack_hits s' = conntrack_hits s" "conntrack_misses s' = conntrack_misses s"
    "conntrack_evictions s' = conntrack_evictions s" "rx_bytes s' = rx_bytes s" "tx_bytes s' = tx_bytes s"
  unfolding assms [symmetric] by simp_all

lemma gauges_same:
  assumes "gauges_exact ct s" "st_max_backends s' = st_max_backends s"
    "\<And>j. j < st_max_backends s \<Longrightarrow> pb_active_flows (pb_of s' j) = pb_active_flows (pb_of s j)"
  shows "gauges_exact ct s'"
  using assms by (simp add: gauges_exact_def)

lemma dp_inv_count_stat [simp]: "keeps_backends f \<Longrightarrow> dp_inv xxh leaked (count_stat f dp) = dp_inv xxh leaked dp"
  by (simp add: dp_inv_def count_stat_def keeps_backends_inv)

lemma count_stat_simps [simp]:
  "dp_cfg (count_stat f dp) = dp_cfg dp" "dp_tg (count_stat f dp) = dp_tg dp"
  "dp_ct (count_stat f dp) = dp_ct dp" "own_mac (count_stat f dp) = own_mac dp"
  "tx_buf (count_stat f dp) = tx_buf dp" "dp_stats (count_stat f dp) = f (dp_stats dp)"
  "reaper_buckets_per_tick (count_stat f dp) = reaper_buckets_per_tick dp"
  "dp_is_running (count_stat f dp) = dp_is_running dp"
  by (simp_all add: count_stat_def)

lemma dp_same_count_stat [simp]: "dp_same dp (count_stat f dp)"
  by (simp add: dp_same_def)

text \<open>The packets the balancer takes: well-formed TCP or UDP for the virtual address.\<close>

definition accepted :: "datapath \<Rightarrow> buffer \<Rightarrow> bool" where
  "accepted dp rx \<longleftrightarrow> frame_routable rx \<and> dst_ip (frame_key rx) = dp_vip (dp_cfg dp)"

text \<open>The backend the active table proposes for a flow.\<close>

definition table_choice :: "xxh64 \<Rightarrow> table_generator \<Rightarrow> flow_key \<Rightarrow> i32 option" where
  "table_choice xxh tg key =
     do {
       snap \<leftarrow> active_snapshot tg;
       b \<leftarrow> maglev_table_lookup xxh (rs_table snap) key;
       if sint b < 0 then None else Some b
     }"

text \<open>The frame that carries the client's packet to a backend.\<close>

definition frame_to :: "datapath \<Rightarrow> buffer \<Rightarrow> backend_view \<Rightarrow> buffer" where
  "frame_to dp rx v = gre_frame (bv_mac v) (own_mac dp) (dp_director_ip (dp_cfg dp)) (bv_addr v)
     (dp_ttl (dp_cfg dp)) (take (frame_total_len rx) (drop 14 rx))"

definition expected_frame :: "datapath \<Rightarrow> buffer \<Rightarrow> i32 option \<Rightarrow> buffer option" where
  "expected_frame dp rx chosen =
     do {
       b \<leftarrow> chosen;
       snap \<leftarrow> active_snapshot (dp_tg dp);
       v \<leftarrow> routing_snapshot_find_backend snap b;
       if 38 + frame_total_len rx \<le> TX_BUF_LEN then Some (frame_to dp rx v) else None
     }"

text \<open>The packets that were forwarded or dropped for a counted reason.\<close>

definition outcomes :: "lb_stats \<Rightarrow> u64" where
  "outcomes s = tx_packets s + drops_parse_error s + drops_no_backend s + drops_backend_unhealthy s +
     drops_conntrack_full s"

lemma forward_packet_ok:
  assumes I: "dp_inv xxh leaked dp" and snap: "active_snapshot (dp_tg dp) = Some snap"
    and r: "frame_routable rx"
  shows "\<exists>dp'. forward_packet snap b rx \<lparr>fx_key = frame_key rx, ip_offset = 14, ip_total_len = frame_total_len rx\<rparr>
      send dp = Some (dp', expected_frame dp rx (Some b)) \<and> dp_inv xxh leaked dp' \<and> dp_same dp dp' \<and>
    dp_ct dp' = dp_ct dp \<and> rx_packets (dp_stats dp') = rx_packets (dp_stats dp) \<and>
    conntrack_hits (dp_stats dp') = conntrack_hits (dp_stats dp) \<and>
    conntrack_misses (dp_stats dp') = conntrack_misses (dp_stats dp) \<and>
    outcomes (dp_stats dp') = outcomes (dp_stats dp) +
      (case expected_frame dp rx (Some b) of Some f \<Rightarrow> if 0 < send f then 1 else 0 | None \<Rightarrow> 1)"
proof (cases "routing_snapshot_find_backend snap b")
  case None
  then show ?thesis
    using I snap
    by (simp add: forward_packet_def expected_frame_def keeps_backends_def outcomes_def add.assoc)
next
  case (Some v)
  have sok: "snapshot_ok snap" using I snap by (simp add: dp_inv_def)
  have "v \<in> set (rs_backends snap)"
    using Some find_backend_scan_Some by (auto simp: routing_snapshot_find_backend_def)
  then have mac: "length (bv_mac v) = 6" using sok by (simp add: snapshot_ok_def ETH_ADDR_LEN_def)
  have own: "length (own_mac dp) = 6" and buf: "length (tx_buf dp) = TX_BUF_LEN"
    using I by (simp_all add: dp_inv_def ETH_ADDR_LEN_def)
  have len: "frame_total_len rx \<le> length (drop 14 rx)"
    using r by (auto simp: frame_routable_def frame_has_ipv4_def)
  let ?F = "frame_to dp rx v"
  have g: "gre_encap_build (tx_buf dp) TX_BUF_LEN (bv_mac v) (own_mac dp) (dp_director_ip (dp_cfg dp)) (bv_addr v)
      (dp_ttl (dp_cfg dp)) (drop 14 rx) (frame_total_len rx) =
      Some (if 38 + frame_total_len rx \<le> TX_BUF_LEN
        then (38 + frame_total_len rx, ?F @ drop (38 + frame_total_len rx) (tx_buf dp)) else (0, tx_buf dp))"
    using gre_encap_build_eq [OF _ mac own len] buf by (simp add: frame_to_def)
  have lF: "length ?F = 38 + frame_total_len rx"
    using gre_frame_length mac own len by (simp add: frame_to_def)
  show ?thesis
  proof (cases "38 + frame_total_len rx \<le> TX_BUF_LEN")
    case False
    have "dp\<lparr>tx_buf := tx_buf dp\<rparr> = dp" by simp
    then show ?thesis
      using False Some g I snap
      by (simp add: forward_packet_def expected_frame_def keeps_backends_def outcomes_def add.assoc)
  next
    case True
    let ?tx = "?F @ drop (38 + frame_total_len rx) (tx_buf dp)"
    let ?dp = "dp\<lparr>tx_buf := ?tx\<rparr>"
    have Idp: "dp_inv xxh leaked ?dp" using I True lF buf by (simp add: dp_inv_def)
    have tk: "take (38 + frame_total_len rx) ?tx = ?F" using lF by simp
    have ef: "expected_frame dp rx (Some b) = Some ?F" using Some snap True by (simp add: expected_frame_def)
    show ?thesis
    proof (cases "0 < send ?F")
      case False
      then show ?thesis
        using Some g True tk Idp ef by (simp add: forward_packet_def dp_same_def)
    next
      case sent: True
      let ?dp2 = "count_stat (\<lambda>s. s\<lparr>tx_packets := tx_packets s + 1, tx_bytes := tx_bytes s + of_int (send ?F)\<rparr>) ?dp"
      have I2: "dp_inv xxh leaked ?dp2" using Idp by (simp add: keeps_backends_def)
      let ?f = "\<lambda>p. p\<lparr>pb_packets := pb_packets p + 1, pb_bytes := pb_bytes p + of_int (send ?F)\<rparr>"
      have "stats_inv (dp_stats ?dp2)" using I2 by (simp add: dp_inv_def)
      from update_backend_spec [OF this, of b ?f] obtain s where
          s: "stats_record_backend_packet (dp_stats ?dp2) b (of_int (send ?F)) = Some s" "stats_inv s"
          "st_max_backends s = st_max_backends (dp_stats ?dp2)"
          "s\<lparr>st_backends := st_backends (dp_stats ?dp2)\<rparr> = dp_stats ?dp2"
          "\<forall>j < st_max_backends (dp_stats ?dp2).
             pb_of s j = (if j = unat b then ?f (pb_of (dp_stats ?dp2) j) else pb_of (dp_stats ?dp2) j)"
        unfolding stats_record_backend_packet_def by blast
      have "gauges_exact (dp_ct ?dp2) s"
      proof (rule gauges_same [OF _ s(3)])
        show "gauges_exact (dp_ct ?dp2) (dp_stats ?dp2)" using I2 by (simp add: dp_inv_def)
      qed (use s(5) in simp)
      then have "dp_inv xxh leaked (?dp2\<lparr>dp_stats := s\<rparr>)"
        using I2 s(2,3) by (simp add: dp_inv_def)
      moreover have "forward_packet snap b rx \<lparr>fx_key = frame_key rx, ip_offset = 14, ip_total_len = frame_total_len rx\<rparr>
          send dp = Some (?dp2\<lparr>dp_stats := s\<rparr>, expected_frame dp rx (Some b))"
        unfolding ef using Some g True tk sent s(1) by (simp add: forward_packet_def Let_def)
      moreover have "outcomes s = outcomes (dp_stats dp) + 1"
        unfolding outcomes_def backends_only [OF s(4)] by (simp add: ac_simps)
      ultimately show ?thesis
        using backends_only(6-8) [OF s(4)] sent ef
        by (intro exI [of _ "?dp2\<lparr>dp_stats := s\<rparr>"]) (simp add: dp_same_def)
    qed
  qed
qed

lemma expected_frame_same: "dp_same dp dp' \<Longrightarrow> expected_frame dp' rx r = expected_frame dp rx r"
proof -
  assume s: "dp_same dp dp'"
  then have "frame_to dp' rx = frame_to dp rx" by (intro ext) (simp add: dp_same_def frame_to_def)
  then show ?thesis using s by (simp add: dp_same_def expected_frame_def cong: if_cong)
qed

lemma expected_frame_None [simp]: "expected_frame dp rx None = None"
  by (simp add: expected_frame_def)

definition lookups :: "lb_stats \<Rightarrow> u64" where
  "lookups s = conntrack_hits s + conntrack_misses s"

lemma choose_backend_ok:
  assumes I: "dp_inv xxh leaked dp" and snap: "active_snapshot (dp_tg dp) = Some snap"
    and new: "hit = None \<Longrightarrow> ct_map (dp_ct dp) k = None"
  shows "\<exists>dp' c. choose_backend xxh snap k now hit dp = Some (dp', c) \<and> dp_inv xxh leaked dp' \<and> dp_same dp dp' \<and>
    rx_packets (dp_stats dp') = rx_packets (dp_stats dp) \<and> lookups (dp_stats dp') = lookups (dp_stats dp) \<and>
    outcomes (dp_stats dp') = outcomes (dp_stats dp) + (if c = None then 1 else 0) \<and>
    (case hit of
       Some b \<Rightarrow> c = Some b \<and> dp_ct dp' = dp_ct dp
     | None \<Rightarrow>
       (case table_choice xxh (dp_tg dp) k of
          None \<Rightarrow> c = None \<and> dp_ct dp' = dp_ct dp
        | Some b \<Rightarrow> \<exists>done. conntrack_insert xxh (dp_ct dp) k b now = Some (dp_ct dp', done) \<and>
            c = (if done then Some b else None)))"
proof (cases hit)
  case (Some b)
  then show ?thesis using I by (simp add: choose_backend_def)
next
  case None
  have sok: "snapshot_ok snap" using I snap by (simp add: dp_inv_def)
  obtain b where b: "maglev_table_lookup xxh (rs_table snap) k = Some b"
    using maglev_table_lookup_in [OF sok] by blast
  show ?thesis
  proof (cases "sint b < 0")
    case True
    let ?f = "\<lambda>s. s\<lparr>drops_no_backend := drops_no_backend s + 1\<rparr>"
    have "table_choice xxh (dp_tg dp) k = None" using True b snap by (simp add: table_choice_def)
    then show ?thesis
      using None True b I
      by (intro exI [of _ "count_stat ?f dp"] exI [of _ None])
        (simp add: choose_backend_def keeps_backends_def outcomes_def lookups_def ac_simps)
  next
    case False
    have tc: "table_choice xxh (dp_tg dp) k = Some b" using False b snap by (simp add: table_choice_def)
    have ci: "ct_inv xxh (dp_ct dp)" using I by (simp add: dp_inv_def)
    let ?done = "card (dom (ct_map (dp_ct dp))) < length (slab (dp_ct dp))"
    obtain ct where ct: "conntrack_insert xxh (dp_ct dp) k b now = Some (ct, ?done)" "ct_inv xxh ct"
        "ct_map ct = (if ?done then (ct_map (dp_ct dp))(k \<mapsto> (b, now)) else ct_map (dp_ct dp))"
      using conntrack_insert_inv [OF ci new [OF None], of b now] by blast
    show ?thesis
    proof (cases ?done)
      case full: False
      let ?f = "\<lambda>s. s\<lparr>drops_conntrack_full := drops_conntrack_full s + 1\<rparr>"
      have "pinned ct = pinned (dp_ct dp)" using ct(3) full by (simp add: pinned_def fun_eq_iff)
      then have "dp_inv xxh leaked (dp\<lparr>dp_ct := ct\<rparr>)"
        using I ct(2) by (simp add: dp_inv_def gauges_exact_def)
      then show ?thesis
        using None False b tc ct(1) full
        by (intro exI [of _ "count_stat ?f (dp\<lparr>dp_ct := ct\<rparr>)"] exI [of _ None])
          (auto simp: choose_backend_def keeps_backends_def outcomes_def lookups_def dp_same_def ac_simps)
    next
      case room: True
      have g: "stats_inv (dp_stats dp)" "gauges_exact (dp_ct dp) (dp_stats dp)" using I by (simp_all add: dp_inv_def)
      have m: "ct_map ct = (ct_map (dp_ct dp))(k \<mapsto> (b, now))" using ct(3) room by simp
      obtain s where s: "stats_backend_flow_opened (dp_stats dp) b = Some s" "stats_inv s"
          "st_max_backends s = st_max_backends (dp_stats dp)"
          "s\<lparr>st_backends := st_backends (dp_stats dp)\<rparr> = dp_stats dp" "gauges_exact ct s"
        using gauges_opened [OF g ci m new [OF None]] by blast
      have "dp_inv xxh leaked (dp\<lparr>dp_ct := ct, dp_stats := s\<rparr>)"
        using I ct(2) s(2,3,5) by (simp add: dp_inv_def)
      moreover have "outcomes s = outcomes (dp_stats dp)" "lookups s = lookups (dp_stats dp)"
        "rx_packets s = rx_packets (dp_stats dp)"
        unfolding outcomes_def lookups_def backends_only [OF s(4)] by simp_all
      moreover have "choose_backend xxh snap k now hit dp = Some (dp\<lparr>dp_ct := ct, dp_stats := s\<rparr>, Some b)"
        using None False b ct(1) room s(1) by (simp add: choose_backend_def)
      ultimately show ?thesis
        using None tc ct(1) room
        by (intro exI [of _ "dp\<lparr>dp_ct := ct, dp_stats := s\<rparr>"] exI [of _ "Some b"]) (auto simp: dp_same_def)
    qed
  qed
qed

text \<open>The handler on every input.\<close>

lemma handle_packet_other:
  assumes I: "dp_inv xxh leaked dp" and na: "\<not> accepted dp rx"
  shows "\<exists>dp'. handle_packet xxh rx now send dp = Some (dp', None) \<and> dp_inv xxh leaked dp' \<and> dp_same dp dp' \<and>
    dp_ct dp' = dp_ct dp \<and> lookups (dp_stats dp') = lookups (dp_stats dp) \<and>
    rx_packets (dp_stats dp') = rx_packets (dp_stats dp) + (if rx = [] then 0 else 1) \<and>
    outcomes (dp_stats dp') = outcomes (dp_stats dp) +
      (if rx \<noteq> [] \<and> packet_extract_flow rx = Some (Inl PARSE_TRUNCATED) then 1 else 0)"
proof (cases "rx = []")
  case True
  then show ?thesis using I by (simp add: handle_packet_def)
next
  case False
  let ?dp = "count_stat (\<lambda>s. s\<lparr>rx_packets := rx_packets s + 1, rx_bytes := rx_bytes s + of_nat (length rx)\<rparr>) dp"
  let ?f = "\<lambda>s. s\<lparr>drops_parse_error := drops_parse_error s + 1\<rparr>"
  have Idp: "dp_inv xxh leaked ?dp" using I by (simp add: keeps_backends_def)
  consider st where "packet_extract_flow rx = Some (Inl st)"
    | r where "packet_extract_flow rx = Some (Inr r)" "fx_key r = frame_key rx" "frame_routable rx"
  proof -
    obtain ps where ps: "packet_extract_flow rx = Some ps" by (simp add: packet_extract_flow_eq)
    show thesis
    proof (cases ps)
      case (Inl st)
      then show thesis using ps that(1) by simp
    next
      case (Inr r)
      then have "fx_key r = frame_key rx" "frame_routable rx"
        using ps by (auto simp: packet_extract_flow_eq split: if_splits)
      then show thesis using ps Inr that(2) by simp
    qed
  qed
  then show ?thesis
  proof cases
    case (1 st)
    show ?thesis
    proof (cases "st = PARSE_TRUNCATED")
      case True
      then show ?thesis using 1 False I Idp
        by (intro exI [of _ "count_stat ?f ?dp"])
          (simp add: handle_packet_def keeps_backends_def dp_same_def outcomes_def lookups_def ac_simps)
    next
      case st: False
      then show ?thesis using 1 False I Idp
        by (intro exI [of _ ?dp]) (simp add: handle_packet_def dp_same_def outcomes_def lookups_def)
    qed
  next
    case (2 r)
    then have "dst_ip (fx_key r) \<noteq> dp_vip (dp_cfg dp)" using na by (simp add: accepted_def)
    then show ?thesis using 2 False I Idp
      by (intro exI [of _ ?dp]) (simp add: handle_packet_def dp_same_def outcomes_def lookups_def)
  qed
qed

lemma handle_packet_accepted:
  assumes I: "dp_inv xxh leaked dp" and acc: "accepted dp rx"
  shows "\<exists>dp' r. handle_packet xxh rx now send dp = Some (dp', expected_frame dp rx r) \<and>
    dp_inv xxh leaked dp' \<and> dp_same dp dp' \<and>
    store_packet (conntrack_lookup xxh) (conntrack_insert xxh) (dp_ct dp) (frame_key rx) now
      (table_choice xxh (dp_tg dp) (frame_key rx)) = Some (dp_ct dp', r) \<and>
    rx_packets (dp_stats dp') = rx_packets (dp_stats dp) + 1 \<and>
    lookups (dp_stats dp') = lookups (dp_stats dp) + 1 \<and>
    outcomes (dp_stats dp') = outcomes (dp_stats dp) +
      (case expected_frame dp rx r of Some f \<Rightarrow> if 0 < send f then 1 else 0 | None \<Rightarrow> 1)"
proof -
  let ?k = "frame_key rx"
  let ?fx = "\<lparr>fx_key = ?k, ip_offset = 14, ip_total_len = frame_total_len rx\<rparr>"
  have r: "frame_routable rx" "dst_ip ?k = dp_vip (dp_cfg dp)" using acc by (simp_all add: accepted_def)
  have ne: "rx \<noteq> []" using r(1) by (auto simp: frame_routable_def frame_has_ipv4_def)
  have px: "packet_extract_flow rx = Some (Inr ?fx)"
    using r(1) by (auto simp: packet_extract_flow_eq frame_routable_def frame_has_ipv4_def)
  have ci: "ct_inv xxh (dp_ct dp)" using I by (simp add: dp_inv_def)
  let ?hit = "map_option fst (ct_map (dp_ct dp) ?k)"
  obtain ct where ct: "conntrack_lookup xxh (dp_ct dp) ?k now = Some (ct, ?hit)" "ct_inv xxh ct"
      "ct_map ct = (case ct_map (dp_ct dp) ?k of None \<Rightarrow> ct_map (dp_ct dp)
         | Some (b, t) \<Rightarrow> (ct_map (dp_ct dp))(?k \<mapsto> (b, now)))"
    using conntrack_lookup_inv [OF ci, of ?k now] by blast
  let ?dp1 = "count_stat (\<lambda>s. s\<lparr>rx_packets := rx_packets s + 1, rx_bytes := rx_bytes s + of_nat (length rx)\<rparr>) dp"
  let ?h = "\<lambda>s. if ?hit \<noteq> None then s\<lparr>conntrack_hits := conntrack_hits s + 1\<rparr>
        else s\<lparr>conntrack_misses := conntrack_misses s + 1\<rparr>"
  define dp2 where "dp2 = count_stat ?h (?dp1\<lparr>dp_ct := ct\<rparr>)"
  have kb: "keeps_backends ?h" by (simp add: keeps_backends_def)
  have "dp_inv xxh leaked ?dp1" using I by (simp add: keeps_backends_def)
  then have "dp_inv xxh leaked (?dp1\<lparr>dp_ct := ct\<rparr>)"
    using ct(2) pinned_lookup [OF ct(3)] by (simp add: dp_inv_def gauges_exact_def)
  then have I2: "dp_inv xxh leaked dp2" unfolding dp2_def dp_inv_count_stat [OF kb] .
  have d2: "dp_same dp dp2" "dp_ct dp2 = ct" "dp_tg dp2 = dp_tg dp"
      "rx_packets (dp_stats dp2) = rx_packets (dp_stats dp) + 1" "outcomes (dp_stats dp2) = outcomes (dp_stats dp)"
      "lookups (dp_stats dp2) = lookups (dp_stats dp) + 1"
    by (auto simp: dp2_def dp_same_def outcomes_def lookups_def)
  have hp: "handle_packet xxh rx now send dp =
      (case tg_active (dp_tg dp) of
         None \<Rightarrow> Some (count_stat (\<lambda>s. s\<lparr>drops_no_backend := drops_no_backend s + 1\<rparr>) dp2, None)
       | Some a \<Rightarrow> do {
           snap \<leftarrow> tg_heap (dp_tg dp) a;
           (dp, chosen) \<leftarrow> choose_backend xxh snap ?k now ?hit dp2;
           case chosen of None \<Rightarrow> Some (dp, None) | Some b \<Rightarrow> forward_packet snap b rx ?fx send dp })"
    using ne px r(2) ct(1)
    by (simp add: handle_packet_def table_generator_get_active_def dp2_def Let_def cong: option.case_cong)
  have tgi: "tg_conf_inv (quiescent (dp_tg dp) leaked)" using I by (simp add: dp_inv_def)
  from tgi show ?thesis
  proof (cases rule: active_snapshot_cases)
    case none
    let ?f = "\<lambda>s. s\<lparr>drops_no_backend := drops_no_backend s + 1\<rparr>"
    have "table_choice xxh (dp_tg dp) ?k = None" using none by (simp add: table_choice_def)
    moreover have "expected_frame dp rx ?hit = None" using none by (cases ?hit) (simp_all add: expected_frame_def)
    ultimately show ?thesis
      using hp none ct(1) I2 d2
      by (intro exI [of _ "count_stat ?f dp2"] exI [of _ ?hit])
        (auto simp: store_packet_def keeps_backends_def dp_same_def outcomes_def lookups_def ac_simps
          split: option.splits)
  next
    case (some a snap)
    have snap2: "active_snapshot (dp_tg dp2) = Some snap" using some(3) d2(3) by simp
    have new: "ct_map (dp_ct dp2) ?k = None" if "?hit = None" using ct(3) d2(2) that by simp
    obtain dp3 c where c: "choose_backend xxh snap ?k now ?hit dp2 = Some (dp3, c)" "dp_inv xxh leaked dp3"
        "dp_same dp2 dp3" "rx_packets (dp_stats dp3) = rx_packets (dp_stats dp2)"
        "lookups (dp_stats dp3) = lookups (dp_stats dp2)"
        "outcomes (dp_stats dp3) = outcomes (dp_stats dp2) + (if c = None then 1 else 0)"
        "case ?hit of Some b \<Rightarrow> c = Some b \<and> dp_ct dp3 = dp_ct dp2
         | None \<Rightarrow> (case table_choice xxh (dp_tg dp2) ?k of
              None \<Rightarrow> c = None \<and> dp_ct dp3 = dp_ct dp2
            | Some b \<Rightarrow> \<exists>done. conntrack_insert xxh (dp_ct dp2) ?k b now = Some (dp_ct dp3, done) \<and>
                c = (if done then Some b else None))"
      using choose_backend_ok [OF I2 snap2, of ?hit ?k now] new by blast
    have st: "store_packet (conntrack_lookup xxh) (conntrack_insert xxh) (dp_ct dp) ?k now
        (table_choice xxh (dp_tg dp) ?k) = Some (dp_ct dp3, c)"
      using ct(1) c(7) d2(2,3) by (auto simp: store_packet_def split: option.splits)
    have same3: "dp_same dp dp3" by (rule dp_same_trans [OF d2(1) c(3)])
    show ?thesis
    proof (cases c)
      case None
      then show ?thesis using hp some c st same3 d2 by (intro exI [of _ dp3] exI [of _ None]) simp
    next
      case (Some b)
      have snap3: "active_snapshot (dp_tg dp3) = Some snap" using some(3) same3 by (simp add: dp_same_def)
      obtain dp4 where f: "forward_packet snap b rx ?fx send dp3 = Some (dp4, expected_frame dp3 rx (Some b))"
          "dp_inv xxh leaked dp4" "dp_same dp3 dp4" "dp_ct dp4 = dp_ct dp3"
          "rx_packets (dp_stats dp4) = rx_packets (dp_stats dp3)"
          "conntrack_hits (dp_stats dp4) = conntrack_hits (dp_stats dp3)"
          "conntrack_misses (dp_stats dp4) = conntrack_misses (dp_stats dp3)"
          "outcomes (dp_stats dp4) = outcomes (dp_stats dp3) +
            (case expected_frame dp3 rx (Some b) of Some f \<Rightarrow> if 0 < send f then 1 else 0 | None \<Rightarrow> 1)"
        using forward_packet_ok [OF c(2) snap3 r(1), of b send] by blast
      have ef: "expected_frame dp3 rx (Some b) = expected_frame dp rx (Some b)"
        by (rule expected_frame_same [OF same3])
      have "lookups (dp_stats dp4) = lookups (dp_stats dp3)" using f(6,7) by (simp add: lookups_def)
      moreover have "dp_same dp dp4" by (rule dp_same_trans [OF same3 f(3)])
      ultimately show ?thesis
        using hp some c st f d2 Some ef
        by (intro exI [of _ dp4] exI [of _ "Some b"]) simp
    qed
  qed
qed

lemma timer_tick_ok:
  fixes now :: u64
  assumes I: "dp_inv xxh leaked dp"
  defines "args \<equiv> (now, dp_tcp_timeout_ns (dp_cfg dp), dp_udp_timeout_ns (dp_cfg dp),
      reaper_buckets_per_tick dp, Some on_flow_evicted, Some (dp_stats dp))"
  shows "\<exists>dp' r. timer_tick now dp = Some dp' \<and> dp_inv xxh leaked dp' \<and>
    dp_cfg dp' = dp_cfg dp \<and> own_mac dp' = own_mac dp \<and>
    reaper_buckets_per_tick dp' = reaper_buckets_per_tick dp \<and> dp_is_running dp' = dp_is_running dp \<and>
    tg_active (dp_tg dp') = tg_active (dp_tg dp) \<and> active_snapshot (dp_tg dp') = active_snapshot (dp_tg dp) \<and>
    tg_retired (dp_tg dp') = [] \<and>
    ct_sweep (dp_ct dp) args = Some (dp_ct dp', r) \<and>
    conntrack_evictions (dp_stats dp') = conntrack_evictions (dp_stats dp) + fst r \<and>
    rx_packets (dp_stats dp') = rx_packets (dp_stats dp) \<and> outcomes (dp_stats dp') = outcomes (dp_stats dp)"
proof -
  have ci: "ct_inv xxh (dp_ct dp)" and si: "stats_inv (dp_stats dp)" "st_max_backends (dp_stats dp) \<le> 2 ^ 31"
    and g: "gauges_exact (dp_ct dp) (dp_stats dp)" and t: "tg_conf_inv (quiescent (dp_tg dp) leaked)"
    using I by (simp_all add: dp_inv_def)
  obtain ct evs B where r: "conntrack_reap_slice (dp_ct dp) now (dp_tcp_timeout_ns (dp_cfg dp))
        (dp_udp_timeout_ns (dp_cfg dp)) (reaper_buckets_per_tick dp) (Some on_flow_evicted) (Some (dp_stats dp)) =
        Some (ct, of_nat (length evs), evict_all (Some on_flow_evicted) evs (Some (dp_stats dp)))"
      "reap_effect xxh (flow_expired now (dp_tcp_timeout_ns (dp_cfg dp)) (dp_udp_timeout_ns (dp_cfg dp))) B (dp_ct dp) evs ct"
    using conntrack_reap_slice_effect [OF ci, where now = now and tcp = "dp_tcp_timeout_ns (dp_cfg dp)"
      and udp = "dp_udp_timeout_ns (dp_cfg dp)" and max_buckets = "reaper_buckets_per_tick dp"
      and oe = "Some on_flow_evicted" and w = "Some (dp_stats dp)"] by blast
  obtain s where s: "evict_all (Some on_flow_evicted) evs (Some (dp_stats dp)) = Some s" "stats_inv s"
      "st_max_backends s = st_max_backends (dp_stats dp)" "s\<lparr>st_backends := st_backends (dp_stats dp)\<rparr> = dp_stats dp"
      "\<forall>b. unat b < st_max_backends (dp_stats dp) \<longrightarrow> pb_active_flows (pb_of s (unat b)) =
         pb_active_flows (pb_of (dp_stats dp) (unat b)) - of_nat (length (filter (\<lambda>d. fst (snd d) = b) evs))"
    using evict_all_gauges [OF si] by blast
  have eff: "ct_inv xxh ct" "mset evs + mset (ct_flows ct) = mset (ct_flows (dp_ct dp))"
    using r(2) by (simp_all add: reap_effect_def)
  have g': "gauges_exact ct s" by (rule gauges_swept [OF ci eff g s(3,5)])
  obtain tg where tg: "table_generator_reclaim (dp_tg dp) = Some tg" "tg_conf_inv (quiescent tg leaked)"
      "tg_active tg = tg_active (dp_tg dp)" "tg_retired tg = []"
      "tg_heap tg = (tg_heap (dp_tg dp)) |` (set (active_list (dp_tg dp)) \<union> set leaked)"
    using reclaim_ok [OF t] by blast
  have act: "active_snapshot tg = active_snapshot (dp_tg dp)"
    by (cases "tg_active (dp_tg dp)") (simp_all add: active_snapshot_def tg(3,5) active_list_def)
  let ?f = "\<lambda>s. s\<lparr>conntrack_evictions := conntrack_evictions s + of_nat (length evs)\<rparr>"
  let ?dp = "(count_stat ?f (dp\<lparr>dp_ct := ct, dp_stats := s\<rparr>))\<lparr>dp_tg := tg\<rparr>"
  have "dp_inv xxh leaked (dp\<lparr>dp_ct := ct, dp_stats := s\<rparr>)"
    using I eff(1) s(2,3) g' by (simp add: dp_inv_def)
  then have "dp_inv xxh leaked (count_stat ?f (dp\<lparr>dp_ct := ct, dp_stats := s\<rparr>))"
    by (simp add: keeps_backends_def)
  then have "dp_inv xxh leaked ?dp" using tg(2) act by (simp add: dp_inv_def)
  moreover have "timer_tick now dp = Some ?dp"
    using r(1) s(1) tg(1) by (simp add: timer_tick_def reaper_on_timer_fired_def)
  moreover have "ct_sweep (dp_ct dp) args = Some (dp_ct ?dp, of_nat (length evs), Some s)"
    using r(1) s(1) by (simp add: args_def)
  moreover have "conntrack_evictions (dp_stats ?dp) = conntrack_evictions (dp_stats dp) + of_nat (length evs)"
    using backends_only(9) [OF s(4)] by simp
  moreover have "rx_packets (dp_stats ?dp) = rx_packets (dp_stats dp)" "outcomes (dp_stats ?dp) = outcomes (dp_stats dp)"
    by (simp_all add: outcomes_def backends_only [OF s(4)])
  ultimately show ?thesis
    using tg(3,4) act by (intro exI [of _ ?dp] exI [of _ "(of_nat (length evs), Some s)"]) simp
qed

section \<open>Histories\<close>

text \<open>The datapath's state is well formed, whatever was leaked so far.\<close>

definition dp_ok :: "xxh64 \<Rightarrow> datapath \<Rightarrow> bool" where
  "dp_ok xxh dp \<longleftrightarrow> (\<exists>leaked. dp_inv xxh leaked dp)"

text \<open>Steps: a packet, a tick, or the other thread leaving another table behind.\<close>

datatype dp_step = Step_packet buffer u64 "buffer \<Rightarrow> int" | Step_timer u64 | Step_table table_generator

definition table_ok :: "table_generator \<Rightarrow> bool" where
  "table_ok tg \<longleftrightarrow> (\<exists>leaked. tg_conf_inv (quiescent tg leaked)) \<and>
     (case active_snapshot tg of None \<Rightarrow> True | Some snap \<Rightarrow> snapshot_ok snap)"

fun step_ok :: "dp_step \<Rightarrow> bool" where
  "step_ok (Step_table tg) \<longleftrightarrow> table_ok tg"
| "step_ok _ \<longleftrightarrow> True"

text \<open>The trace has each received frame, the snapshot that was active, and the frame sent for it.\<close>

type_synonym dp_trace = "(buffer \<times> routing_snapshot option \<times> buffer option) list"

fun dp_history :: "xxh64 \<Rightarrow> dp_step list \<Rightarrow> datapath \<Rightarrow> (datapath \<times> dp_trace) option" where
  "dp_history xxh [] dp = Some (dp, [])"
| "dp_history xxh (Step_packet rx now send # steps) dp =
     do {
       (dp', tx) \<leftarrow> handle_packet xxh rx now send dp;
       (dp'', tr) \<leftarrow> dp_history xxh steps dp';
       Some (dp'', (rx, active_snapshot (dp_tg dp), tx) # tr)
     }"
| "dp_history xxh (Step_timer now # steps) dp =
     do { dp \<leftarrow> timer_tick now dp; dp_history xxh steps dp }"
| "dp_history xxh (Step_table tg # steps) dp = dp_history xxh steps (dp\<lparr>dp_tg := tg\<rparr>)"

lemma dp_ok_table:
  assumes "dp_ok xxh dp" "table_ok tg"
  shows "dp_ok xxh (dp\<lparr>dp_tg := tg\<rparr>)"
proof -
  obtain leaked where "dp_inv xxh leaked dp" using assms(1) by (auto simp: dp_ok_def)
  moreover obtain leaked' where "tg_conf_inv (quiescent tg leaked')"
      "case active_snapshot tg of None \<Rightarrow> True | Some snap \<Rightarrow> snapshot_ok snap"
    using assms(2) by (auto simp: table_ok_def)
  ultimately have "dp_inv xxh leaked' (dp\<lparr>dp_tg := tg\<rparr>)" by (simp add: dp_inv_def)
  then show ?thesis by (auto simp: dp_ok_def)
qed

lemma handle_packet_total:
  assumes "dp_ok xxh dp"
  shows "\<exists>dp' tx. handle_packet xxh rx now send dp = Some (dp', tx) \<and> dp_ok xxh dp' \<and> dp_same dp dp'"
proof -
  obtain leaked where I: "dp_inv xxh leaked dp" using assms by (auto simp: dp_ok_def)
  show ?thesis
    using handle_packet_accepted [OF I, of rx now send] handle_packet_other [OF I, of rx now send]
    unfolding dp_ok_def by blast
qed

lemma timer_tick_total:
  assumes "dp_ok xxh dp"
  shows "\<exists>dp'. timer_tick now dp = Some dp' \<and> dp_ok xxh dp' \<and> dp_cfg dp' = dp_cfg dp \<and>
    own_mac dp' = own_mac dp \<and> reaper_buckets_per_tick dp' = reaper_buckets_per_tick dp"
proof -
  obtain leaked where I: "dp_inv xxh leaked dp" using assms by (auto simp: dp_ok_def)
  show ?thesis using timer_tick_ok [OF I, of now] unfolding dp_ok_def by blast
qed

lemma dp_history_total:
  assumes "dp_ok xxh dp" "list_all step_ok steps"
  shows "\<exists>dp' tr. dp_history xxh steps dp = Some (dp', tr) \<and> dp_ok xxh dp'"
  using assms
proof (induction steps arbitrary: dp)
  case (Cons step steps)
  have rest: "list_all step_ok steps" using Cons.prems(2) by simp
  show ?case
  proof (cases step)
    case (Step_packet rx now send)
    obtain dp1 tx where "handle_packet xxh rx now send dp = Some (dp1, tx)" "dp_ok xxh dp1"
      using handle_packet_total [OF Cons.prems(1)] by blast
    then show ?thesis using Cons.IH [OF _ rest] Step_packet by fastforce
  next
    case (Step_timer now)
    obtain dp1 where "timer_tick now dp = Some dp1" "dp_ok xxh dp1"
      using timer_tick_total [OF Cons.prems(1)] by blast
    then show ?thesis using Cons.IH [OF _ rest] Step_timer by fastforce
  next
    case (Step_table tg)
    then have "dp_ok xxh (dp\<lparr>dp_tg := tg\<rparr>)" using dp_ok_table Cons.prems by simp
    then show ?thesis using Cons.IH [OF _ rest] Step_table by simp
  qed
qed simp

text \<open>The table operations of a step, for the flow that is watched.\<close>

fun step_ops :: "datapath_config \<Rightarrow> u64 \<Rightarrow> dp_step \<Rightarrow> (flow_key, i32, lb_stats option sweep_args) store_op list" where
  "step_ops cfg n (Step_packet rx now send) =
     (if frame_routable rx \<and> dst_ip (frame_key rx) = dp_vip cfg then [Packet (frame_key rx) now None] else [])"
| "step_ops cfg n (Step_timer now) =
     [Sweep (now, dp_tcp_timeout_ns cfg, dp_udp_timeout_ns cfg, n, Some on_flow_evicted, None)]"
| "step_ops cfg n (Step_table tg) = []"

text \<open>The frame that carries the packet \<open>rx\<close> to the backend with id \<open>b\<close>, at the address the active
  snapshot has for it; none when the snapshot does not have the backend or the packet is too long.\<close>

definition backend_frame ::
    "datapath_config \<Rightarrow> u8 list \<Rightarrow> routing_snapshot option \<Rightarrow> i32 \<Rightarrow> buffer \<Rightarrow> buffer option" where
  "backend_frame cfg mac act b rx =
     do {
       snap \<leftarrow> act;
       v \<leftarrow> routing_snapshot_find_backend snap b;
       if 38 + frame_total_len rx \<le> TX_BUF_LEN
       then Some (gre_frame (bv_mac v) mac (dp_director_ip cfg) (bv_addr v) (dp_ttl cfg)
         (take (frame_total_len rx) (drop 14 rx)))
       else None
     }"

lemma expected_backend_frame:
  "expected_frame dp rx (Some b) = backend_frame (dp_cfg dp) (own_mac dp) (active_snapshot (dp_tg dp)) b rx"
  unfolding expected_frame_def backend_frame_def frame_to_def by simp

text \<open>What is sent for each packet of the flow \<open>k\<close> is the frame to the backend \<open>b\<close>.\<close>

fun flow_sent_to :: "datapath_config \<Rightarrow> u8 list \<Rightarrow> flow_key \<Rightarrow> i32 \<Rightarrow> dp_trace \<Rightarrow> bool" where
  "flow_sent_to cfg mac k b [] \<longleftrightarrow> True"
| "flow_sent_to cfg mac k b ((rx, act, tx) # tr) \<longleftrightarrow>
     (frame_routable rx \<and> frame_key rx = k \<longrightarrow> tx = backend_frame cfg mac act b rx) \<and>
     flow_sent_to cfg mac k b tr"

lemma step_ops_accepted:
  "accepted dp rx \<Longrightarrow> step_ops (dp_cfg dp) n (Step_packet rx now send) = [Packet (frame_key rx) now None]"
  by (simp add: accepted_def)

lemma step_ops_other: "\<not> accepted dp rx \<Longrightarrow> step_ops (dp_cfg dp) n (Step_packet rx now send) = []"
  by (simp add: accepted_def)

declare step_ops.simps(1) [simp del]

lemma dp_history_affinity:
  assumes "dp_ok xxh dp" "list_all step_ok steps" "ct_map (dp_ct dp) k = Some (b, t)"
    "never_expires ct_expired k b t (concat (map (step_ops (dp_cfg dp) (reaper_buckets_per_tick dp)) steps))"
    "dst_ip k = dp_vip (dp_cfg dp)"
  shows "\<exists>dp' tr t'. dp_history xxh steps dp = Some (dp', tr) \<and> dp_ok xxh dp' \<and>
    ct_map (dp_ct dp') k = Some (b, t') \<and> flow_sent_to (dp_cfg dp) (own_mac dp) k b tr"
  using assms
proof (induction steps arbitrary: dp t)
  case (Cons step steps)
  have rest: "list_all step_ok steps" using Cons.prems(2) by simp
  obtain leaked where I: "dp_inv xxh leaked dp" using Cons.prems(1) by (auto simp: dp_ok_def)
  have ci: "ct_inv xxh (dp_ct dp)" using I by (simp add: dp_inv_def)
  show ?case
  proof (cases step)
    case (Step_table tg)
    then have "dp_ok xxh (dp\<lparr>dp_tg := tg\<rparr>)" using dp_ok_table Cons.prems(1,2) by simp
    from Cons.IH [OF this rest, of t] show ?thesis using Cons.prems(3-5) Step_table by simp
  next
    case (Step_timer now)
    obtain dp1 r where d: "timer_tick now dp = Some dp1" "dp_inv xxh leaked dp1" "dp_cfg dp1 = dp_cfg dp"
        "own_mac dp1 = own_mac dp" "reaper_buckets_per_tick dp1 = reaper_buckets_per_tick dp"
        "ct_sweep (dp_ct dp) (now, dp_tcp_timeout_ns (dp_cfg dp), dp_udp_timeout_ns (dp_cfg dp),
           reaper_buckets_per_tick dp, Some on_flow_evicted, Some (dp_stats dp)) = Some (dp_ct dp1, r)"
      using timer_tick_ok [OF I, of now] by blast
    let ?e = "(now, dp_tcp_timeout_ns (dp_cfg dp), dp_udp_timeout_ns (dp_cfg dp),
           reaper_buckets_per_tick dp, Some on_flow_evicted, Some (dp_stats dp))"
    have ne: "\<not> ct_expired ?e k (b, t)"
      and nr: "never_expires ct_expired k b t (concat (map (step_ops (dp_cfg dp) (reaper_buckets_per_tick dp)) steps))"
      using Cons.prems(4) Step_timer by simp_all
    obtain ct1 r1 where w: "ct_sweep (dp_ct dp) ?e = Some (ct1, r1)"
        "\<forall>k d. ct_map (dp_ct dp) k = Some d \<longrightarrow> \<not> ct_expired ?e k d \<longrightarrow> ct_map ct1 k = Some d"
      using ct_store.sweep_law [OF ci, of ?e] by blast
    have "ct1 = dp_ct dp1" using w(1) d(6) by simp
    then have "ct_map (dp_ct dp1) k = Some (b, t)" using w(2) ne Cons.prems(3) by blast
    moreover have "dp_ok xxh dp1" using d(2) by (auto simp: dp_ok_def)
    ultimately show ?thesis
      using Cons.IH [OF _ rest, of dp1 t] nr d Cons.prems(5) Step_timer by simp
  next
    case (Step_packet rx now send)
    show ?thesis
    proof (cases "accepted dp rx")
      case False
      obtain dp1 where d: "handle_packet xxh rx now send dp = Some (dp1, None)" "dp_inv xxh leaked dp1"
          "dp_same dp dp1" "dp_ct dp1 = dp_ct dp"
        using handle_packet_other [OF I False, of now send] by blast
      have ok1: "dp_ok xxh dp1" using d(2) by (auto simp: dp_ok_def)
      have nr: "never_expires ct_expired k b t
          (concat (map (step_ops (dp_cfg dp1) (reaper_buckets_per_tick dp1)) steps))"
        using Cons.prems(4) step_ops_other [OF False] d(3) unfolding Step_packet by (simp add: dp_same_def)
      have nk: "\<not> (frame_routable rx \<and> frame_key rx = k)"
        using False Cons.prems(5) by (auto simp: accepted_def)
      have v: "dst_ip k = dp_vip (dp_cfg dp1)" using Cons.prems(5) d(3) by (simp add: dp_same_def)
      have m1: "ct_map (dp_ct dp1) k = Some (b, t)" using Cons.prems(3) d(4) by simp
      obtain dp' tr t' where h: "dp_history xxh steps dp1 = Some (dp', tr)" "dp_ok xxh dp'"
          "ct_map (dp_ct dp') k = Some (b, t')" "flow_sent_to (dp_cfg dp1) (own_mac dp1) k b tr"
        using Cons.IH [OF ok1 rest m1 nr v] by blast
      have "dp_cfg dp1 = dp_cfg dp" "own_mac dp1 = own_mac dp" using d(3) by (simp_all add: dp_same_def)
      then show ?thesis using d(1) h nk Step_packet by auto
    next
      case True
      obtain dp1 r where d: "handle_packet xxh rx now send dp = Some (dp1, expected_frame dp rx r)"
          "dp_inv xxh leaked dp1" "dp_same dp dp1"
          "store_packet (conntrack_lookup xxh) (conntrack_insert xxh) (dp_ct dp) (frame_key rx) now
            (table_choice xxh (dp_tg dp) (frame_key rx)) = Some (dp_ct dp1, r)"
        using handle_packet_accepted [OF I True, of now send] by blast
      have ok1: "dp_ok xxh dp1" using d(2) by (auto simp: dp_ok_def)
      let ?t = "if frame_key rx = k then now else t"
      have nr: "never_expires ct_expired k b ?t
          (concat (map (step_ops (dp_cfg dp1) (reaper_buckets_per_tick dp1)) steps))"
        using Cons.prems(4) step_ops_accepted [OF True] d(3) unfolding Step_packet by (simp add: dp_same_def)
      have m: "ct_map (dp_ct dp1) k = Some (b, ?t) \<and> (frame_key rx = k \<longrightarrow> r = Some b)"
      proof (cases "frame_key rx = k")
        case True
        then show ?thesis
          using ct_store.packet_hit [OF ci Cons.prems(3), of now "table_choice xxh (dp_tg dp) k"] d(4) by auto
      next
        case False
        then show ?thesis
          using ct_store.packet_other [OF ci False, of now "table_choice xxh (dp_tg dp) (frame_key rx)"] d(4)
            Cons.prems(3) by auto
      qed
      have here: "expected_frame dp rx r = backend_frame (dp_cfg dp) (own_mac dp) (active_snapshot (dp_tg dp)) b rx"
        if "frame_key rx = k" using m that expected_backend_frame by simp
      have v: "dst_ip k = dp_vip (dp_cfg dp1)" using Cons.prems(5) d(3) by (simp add: dp_same_def)
      obtain dp' tr t' where h: "dp_history xxh steps dp1 = Some (dp', tr)" "dp_ok xxh dp'"
          "ct_map (dp_ct dp') k = Some (b, t')"
          "flow_sent_to (dp_cfg dp1) (own_mac dp1) k b tr"
        using Cons.IH [OF ok1 rest conjunct1 [OF m] nr v] by blast
      have "dp_cfg dp1 = dp_cfg dp" "own_mac dp1 = own_mac dp" using d(3) by (simp_all add: dp_same_def)
      then show ?thesis using d(1) h here Step_packet by auto
    qed
  qed
qed simp

section \<open>The loop\<close>

fun batch_stops :: "dp_event list \<Rightarrow> bool" where
  "batch_stops [] \<longleftrightarrow> False"
| "batch_stops (Dp_signal full # evs) \<longleftrightarrow> full"
| "batch_stops (_ # evs) \<longleftrightarrow> batch_stops evs"

fun wait_stops :: "dp_wait \<Rightarrow> bool" where
  "wait_stops (Dp_events evs) \<longleftrightarrow> batch_stops evs"
| "wait_stops Dp_eintr \<longleftrightarrow> False"
| "wait_stops Dp_error \<longleftrightarrow> True"

lemma dp_events_loop_ok:
  assumes "dp_ok xxh dp"
  shows "\<exists>dp' txs. dp_events_loop xxh evs dp = Some (dp', txs, \<not> batch_stops evs) \<and> dp_ok xxh dp'"
  using assms
proof (induction evs arbitrary: dp)
  case (Cons ev evs)
  show ?case
  proof (cases ev)
    case (Dp_signal full)
    then show ?thesis using Cons.prems by simp
  next
    case (Dp_timer now)
    obtain dp1 where "timer_tick now dp = Some dp1" "dp_ok xxh dp1"
      using timer_tick_total [OF Cons.prems] by blast
    then show ?thesis using Cons.IH Dp_timer by fastforce
  next
    case (Dp_packet rx now send)
    obtain dp1 tx where "handle_packet xxh rx now send dp = Some (dp1, tx)" "dp_ok xxh dp1"
      using handle_packet_total [OF Cons.prems] by blast
    then show ?thesis using Cons.IH Dp_packet by fastforce
  qed
qed simp

lemma dp_ok_running [simp]: "dp_ok xxh (dp\<lparr>dp_is_running := r\<rparr>) = dp_ok xxh dp"
  by (simp add: dp_ok_def dp_inv_def)

lemma dp_loop_ok:
  assumes "dp_ok xxh dp" "list_ex wait_stops ws"
  shows "\<exists>dp' txs. dp_loop xxh ws dp =
      Some (dp', txs, if hd (filter wait_stops ws) = Dp_error then - 1 else 0) \<and>
    dp_ok xxh dp' \<and> \<not> datapath_is_running dp'"
  using assms
proof (induction ws arbitrary: dp)
  case (Cons w ws)
  show ?case
  proof (cases w)
    case (Dp_events evs)
    obtain dp1 txs where e: "dp_events_loop xxh evs dp = Some (dp1, txs, \<not> batch_stops evs)" "dp_ok xxh dp1"
      using dp_events_loop_ok [OF Cons.prems(1)] by blast
    show ?thesis
    proof (cases "batch_stops evs")
      case True
      then show ?thesis using e Dp_events by (simp add: datapath_is_running_def)
    next
      case False
      then obtain dp2 txs2 where "dp_loop xxh ws dp1 =
            Some (dp2, txs2, if hd (filter wait_stops ws) = Dp_error then - 1 else 0)"
          "dp_ok xxh dp2" "\<not> datapath_is_running dp2"
        using Cons.IH [OF e(2)] Cons.prems(2) Dp_events by auto
      then show ?thesis using e False Dp_events by simp
    qed
  next
    case Dp_eintr
    then show ?thesis using Cons by simp
  next
    case Dp_error
    then show ?thesis using Cons.prems(1) by (simp add: datapath_is_running_def)
  qed
qed simp

text \<open>All the calls that set the loop up succeed.\<close>

definition setup_ok :: "dp_setup \<Rightarrow> bool" where
  "setup_ok env \<longleftrightarrow> ds_raw_socket env \<and> ds_mac env \<noteq> None \<and> ds_timerfd env \<and> ds_sigmask env \<and>
     ds_signalfd env \<and> setup_epoll env = 0"

section \<open>Accounting\<close>

text \<open>The packets whose fate a counter records.\<close>

definition counted :: "u32 \<Rightarrow> buffer \<Rightarrow> bool" where
  "counted vip rx \<longleftrightarrow> frame_routable rx \<and> dst_ip (frame_key rx) = vip \<or>
     rx \<noteq> [] \<and> packet_extract_flow rx = Some (Inl PARSE_TRUNCATED)"

fun step_frames :: "dp_step \<Rightarrow> buffer list" where
  "step_frames (Step_packet rx now send) = [rx]"
| "step_frames _ = []"

fun step_sends :: "dp_step \<Rightarrow> (buffer \<Rightarrow> int) list" where
  "step_sends (Step_packet rx now send) = [send]"
| "step_sends _ = []"

text \<open>The frames that were handed to the socket and not accepted by it; no counter records them.\<close>

definition refuses :: "(buffer \<Rightarrow> int) \<Rightarrow> buffer option \<Rightarrow> bool" where
  "refuses send tx \<longleftrightarrow> (case tx of Some f \<Rightarrow> send f \<le> 0 | None \<Rightarrow> False)"

fun refused :: "(buffer \<Rightarrow> int) list \<Rightarrow> dp_trace \<Rightarrow> nat" where
  "refused (send # sends) ((_, _, tx) # tr) =
     (if refuses send tx then 1 else 0) + refused sends tr"
| "refused _ _ = 0"

lemma frame_routable_not_truncated:
  "frame_routable rx \<Longrightarrow> packet_extract_flow rx \<noteq> Some (Inl PARSE_TRUNCATED)"
  by (auto simp: packet_extract_flow_eq frame_routable_def frame_has_ipv4_def)

lemma handle_packet_counts:
  assumes I: "dp_inv xxh leaked dp"
  shows "\<exists>dp' tx. handle_packet xxh rx now send dp = Some (dp', tx) \<and> dp_inv xxh leaked dp' \<and>
    dp_cfg dp' = dp_cfg dp \<and>
    rx_packets (dp_stats dp') = rx_packets (dp_stats dp) + (if rx = [] then 0 else 1) \<and>
    outcomes (dp_stats dp') + (if refuses send tx then 1 else 0) =
      outcomes (dp_stats dp) + (if counted (dp_vip (dp_cfg dp)) rx then 1 else 0)"
proof (cases "accepted dp rx")
  case True
  then have c: "counted (dp_vip (dp_cfg dp)) rx" "rx \<noteq> []"
    by (auto simp: counted_def accepted_def frame_routable_def frame_has_ipv4_def)
  obtain dp' r where h: "handle_packet xxh rx now send dp = Some (dp', expected_frame dp rx r)" "dp_inv xxh leaked dp'"
      "dp_same dp dp'" "rx_packets (dp_stats dp') = rx_packets (dp_stats dp) + 1"
      "outcomes (dp_stats dp') = outcomes (dp_stats dp) +
        (case expected_frame dp rx r of Some f \<Rightarrow> if 0 < send f then 1 else 0 | None \<Rightarrow> 1)"
    using handle_packet_accepted [OF I True, of now send] by blast
  then show ?thesis
    using c by (intro exI [of _ dp'] exI [of _ "expected_frame dp rx r"]) (auto simp: refuses_def dp_same_def split: option.splits)
next
  case False
  then have "counted (dp_vip (dp_cfg dp)) rx \<longleftrightarrow> rx \<noteq> [] \<and> packet_extract_flow rx = Some (Inl PARSE_TRUNCATED)"
    by (auto simp: counted_def accepted_def)
  moreover obtain dp' where "handle_packet xxh rx now send dp = Some (dp', None)" "dp_inv xxh leaked dp'" "dp_same dp dp'"
      "rx_packets (dp_stats dp') = rx_packets (dp_stats dp) + (if rx = [] then 0 else 1)"
      "outcomes (dp_stats dp') = outcomes (dp_stats dp) +
        (if rx \<noteq> [] \<and> packet_extract_flow rx = Some (Inl PARSE_TRUNCATED) then 1 else 0)"
    using handle_packet_other [OF I False, of now send] by blast
  ultimately show ?thesis by (intro exI [of _ dp'] exI [of _ None]) (simp add: refuses_def dp_same_def)
qed

lemma timer_tick_counts:
  assumes "dp_ok xxh dp"
  shows "\<exists>dp'. timer_tick now dp = Some dp' \<and> dp_ok xxh dp' \<and> dp_cfg dp' = dp_cfg dp \<and>
    rx_packets (dp_stats dp') = rx_packets (dp_stats dp) \<and> outcomes (dp_stats dp') = outcomes (dp_stats dp)"
proof -
  obtain leaked where I: "dp_inv xxh leaked dp" using assms by (auto simp: dp_ok_def)
  show ?thesis using timer_tick_ok [OF I, of now] unfolding dp_ok_def by blast
qed

lemma sum_chain:
  fixes a :: "'a :: comm_semiring_0"
  assumes "b + r = a + c" "e + q = b + n"
  shows "e + (r + q) = a + (c + n)"
proof -
  have "e + (r + q) = (b + r) + n" using assms(2) by (metis add.assoc add.commute)
  then show ?thesis unfolding assms(1) by (simp only: add.assoc)
qed

lemma dp_history_counts:
  assumes "dp_ok xxh dp" "list_all step_ok steps"
  shows "\<exists>dp' tr. dp_history xxh steps dp = Some (dp', tr) \<and> dp_ok xxh dp' \<and>
    rx_packets (dp_stats dp') = rx_packets (dp_stats dp) +
      of_nat (length (filter (\<lambda>rx. rx \<noteq> []) (concat (map step_frames steps)))) \<and>
    outcomes (dp_stats dp') + of_nat (refused (concat (map step_sends steps)) tr) = outcomes (dp_stats dp) +
      of_nat (length (filter (counted (dp_vip (dp_cfg dp))) (concat (map step_frames steps))))"
  using assms
proof (induction steps arbitrary: dp)
  case (Cons step steps)
  have rest: "list_all step_ok steps" using Cons.prems(2) by simp
  let ?rx = "of_nat (length (filter (\<lambda>rx. rx \<noteq> []) (concat (map step_frames steps))))"
  let ?sends = "concat (map step_sends steps)"
  show ?case
  proof (cases step)
    case (Step_packet rx now send)
    obtain leaked where I: "dp_inv xxh leaked dp" using Cons.prems(1) by (auto simp: dp_ok_def)
    obtain dp1 tx where d: "handle_packet xxh rx now send dp = Some (dp1, tx)" "dp_inv xxh leaked dp1"
        "dp_cfg dp1 = dp_cfg dp" "rx_packets (dp_stats dp1) = rx_packets (dp_stats dp) + (if rx = [] then 0 else 1)"
        "outcomes (dp_stats dp1) + (if refuses send tx then 1 else 0) =
          outcomes (dp_stats dp) + (if counted (dp_vip (dp_cfg dp)) rx then 1 else 0)"
      using handle_packet_counts [OF I, of rx now send] by blast
    have "dp_ok xxh dp1" using d(2) by (auto simp: dp_ok_def)
    then obtain dp2 tr where e: "dp_history xxh steps dp1 = Some (dp2, tr)" "dp_ok xxh dp2"
        "rx_packets (dp_stats dp2) = rx_packets (dp_stats dp1) + ?rx"
        "outcomes (dp_stats dp2) + of_nat (refused ?sends tr) = outcomes (dp_stats dp1) +
          of_nat (length (filter (counted (dp_vip (dp_cfg dp))) (concat (map step_frames steps))))"
      using Cons.IH [of dp1] rest d(3) by auto
    have "outcomes (dp_stats dp2) + ((if refuses send tx then 1 else 0) + of_nat (refused ?sends tr)) = outcomes (dp_stats dp) + ((if counted (dp_vip (dp_cfg dp)) rx then 1 else 0) +
          of_nat (length (filter (counted (dp_vip (dp_cfg dp))) (concat (map step_frames steps)))))"
      by (rule sum_chain [OF d(5) e(4)])
    then show ?thesis using d e Step_packet by auto
  next
    case (Step_timer now)
    obtain dp1 where d: "timer_tick now dp = Some dp1" "dp_ok xxh dp1" "dp_cfg dp1 = dp_cfg dp"
        "rx_packets (dp_stats dp1) = rx_packets (dp_stats dp)" "outcomes (dp_stats dp1) = outcomes (dp_stats dp)"
      using timer_tick_counts [OF Cons.prems(1)] by blast
    from Cons.IH [OF d(2) rest] show ?thesis using d Step_timer by auto
  next
    case (Step_table tg)
    then have "dp_ok xxh (dp\<lparr>dp_tg := tg\<rparr>)" using dp_ok_table Cons.prems(1,2) by simp
    from Cons.IH [OF this rest] show ?thesis using Step_table by auto
  qed
qed simp

section \<open>Properties\<close>

text \<open>A small director for the witnesses: the flow of \<open>demo_key\<close> is pinned to backend 1, which the
  active snapshot still lists but whose table sends every new flow to backend 2.\<close>

definition demo_snap :: routing_snapshot where
  "demo_snap = \<lparr>rs_table = \<lparr>mt_m = 3, mt_lookup = [2, 2, 2]\<rparr>,
     rs_backends = [\<lparr>bv_id = 1, bv_addr = 0x0B00000A, bv_port = 80, bv_mac = [2, 0, 0, 0, 0, 1]\<rparr>,
                    \<lparr>bv_id = 2, bv_addr = 0x0C00000A, bv_port = 80, bv_mac = [2, 0, 0, 0, 0, 2]\<rparr>],
     rs_generation = 1\<rparr>"

definition demo_dp_tg :: table_generator where
  "demo_dp_tg = \<lparr>tg_m = 3, tg_active = Some 0, tg_generation = 1, tg_last_regen_us = 0, tg_retired = [],
     tg_retired_cap = 0, tg_heap = [0 \<mapsto> demo_snap], tg_next_addr = 1\<rparr>"

definition demo_dp :: datapath where
  "demo_dp = \<lparr>dp_cfg = \<lparr>dp_vip = 0x6400000A, dp_director_ip = 0x0100000A, dp_ttl = 64,
       dp_reaper_interval_ms = 1000, dp_tcp_timeout_ns = 50, dp_udp_timeout_ns = 50\<rparr>,
     dp_tg = demo_dp_tg, dp_ct = demo_ct,
     dp_stats = zero_stats\<lparr>st_backends := Some [zero_pb, zero_pb\<lparr>pb_active_flows := 1\<rparr>, zero_pb],
       st_max_backends := 3\<rparr>,
     own_mac = [2, 0, 0, 0, 0, 9], reaper_buckets_per_tick = 1, dp_is_running = False,
     tx_buf = replicate TX_BUF_LEN 0\<rparr>"

definition demo_frame :: buffer where
  "demo_frame = [2, 0, 0, 0, 0, 9, 2, 0, 0, 0, 0, 8, 8, 0, 0x45, 0, 0, 40, 0, 0, 0, 0, 64, 6, 0, 0,
     10, 0, 0, 1, 10, 0, 0, 100, 1, 0, 80, 0] @ replicate 16 0"

lemma demo_frame_ok: "frame_routable demo_frame" "frame_key demo_frame = demo_key" "frame_total_len demo_frame = 40"
  by code_simp+

lemma demo_snapshot [simp]: "active_snapshot demo_dp_tg = Some demo_snap"
  by (simp add: active_snapshot_def demo_dp_tg_def)

lemma demo_snap_ok: "snapshot_ok demo_snap"
  by (simp add: snapshot_ok_def demo_snap_def ETH_ADDR_LEN_def)

lemma demo_dp_tg_inv: "tg_conf_inv (quiescent demo_dp_tg [])"
  by (simp add: quiescent_inv_iff demo_dp_tg_def active_list_def)

lemma demo_pinned: "pinned demo_ct b = (if b = 1 then {demo_key} else {})"
proof -
  have f: "ct_flows demo_ct = [(demo_key, 1, 100)]"
    using ct_rep_flows [OF demo_ct_rep] by (simp add: demo_ct_def ce_data_def)
  have "ct_map demo_ct k = (if k = demo_key then Some (1, 100) else None)" for k
    by (simp add: ct_map_def f)
  then show ?thesis by (auto simp: pinned_def)
qed

lemma demo_dp_inv: "dp_inv demo_xxh [] demo_dp"
proof -
  have "pb_active_flows (pb_of (dp_stats demo_dp) (unat b)) = of_nat (card (pinned demo_ct b))"
    if "unat b < 3" for b :: i32
  proof -
    have "unat b = 0 \<or> unat b = 1 \<or> unat b = 2" using that by linarith
    moreover have "b = 1 \<longleftrightarrow> unat b = 1" by (simp add: word_unat_eq_iff)
    ultimately show ?thesis by (auto simp: demo_pinned demo_dp_def pb_of_def zero_pb_def)
  qed
  then have "gauges_exact demo_ct (dp_stats demo_dp)" by (simp add: gauges_exact_def demo_dp_def)
  then show ?thesis
    using demo_ct_inv demo_dp_tg_inv demo_snap_ok
    by (simp add: dp_inv_def demo_dp_def stats_inv_def ETH_ADDR_LEN_def)
qed

lemma demo_dp_ok: "dp_ok demo_xxh demo_dp"
  using demo_dp_inv by (auto simp: dp_ok_def)

lemma demo_dp_simps [simp]:
  "dp_ct demo_dp = demo_ct" "dp_tg demo_dp = demo_dp_tg" "own_mac demo_dp = [2, 0, 0, 0, 0, 9]"
  "dp_vip (dp_cfg demo_dp) = 0x6400000A" "reaper_buckets_per_tick demo_dp = 1"
  by (simp_all add: demo_dp_def)

lemma demo_accepted: "accepted demo_dp demo_frame"
  by (simp add: accepted_def demo_frame_ok demo_key_def)

text \<open>C4. The packet handler refines the flow table. For a routable packet to the virtual address it
  returns without an access outside a buffer or to a freed snapshot; the connection table changes
  exactly as the abstract step does that answers a pinned flow with its backend and otherwise pins
  the choice of the active Maglev table when there is room; the frame handed to the socket is the
  client's IP packet, unchanged, in a GRE frame for the answered backend, at the address and MAC of
  the active snapshot; and the packet is counted once as received, once as looked up, and once as
  sent or dropped, unless the socket refuses the frame, which no counter records.\<close>

theorem handle_packet_refines:
  assumes "dp_inv xxh leaked dp" "accepted dp rx"
  shows "\<exists>dp' r. handle_packet xxh rx now send dp = Some (dp', expected_frame dp rx r) \<and>
    dp_inv xxh leaked dp' \<and> dp_same dp dp' \<and>
    store_packet (conntrack_lookup xxh) (conntrack_insert xxh) (dp_ct dp) (frame_key rx) now
      (table_choice xxh (dp_tg dp) (frame_key rx)) = Some (dp_ct dp', r) \<and>
    rx_packets (dp_stats dp') = rx_packets (dp_stats dp) + 1 \<and>
    lookups (dp_stats dp') = lookups (dp_stats dp) + 1 \<and>
    outcomes (dp_stats dp') = outcomes (dp_stats dp) +
      (case expected_frame dp rx r of Some f \<Rightarrow> if 0 < send f then 1 else 0 | None \<Rightarrow> 1)"
  using assms by (rule handle_packet_accepted)

theorem handle_packet_refines_witness:
  "\<exists>dp'. handle_packet demo_xxh demo_frame 120 (\<lambda>f. 78) demo_dp =
      Some (dp', Some (gre_frame [2, 0, 0, 0, 0, 1] [2, 0, 0, 0, 0, 9] 0x0100000A 0x0B00000A 64 (drop 14 demo_frame))) \<and>
    ct_map (dp_ct dp') demo_key = Some (1, 120)"
proof -
  obtain dp' r where h: "handle_packet demo_xxh demo_frame 120 (\<lambda>f. 78) demo_dp =
        Some (dp', expected_frame demo_dp demo_frame r)"
      "store_packet (conntrack_lookup demo_xxh) (conntrack_insert demo_xxh) demo_ct demo_key 120
        (table_choice demo_xxh demo_dp_tg demo_key) = Some (dp_ct dp', r)"
    using handle_packet_refines [OF demo_dp_inv demo_accepted, of 120 "\<lambda>f. 78"] by (auto simp: demo_frame_ok)
  moreover have r: "r = Some 1" "ct_map (dp_ct dp') demo_key = Some (1, 120)"
    using ct_store.packet_hit [OF demo_ct_inv demo_ct_map(1), of 120 "table_choice demo_xxh demo_dp_tg demo_key"] h(2)
    by auto
  moreover have "take 40 (drop 14 demo_frame) = drop 14 demo_frame" by (simp add: demo_frame_def)
  ultimately show ?thesis
    by (simp add: expected_backend_frame backend_frame_def demo_frame_ok TX_BUF_LEN_def demo_snap_def
        routing_snapshot_find_backend_def demo_dp_def)
qed

text \<open>C1. Connection affinity, end to end. From a well-formed state in which a flow to the virtual
  address is pinned, any history of received frames, reaper ticks and replacements of the routing
  table runs without a bad access. As long as no tick finds the flow idle for longer than its
  timeout, what is sent for each of its packets is the frame to the backend it was pinned to, at
  the address the snapshot of that moment has for that backend, or nothing when that snapshot does
  not list the backend or the packet does not fit the buffer.\<close>

theorem datapath_affinity:
  assumes "dp_ok xxh dp" "list_all step_ok steps" "ct_map (dp_ct dp) k = Some (b, t)"
    "dst_ip k = dp_vip (dp_cfg dp)"
    "never_expires ct_expired k b t (concat (map (step_ops (dp_cfg dp) (reaper_buckets_per_tick dp)) steps))"
  shows "\<exists>dp' tr t'. dp_history xxh steps dp = Some (dp', tr) \<and> dp_ok xxh dp' \<and>
    ct_map (dp_ct dp') k = Some (b, t') \<and> flow_sent_to (dp_cfg dp) (own_mac dp) k b tr"
  using dp_history_affinity [OF assms(1-3,5,4)] .

theorem datapath_affinity_witness:
  "\<exists>dp' tr t'. dp_history demo_xxh [Step_packet demo_frame 120 (\<lambda>f. 78), Step_timer 160,
      Step_table demo_tg, Step_packet demo_frame 170 (\<lambda>f. 78)] demo_dp = Some (dp', tr) \<and>
    ct_map (dp_ct dp') demo_key = Some (1, t') \<and>
    flow_sent_to (dp_cfg demo_dp) [2, 0, 0, 0, 0, 9] demo_key 1 tr"
proof -
  let ?s = "[Step_packet demo_frame 120 (\<lambda>f. 78), Step_timer 160, Step_table demo_tg,
    Step_packet demo_frame 170 (\<lambda>f. 78)]"
  have "active_snapshot demo_tg = None"
    by (simp add: active_snapshot_def demo_tg_def table_generator_create_def)
  then have s: "list_all step_ok ?s" using demo_tg_ok(2) by (auto simp: table_ok_def)
  have e: "\<not> flow_expired 160 50 50 (demo_key, 1, 120)" by code_simp
  have "concat (map (step_ops (dp_cfg demo_dp) (reaper_buckets_per_tick demo_dp)) ?s) =
      [Packet demo_key 120 None, Sweep (160, 50, 50, 1, Some on_flow_evicted, None), Packet demo_key 170 None]"
    using step_ops_accepted [OF demo_accepted] by (simp add: demo_frame_ok demo_dp_def)
  then have n: "never_expires ct_expired demo_key 1 100
      (concat (map (step_ops (dp_cfg demo_dp) (reaper_buckets_per_tick demo_dp)) ?s))"
    using e by simp
  have "dst_ip demo_key = dp_vip (dp_cfg demo_dp)" by (simp add: demo_key_def)
  from datapath_affinity [OF demo_dp_ok s _ this n] demo_ct_map(1) show ?thesis by auto
qed

text \<open>C6. The datapath never faults. From a well-formed state, any sequence of received frames of any
  content and length, reaper ticks at any times and replacements of the routing table by a
  well-formed one runs to its end without an access outside a buffer, a use of a freed snapshot or
  a loop that does not return, and the state stays well formed; in particular the gauge of active
  flows of every backend with counters is the number of flows pinned to it.\<close>

theorem datapath_never_faults:
  assumes "dp_ok xxh dp" "list_all step_ok steps"
  shows "\<exists>dp' tr. dp_history xxh steps dp = Some (dp', tr) \<and> dp_ok xxh dp' \<and>
    gauges_exact (dp_ct dp') (dp_stats dp')"
proof -
  obtain dp' tr where "dp_history xxh steps dp = Some (dp', tr)" "dp_ok xxh dp'"
    using dp_history_total [OF assms] by blast
  then show ?thesis by (auto simp: dp_ok_def dp_inv_def)
qed

theorem datapath_never_faults_witness:
  "\<exists>dp' tr. dp_history demo_xxh [Step_packet (replicate 60 255) 1 (\<lambda>f. - 1), Step_timer 900,
      Step_packet demo_frame 901 (\<lambda>f. 78)] demo_dp = Some (dp', tr) \<and> gauges_exact (dp_ct dp') (dp_stats dp')"
  using datapath_never_faults [OF demo_dp_ok, of "[Step_packet (replicate 60 255) 1 (\<lambda>f. - 1), Step_timer 900,
      Step_packet demo_frame 901 (\<lambda>f. 78)]"] by auto

text \<open>C35. The event loop ends. When one of the waits delivers a completely read signal or fails,
  \<open>datapath_run\<close> returns from a well-formed state: -1 when setting up failed, leaving the table and
  the statistics untouched, and otherwise 0 or -1 according to what ended the loop; the state is
  well formed and the running flag is cleared.\<close>

theorem datapath_run_returns:
  assumes "dp_ok xxh dp" "list_ex wait_stops ws" "\<not> datapath_is_running dp"
    "\<And>mac. ds_mac env = Some mac \<Longrightarrow> length mac = ETH_ADDR_LEN"
  shows "\<exists>dp' txs. datapath_run xxh env ws dp =
      Some (dp', txs, if setup_ok env \<and> hd (filter wait_stops ws) \<noteq> Dp_error then 0 else - 1) \<and>
    dp_ok xxh dp' \<and> \<not> datapath_is_running dp' \<and>
    (\<not> setup_ok env \<longrightarrow> txs = [] \<and> dp_ct dp' = dp_ct dp \<and> dp_stats dp' = dp_stats dp)"
proof (cases "setup_ok env")
  case True
  then obtain mac where mac: "ds_mac env = Some mac" by (auto simp: setup_ok_def)
  let ?dp = "dp\<lparr>own_mac := mac, reaper_buckets_per_tick := conntrack_bucket_count (dp_ct dp) div 60 + 1,
    dp_is_running := True\<rparr>"
  have "dp_ok xxh ?dp" using assms(1) assms(4) [OF mac] by (simp add: dp_ok_def dp_inv_def)
  then show ?thesis
    using dp_loop_ok [OF _ assms(2), of xxh ?dp] True mac by (auto simp: datapath_run_def datapath_open_def setup_ok_def)
next
  case False
  have "dp_ok xxh (dp\<lparr>own_mac := mac\<rparr>)" if "ds_mac env = Some mac" for mac
    using assms(1) assms(4) [OF that] by (simp add: dp_ok_def dp_inv_def)
  then show ?thesis
    using False assms(1,3)
    by (auto simp: datapath_run_def datapath_open_def setup_ok_def datapath_is_running_def Let_def split: option.splits)
qed

theorem datapath_run_returns_witness:
  "\<exists>dp' txs. datapath_run demo_xxh \<lparr>ds_raw_socket = True, ds_mac = Some [2, 0, 0, 0, 0, 9], ds_timerfd = True,
      ds_sigmask = True, ds_signalfd = True, ds_epoll_create = True, ds_epoll_add = (\<lambda>i. True)\<rparr>
      [Dp_events [Dp_packet demo_frame 120 (\<lambda>f. 78)], Dp_eintr, Dp_events [Dp_timer 130, Dp_signal True]] demo_dp =
      Some (dp', txs, 0) \<and> dp_ok demo_xxh dp' \<and> \<not> datapath_is_running dp'"
proof -
  let ?env = "\<lparr>ds_raw_socket = True, ds_mac = Some [2, 0, 0, 0, 0, 9], ds_timerfd = True,
      ds_sigmask = True, ds_signalfd = True, ds_epoll_create = True, ds_epoll_add = (\<lambda>i. True)\<rparr>"
  have "setup_ok ?env" by (simp add: setup_ok_def setup_epoll_def)
  moreover have "\<not> datapath_is_running demo_dp" by (simp add: datapath_is_running_def demo_dp_def)
  ultimately show ?thesis
    using datapath_run_returns [OF demo_dp_ok, of "[Dp_events [Dp_packet demo_frame 120 (\<lambda>f. 78)], Dp_eintr,
        Dp_events [Dp_timer 130, Dp_signal True]]" ?env]
    by (simp add: ETH_ADDR_LEN_def)
qed

text \<open>C36. No packet is lost without a trace, but for those the socket refuses. Over any history of
  frames, ticks and table replacements the counter of received packets grows by the number of
  frames received, where a receive of no bytes is none; and the counters of sent packets and of drops together grow by the number of
  frames that are truncated or are routable and addressed to the virtual address, less the frames
  that were built and handed to the socket and that it did not accept, which are counted nowhere.\<close>

theorem datapath_packets_accounted:
  assumes "dp_ok xxh dp" "list_all step_ok steps"
  shows "\<exists>dp' tr. dp_history xxh steps dp = Some (dp', tr) \<and>
    rx_packets (dp_stats dp') = rx_packets (dp_stats dp) +
      of_nat (length (filter (\<lambda>rx. rx \<noteq> []) (concat (map step_frames steps)))) \<and>
    outcomes (dp_stats dp') + of_nat (refused (concat (map step_sends steps)) tr) = outcomes (dp_stats dp) +
      of_nat (length (filter (counted (dp_vip (dp_cfg dp))) (concat (map step_frames steps))))"
  using dp_history_counts [OF assms] by blast

theorem datapath_packets_accounted_witness:
  "\<exists>dp' tr. dp_history demo_xxh [Step_packet [1, 2, 3] 1 (\<lambda>f. 1), Step_timer 2,
      Step_packet demo_frame 3 (\<lambda>f. - 1)] demo_dp = Some (dp', tr) \<and>
    rx_packets (dp_stats dp') = 2 \<and>
    outcomes (dp_stats dp') + of_nat (refused [\<lambda>f. 1, \<lambda>f. - 1] tr) = 2"
proof -
  have c: "counted 0x6400000A demo_frame" "counted 0x6400000A [1, 2, 3]" by code_simp+
  have z: "rx_packets (dp_stats demo_dp) = 0" "outcomes (dp_stats demo_dp) = 0"
    by (simp_all add: demo_dp_def zero_stats_def outcomes_def)
  have ne: "demo_frame \<noteq> []" by (simp add: demo_frame_def)
  show ?thesis
    using datapath_packets_accounted [OF demo_dp_ok, of "[Step_packet [1, 2, 3] 1 (\<lambda>f. 1), Step_timer 2,
      Step_packet demo_frame 3 (\<lambda>f. - 1)]"] c ne unfolding z by simp
qed

end
