(* ===== verification/Health_Checker.thy ===== *)
theory Health_Checker
  imports Table_Generator Stats_Registry C_String "HOL-Library.Multiset"
begin

text \<open>
  \<open>src/backend/health_checker.c\<close>: the probe rounds, the rise and fall counters, the admin FIFO
  and the thread's loop. The checker holds the registry, the world of its subscriber and the
  statistics it updates. What the operating system answers is an argument: the outcome of each
  \<open>socket\<close>, \<open>connect\<close> and \<open>epoll_ctl\<close>, the readings of the clock, and, for each \<open>epoll_wait\<close>,
  a function of the timeout it is given. Bytes read from the FIFO come with the event that
  reports it readable. A wait list that is used up stands for a thread that is still blocked,
  so a result \<open>None\<close> of a loop is either that or an access outside an array.
\<close>

section \<open>Data\<close>

definition HC_ADMIN_LINE_MAX :: nat where "HC_ADMIN_LINE_MAX = 128"

record probe_state =
  ps_backend_id :: u32
  consecutive_ok :: u32
  consecutive_fail :: u32
  in_use :: bool

record health_check_cfg =
  hc_interval_ms :: u32
  hc_timeout_ms :: u32
  hc_rise :: u32
  hc_fall :: u32
  hc_admin_fifo :: string

record 'w health_checker =
  hc_bm :: "'w backend_manager"
  hc_world :: 'w
  hc_cfg :: health_check_cfg
  hc_stats :: "lb_stats option"
  admin_fifo_open :: bool
  admin_buf :: "char list"
  admin_buf_len :: nat
  hc_running :: bool
  stop_requested :: bool
  hc_states :: "probe_state list"

definition zero_probe_state :: probe_state where
  "zero_probe_state = \<lparr>ps_backend_id = 0, consecutive_ok = 0, consecutive_fail = 0, in_use = False\<rparr>"

section \<open>Creation, start and stop\<close>

text \<open>The three outcomes: the allocation, the \<open>eventfd\<close>, and the opening of the FIFO.\<close>

definition health_checker_create ::
  "bool \<Rightarrow> bool \<Rightarrow> bool \<Rightarrow> 'w backend_manager \<Rightarrow> 'w \<Rightarrow> health_check_cfg \<Rightarrow> lb_stats option \<Rightarrow>
     'w health_checker option" where
  "health_checker_create calloc_ok eventfd_ok open_ok bm w cfg stats =
     (if \<not> calloc_ok then None
      else if \<not> eventfd_ok then None
      else Some \<lparr>hc_bm = bm, hc_world = w, hc_cfg = cfg, hc_stats = stats,
        admin_fifo_open = (hc_admin_fifo cfg \<noteq> [] \<and> open_ok),
        admin_buf = replicate HC_ADMIN_LINE_MAX (CHR 0x00), admin_buf_len = 0,
        hc_running = False, stop_requested = False,
        hc_states = replicate BACKEND_MAX zero_probe_state\<rparr>)"

definition health_checker_start :: "bool \<Rightarrow> 'w health_checker \<Rightarrow> 'w health_checker \<times> int" where
  "health_checker_start thread_ok hc =
     (if \<not> thread_ok then (hc, - 1) else (hc\<lparr>hc_running := True\<rparr>, 0))"

definition health_checker_stop :: "'w health_checker option \<Rightarrow> 'w health_checker option" where
  "health_checker_stop p =
     (case p of
        None \<Rightarrow> None
      | Some hc \<Rightarrow>
        if \<not> hc_running hc then Some hc
        else Some (hc\<lparr>stop_requested := True, hc_running := False\<rparr>))"

section \<open>Probe results\<close>

definition find_or_create_state :: "'w health_checker \<Rightarrow> u32 \<Rightarrow> 'w health_checker \<times> nat option" where
  "find_or_create_state hc bid =
     (case find (\<lambda>i. in_use (hc_states hc ! i) \<and> ps_backend_id (hc_states hc ! i) = bid) [0..<BACKEND_MAX] of
        Some i \<Rightarrow> (hc, Some i)
      | None \<Rightarrow>
        (case find (\<lambda>i. \<not> in_use (hc_states hc ! i)) [0..<BACKEND_MAX] of
           Some i \<Rightarrow>
           (hc\<lparr>hc_states := (hc_states hc)[i := \<lparr>ps_backend_id = bid, consecutive_ok = 0,
              consecutive_fail = 0, in_use = True\<rparr>]\<rparr>, Some i)
         | None \<Rightarrow> (hc, None)))"

definition set_health_of :: "'w health_checker \<Rightarrow> u32 \<Rightarrow> bool \<Rightarrow> 'w health_checker option" where
  "set_health_of hc bid h =
     do {
       (bm, _, w) \<leftarrow> backend_manager_set_health (hc_bm hc) bid h (hc_world hc);
       Some (hc\<lparr>hc_bm := bm, hc_world := w\<rparr>)
     }"

definition count_failure :: "'w health_checker \<Rightarrow> u32 \<Rightarrow> 'w health_checker option" where
  "count_failure hc bid =
     (case hc_stats hc of
        None \<Rightarrow> Some hc
      | Some s \<Rightarrow>
        map_option (\<lambda>s. hc\<lparr>hc_stats := Some s\<rparr>) (stats_backend_health_check_failed s bid))"

definition record_result :: "u32 \<Rightarrow> bool \<Rightarrow> 'w health_checker \<Rightarrow> 'w health_checker option" where
  "record_result bid ok hc =
     (case find_or_create_state hc bid of
        (hc, None) \<Rightarrow> Some hc
      | (hc, Some i) \<Rightarrow>
        let st = hc_states hc ! i in
        if ok then
          let st = st\<lparr>consecutive_fail := 0\<rparr> in
          if consecutive_ok st < hc_rise (hc_cfg hc) then
            let st = st\<lparr>consecutive_ok := consecutive_ok st + 1\<rparr>;
                hc = hc\<lparr>hc_states := (hc_states hc)[i := st]\<rparr> in
            if consecutive_ok st = hc_rise (hc_cfg hc) then set_health_of hc bid True else Some hc
          else Some (hc\<lparr>hc_states := (hc_states hc)[i := st]\<rparr>)
        else
          do {
            hc \<leftarrow> count_failure hc bid;
            let st = st\<lparr>consecutive_ok := 0\<rparr>;
            if consecutive_fail st < hc_fall (hc_cfg hc) then
              let st = st\<lparr>consecutive_fail := consecutive_fail st + 1\<rparr>;
                  hc = hc\<lparr>hc_states := (hc_states hc)[i := st]\<rparr> in
              if consecutive_fail st = hc_fall (hc_cfg hc) then set_health_of hc bid False else Some hc
            else Some (hc\<lparr>hc_states := (hc_states hc)[i := st]\<rparr>)
          })"

section \<open>Admin commands\<close>

definition set_admin_of ::
  "'w health_checker \<Rightarrow> u32 \<Rightarrow> backend_admin_state \<Rightarrow> 'w health_checker option" where
  "set_admin_of hc bid state =
     do {
       (bm, _, w) \<leftarrow> backend_manager_set_admin_state (hc_bm hc) bid state (hc_world hc);
       Some (hc\<lparr>hc_bm := bm, hc_world := w\<rparr>)
     }"

definition handle_admin_line :: "string \<Rightarrow> 'w health_checker \<Rightarrow> 'w health_checker option" where
  "handle_admin_line line hc =
     (case scan_s 15 line of
        None \<Rightarrow> Some hc
      | Some (verb, rest) \<Rightarrow>
        (case scan_lu rest of
           None \<Rightarrow> Some hc
         | Some (bid, _) \<Rightarrow>
           if verb = ''DRAIN'' then set_admin_of hc (ucast bid) BACKEND_DRAINING
           else if verb = ''UNDRAIN'' then set_admin_of hc (ucast bid) BACKEND_ENABLED
           else Some hc))"

definition put_admin_char :: "char \<Rightarrow> 'w health_checker \<Rightarrow> 'w health_checker option" where
  "put_admin_char c hc =
     (if admin_buf_len hc < length (admin_buf hc)
      then Some (hc\<lparr>admin_buf := (admin_buf hc)[admin_buf_len hc := c]\<rparr>) else None)"

definition process_admin_char :: "char \<Rightarrow> 'w health_checker \<Rightarrow> 'w health_checker option" where
  "process_admin_char c hc =
     (if c = CHR 0x0A then
        do {
          hc \<leftarrow> put_admin_char (CHR 0x00) hc;
          hc \<leftarrow> if admin_buf_len hc > 0 then handle_admin_line (cstring (admin_buf hc)) hc else Some hc;
          Some (hc\<lparr>admin_buf_len := 0\<rparr>)
        }
      else if admin_buf_len hc + 1 < HC_ADMIN_LINE_MAX then
        do {
          hc \<leftarrow> put_admin_char c hc;
          Some (hc\<lparr>admin_buf_len := admin_buf_len hc + 1\<rparr>)
        }
      else Some (hc\<lparr>admin_buf_len := 0\<rparr>))"

text \<open>The successive results of \<open>read\<close> until it returns nothing.\<close>

definition process_admin_fifo :: "char list list \<Rightarrow> 'w health_checker \<Rightarrow> 'w health_checker option" where
  "process_admin_fifo reads hc = mfold (mfold process_admin_char) reads hc"

section \<open>A probe round\<close>

datatype connect_result = Connect_ok | Connect_in_progress | Connect_error

definition start_connect :: "bool \<Rightarrow> (u32 \<Rightarrow> u16 \<Rightarrow> connect_result) \<Rightarrow> u32 \<Rightarrow> u16 \<Rightarrow> bool" where
  "start_connect socket_ok connect addr port =
     (if \<not> socket_ok then False
      else connect addr port = Connect_ok \<or> connect addr port = Connect_in_progress)"

text \<open>The events of the shared \<open>epoll\<close> instance: the wake-up descriptor, the FIFO with the bytes
  that are read from it, and a probe socket with its pending error.\<close>

datatype hc_event = Ev_wake | Ev_admin "char list list" | Ev_sock nat int

datatype wait_result = Wait_events "hc_event list" | Wait_eintr | Wait_error

type_synonym epoll_call = "i32 \<Rightarrow> wait_result"

record round_env =
  re_socket :: "nat \<Rightarrow> bool"
  re_connect :: "nat \<Rightarrow> u32 \<Rightarrow> u16 \<Rightarrow> connect_result"
  re_ctl_add :: "nat \<Rightarrow> bool"
  re_start_ms :: u64
  re_waits :: "(u64 \<times> epoll_call) list"

fun start_probes ::
  "round_env \<Rightarrow> nat \<Rightarrow> backend list \<Rightarrow> 'w health_checker \<Rightarrow> ('w health_checker \<times> bool list) option" where
  "start_probes env i [] hc = Some (hc, [])"
| "start_probes env i (b # bs) hc =
     (if \<not> start_connect (re_socket env i) (re_connect env i) (be_addr b) (be_port b) \<or> \<not> re_ctl_add env i then
        do {
          hc \<leftarrow> record_result (be_id b) False hc;
          (hc, dn) \<leftarrow> start_probes env (i + 1) bs hc;
          Some (hc, True # dn)
        }
      else
        do {
          (hc, dn) \<leftarrow> start_probes env (i + 1) bs hc;
          Some (hc, False # dn)
        })"

text \<open>The events of one wait: the last component tells whether the round was aborted.\<close>

fun round_events ::
  "backend list \<Rightarrow> hc_event list \<Rightarrow> 'w health_checker \<Rightarrow> bool list \<Rightarrow> u64 \<Rightarrow>
     ('w health_checker \<times> bool list \<times> u64 \<times> bool) option" where
  "round_events bs [] hc dn pending = Some (hc, dn, pending, False)"
| "round_events bs (Ev_wake # evs) hc dn pending = Some (hc, dn, pending, True)"
| "round_events bs (Ev_admin reads # evs) hc dn pending =
     do { hc \<leftarrow> process_admin_fifo reads hc; round_events bs evs hc dn pending }"
| "round_events bs (Ev_sock i err # evs) hc dn pending =
     (if i < length bs then
        do {
          hc \<leftarrow> record_result (be_id (bs ! i)) (err = 0) hc;
          round_events bs evs hc (dn[i := True]) (pending - 1)
        }
      else None)"

fun round_loop ::
  "u64 \<Rightarrow> backend list \<Rightarrow> (u64 \<times> epoll_call) list \<Rightarrow> 'w health_checker \<Rightarrow> bool list \<Rightarrow> u64 \<Rightarrow>
     ('w health_checker \<times> bool list \<times> bool) option" where
  "round_loop deadline bs [] hc dn pending = (if pending = 0 then Some (hc, dn, False) else None)"
| "round_loop deadline bs ((now, epoll_wait) # ws) hc dn pending =
     (if pending = 0 then Some (hc, dn, False)
      else
        let remaining = sint deadline - sint now in
        if remaining \<le> 0 then Some (hc, dn, False)
        else case epoll_wait (of_int remaining) of
          Wait_eintr \<Rightarrow> round_loop deadline bs ws hc dn pending
        | Wait_error \<Rightarrow> Some (hc, dn, False)
        | Wait_events evs \<Rightarrow>
          do {
            (hc, dn, pending, aborted) \<leftarrow> round_events bs evs hc dn pending;
            if aborted then Some (hc, dn, True) else round_loop deadline bs ws hc dn pending
          })"

fun round_finish :: "backend list \<Rightarrow> bool list \<Rightarrow> bool \<Rightarrow> 'w health_checker \<Rightarrow> 'w health_checker option" where
  "round_finish (b # bs) (d # dn) aborted hc =
     (if \<not> d \<and> \<not> aborted then
        do { hc \<leftarrow> record_result (be_id b) False hc; round_finish bs dn aborted hc }
      else round_finish bs dn aborted hc)"
| "round_finish bs dn aborted hc = Some hc"

definition run_probe_round :: "round_env \<Rightarrow> 'w health_checker \<Rightarrow> 'w health_checker option" where
  "run_probe_round env hc =
     (let bs = backend_manager_snapshot_all (hc_bm hc) BACKEND_MAX in
      if bs = [] then Some hc
      else
        do {
          (hc, dn) \<leftarrow> start_probes env 0 bs hc;
          let pending = of_nat (length (filter Not dn));
          let deadline = re_start_ms env + ucast (hc_timeout_ms (hc_cfg hc));
          (hc, dn, aborted) \<leftarrow> round_loop deadline bs (re_waits env) hc dn pending;
          round_finish bs dn aborted hc
        })"

section \<open>The thread\<close>

definition wait_next_interval :: "epoll_call \<Rightarrow> 'w health_checker \<Rightarrow> 'w health_checker option" where
  "wait_next_interval epoll_wait hc =
     (case epoll_wait (hc_interval_ms (hc_cfg hc)) of
        Wait_events [Ev_admin reads] \<Rightarrow> process_admin_fifo reads hc
      | _ \<Rightarrow> Some hc)"

text \<open>One iteration: the two readings of \<open>stop_requested\<close>, the round, and the wait.\<close>

record hc_iteration =
  it_stop :: bool
  it_round :: round_env
  it_stop_after :: bool
  it_wait :: epoll_call

fun hc_loop :: "hc_iteration list \<Rightarrow> 'w health_checker \<Rightarrow> 'w health_checker option" where
  "hc_loop [] hc = None"
| "hc_loop (it # its) hc =
     (if it_stop it then Some hc
      else
        do {
          hc \<leftarrow> run_probe_round (it_round it) hc;
          if it_stop_after it then Some hc
          else do { hc \<leftarrow> wait_next_interval (it_wait it) hc; hc_loop its hc }
        })"

definition thread_main :: "bool \<Rightarrow> hc_iteration list \<Rightarrow> 'w health_checker \<Rightarrow> 'w health_checker option" where
  "thread_main epoll_ok its hc = (if \<not> epoll_ok then Some hc else hc_loop its hc)"

section \<open>The probe states as a map\<close>

definition probe_map :: "'w health_checker \<Rightarrow> u32 \<rightharpoonup> probe_state" where
  "probe_map hc bid = map_option (\<lambda>i. hc_states hc ! i)
     (find (\<lambda>i. in_use (hc_states hc ! i) \<and> ps_backend_id (hc_states hc ! i) = bid) [0..<BACKEND_MAX])"

definition states_inv :: "probe_state list \<Rightarrow> bool" where
  "states_inv ss \<longleftrightarrow> length ss = BACKEND_MAX \<and>
     (\<forall>i < BACKEND_MAX. \<forall>j < BACKEND_MAX. in_use (ss ! i) \<and> in_use (ss ! j) \<and>
        ps_backend_id (ss ! i) = ps_backend_id (ss ! j) \<longrightarrow> i = j)"

definition hc_inv :: "'w health_checker \<Rightarrow> bool" where
  "hc_inv hc \<longleftrightarrow> states_inv (hc_states hc) \<and> bm_inv (hc_bm hc) \<and>
     length (admin_buf hc) = HC_ADMIN_LINE_MAX \<and> admin_buf_len hc < HC_ADMIN_LINE_MAX \<and>
     (case hc_stats hc of None \<Rightarrow> True | Some s \<Rightarrow> stats_inv s)"

lemma states_inv_inj:
  assumes "states_inv ss" "i < BACKEND_MAX" "j < BACKEND_MAX" "in_use (ss ! i)" "in_use (ss ! j)"
    "ps_backend_id (ss ! i) = ps_backend_id (ss ! j)"
  shows "i = j"
  using assms unfolding states_inv_def by blast

lemma probe_map_Some_iff:
  assumes "states_inv (hc_states hc)"
  shows "probe_map hc bid = Some st \<longleftrightarrow>
    (\<exists>i < BACKEND_MAX. in_use (hc_states hc ! i) \<and> hc_states hc ! i = st \<and> ps_backend_id st = bid)"
proof
  assume "probe_map hc bid = Some st"
  then show "\<exists>i < BACKEND_MAX. in_use (hc_states hc ! i) \<and> hc_states hc ! i = st \<and> ps_backend_id st = bid"
    by (auto simp: probe_map_def dest!: find_upt_Some)
next
  assume "\<exists>i < BACKEND_MAX. in_use (hc_states hc ! i) \<and> hc_states hc ! i = st \<and> ps_backend_id st = bid"
  then obtain i where i: "i < BACKEND_MAX" "in_use (hc_states hc ! i)" "hc_states hc ! i = st"
      "ps_backend_id st = bid" by blast
  let ?P = "\<lambda>i. in_use (hc_states hc ! i) \<and> ps_backend_id (hc_states hc ! i) = bid"
  have "find ?P [0..<BACKEND_MAX] \<noteq> None" using i by (auto simp: find_None_iff)
  then obtain j where j: "find ?P [0..<BACKEND_MAX] = Some j" by auto
  then have "j < BACKEND_MAX" "?P j" using find_upt_Some [OF j] by simp_all
  then have "j = i" using states_inv_inj [OF assms, of j i] i by simp
  with j i show "probe_map hc bid = Some st" by (simp add: probe_map_def)
qed

text \<open>Writing a state for \<open>bid\<close> into its own slot, or into a free one when it has none.\<close>

lemma states_update:
  assumes I: "states_inv (hc_states hc)" and i: "i < BACKEND_MAX"
    and own: "in_use (hc_states hc ! i) \<and> ps_backend_id (hc_states hc ! i) = bid \<or>
      \<not> in_use (hc_states hc ! i) \<and> probe_map hc bid = None"
    and st: "in_use st" "ps_backend_id st = bid"
  defines "hc' \<equiv> hc\<lparr>hc_states := (hc_states hc)[i := st]\<rparr>"
  shows "states_inv (hc_states hc')" "probe_map hc' = (probe_map hc)(bid \<mapsto> st)"
proof -
  have len: "length (hc_states hc) = BACKEND_MAX" using I by (simp add: states_inv_def)
  have nth: "hc_states hc' ! j = (if j = i then st else hc_states hc ! j)" if "j < BACKEND_MAX" for j
    using len i that by (simp add: hc'_def nth_list_update)
  have other: "ps_backend_id (hc_states hc ! j) \<noteq> bid"
    if j: "j < BACKEND_MAX" "j \<noteq> i" "in_use (hc_states hc ! j)" for j
  proof
    assume e: "ps_backend_id (hc_states hc ! j) = bid"
    then have "probe_map hc bid \<noteq> None" using j by (auto simp: probe_map_def find_None_iff)
    then show False using own states_inv_inj [OF I j(1) i] j e by auto
  qed
  show I': "states_inv (hc_states hc')"
    unfolding states_inv_def
  proof (intro conjI allI impI)
    show "length (hc_states hc') = BACKEND_MAX" using len by (simp add: hc'_def)
    fix j k
    assume jk: "j < BACKEND_MAX" "k < BACKEND_MAX"
      and u: "in_use (hc_states hc' ! j) \<and> in_use (hc_states hc' ! k) \<and>
        ps_backend_id (hc_states hc' ! j) = ps_backend_id (hc_states hc' ! k)"
    show "j = k"
      using u other [OF jk(1)] other [OF jk(2)] states_inv_inj [OF I jk] st
      unfolding nth [OF jk(1)] nth [OF jk(2)] by (auto split: if_splits)
  qed
  have slot: "hc_states hc' ! i = st" using nth [OF i] by simp
  show "probe_map hc' = (probe_map hc)(bid \<mapsto> st)"
  proof (rule ext)
    fix b
    have "probe_map hc' b = Some s \<longleftrightarrow> ((probe_map hc)(bid \<mapsto> st)) b = Some s" for s
    proof (cases "b = bid")
      case True
      have "probe_map hc' bid = Some st"
        unfolding probe_map_Some_iff [OF I'] using i st slot by auto
      then show ?thesis using True by auto
    next
      case False
      have "(\<exists>j < BACKEND_MAX. in_use (hc_states hc' ! j) \<and> hc_states hc' ! j = s \<and> ps_backend_id s = b) \<longleftrightarrow>
          (\<exists>j < BACKEND_MAX. in_use (hc_states hc ! j) \<and> hc_states hc ! j = s \<and> ps_backend_id s = b)"
        using False own st nth by (metis (full_types) option.distinct(1))
      then show ?thesis using False by (simp add: probe_map_Some_iff [OF I'] probe_map_Some_iff [OF I])
    qed
    then show "probe_map hc' b = ((probe_map hc)(bid \<mapsto> st)) b" by (metis not_Some_eq)
  qed
qed

lemma probe_map_full:
  assumes I: "states_inv (hc_states hc)" and f: "\<forall>i < BACKEND_MAX. in_use (hc_states hc ! i)"
  shows "card (dom (probe_map hc)) = BACKEND_MAX"
proof -
  have "dom (probe_map hc) = (\<lambda>i. ps_backend_id (hc_states hc ! i)) ` {..<BACKEND_MAX}"
    using f by (auto simp: dom_def probe_map_Some_iff [OF I])
  moreover have "inj_on (\<lambda>i. ps_backend_id (hc_states hc ! i)) {..<BACKEND_MAX}"
    using states_inv_inj [OF I] f by (auto intro!: inj_onI)
  ultimately show ?thesis by (simp add: card_image)
qed

definition probe_counts :: "'w health_checker \<Rightarrow> u32 \<Rightarrow> u32 \<times> u32" where
  "probe_counts hc bid =
     (case probe_map hc bid of None \<Rightarrow> (0, 0) | Some st \<Rightarrow> (consecutive_ok st, consecutive_fail st))"

lemma find_or_create_state_cases:
  assumes I: "states_inv (hc_states hc)"
  obtains (full) "find_or_create_state hc bid = (hc, None)" "probe_map hc bid = None"
      "card (dom (probe_map hc)) = BACKEND_MAX"
  | (slot) ss i where "find_or_create_state hc bid = (hc\<lparr>hc_states := ss\<rparr>, Some i)" "i < BACKEND_MAX"
      "states_inv ss" "in_use (ss ! i)" "ps_backend_id (ss ! i) = bid"
      "(consecutive_ok (ss ! i), consecutive_fail (ss ! i)) = probe_counts hc bid"
      "probe_map (hc\<lparr>hc_states := ss\<rparr>) = (probe_map hc)(bid \<mapsto> ss ! i)"
proof (cases "find (\<lambda>i. in_use (hc_states hc ! i) \<and> ps_backend_id (hc_states hc ! i) = bid) [0..<BACKEND_MAX]")
  case (Some i)
  have "find_or_create_state hc bid = (hc\<lparr>hc_states := hc_states hc\<rparr>, Some i)"
    using Some by (simp add: find_or_create_state_def)
  moreover have "probe_map hc bid = Some (hc_states hc ! i)" using Some by (simp add: probe_map_def)
  moreover have "probe_map (hc\<lparr>hc_states := hc_states hc\<rparr>) = (probe_map hc)(bid \<mapsto> hc_states hc ! i)"
    using calculation(2) by (auto simp: fun_eq_iff)
  ultimately show thesis
    using find_upt_Some [OF Some] I by (intro slot) (auto simp: probe_counts_def)
next
  case None
  then have pm: "probe_map hc bid = None" by (simp add: probe_map_def)
  show thesis
  proof (cases "find (\<lambda>i. \<not> in_use (hc_states hc ! i)) [0..<BACKEND_MAX]")
    case (Some i)
    let ?st = "\<lparr>ps_backend_id = bid, consecutive_ok = 0, consecutive_fail = 0, in_use = True\<rparr>"
    have i: "i < BACKEND_MAX" "\<not> in_use (hc_states hc ! i)" using find_upt_Some [OF Some] by simp_all
    have nth: "(hc_states hc)[i := ?st] ! i = ?st" using I i by (simp add: states_inv_def)
    have own: "in_use (hc_states hc ! i) \<and> ps_backend_id (hc_states hc ! i) = bid \<or>
        \<not> in_use (hc_states hc ! i) \<and> probe_map hc bid = None" using i pm by simp
    note u = states_update [OF I i(1) own, of ?st]
    have "find_or_create_state hc bid = (hc\<lparr>hc_states := (hc_states hc)[i := ?st]\<rparr>, Some i)"
      using None Some by (simp add: find_or_create_state_def)
    then show thesis
      using u i(1) nth pm by (intro slot [of "(hc_states hc)[i := ?st]" i]) (simp_all add: probe_counts_def)
  next
    case none: None
    then have "\<forall>i < BACKEND_MAX. in_use (hc_states hc ! i)" by (auto simp: find_None_iff)
    then show thesis
      using None none pm probe_map_full [OF I] by (intro full) (simp_all add: find_or_create_state_def)
  qed
qed

section \<open>What a result does\<close>

definition probe_step :: "health_check_cfg \<Rightarrow> bool \<Rightarrow> u32 \<times> u32 \<Rightarrow> u32 \<times> u32" where
  "probe_step cfg r = (\<lambda>(o_k, f).
     if r then (if o_k < hc_rise cfg then o_k + 1 else o_k, 0)
     else (0, if f < hc_fall cfg then f + 1 else f))"

definition probe_flip :: "health_check_cfg \<Rightarrow> bool \<Rightarrow> u32 \<times> u32 \<Rightarrow> bool" where
  "probe_flip cfg r = (\<lambda>(o_k, f).
     if r then o_k < hc_rise cfg \<and> o_k + 1 = hc_rise cfg
     else f < hc_fall cfg \<and> f + 1 = hc_fall cfg)"

lemma count_failure_ok:
  assumes "hc_inv hc"
  shows "\<exists>s. count_failure hc bid = Some (hc\<lparr>hc_stats := s\<rparr>) \<and> (case s of None \<Rightarrow> True | Some s \<Rightarrow> stats_inv s)"
proof (cases "hc_stats hc")
  case None
  then have "hc = hc\<lparr>hc_stats := None\<rparr>" by simp
  then show ?thesis using None by (intro exI [of _ None]) (simp add: count_failure_def)
next
  case (Some s)
  then have "stats_inv s" using assms by (simp add: hc_inv_def)
  from update_backend_spec [OF this] obtain s' where "stats_backend_health_check_failed s bid = Some s'" "stats_inv s'"
    unfolding stats_backend_health_check_failed_def by blast
  then show ?thesis using Some by (intro exI [of _ "Some s'"]) (simp add: count_failure_def)
qed

lemma probe_map_cong: "hc_states hc' = hc_states hc \<Longrightarrow> probe_map hc' = probe_map hc"
  by (simp add: probe_map_def fun_eq_iff)

text \<open>The checker over a subscriber with well-formed state.\<close>

definition checker_ok ::
  "(bm_slots \<Rightarrow> 'w \<Rightarrow> 'w option) \<Rightarrow> ('w \<Rightarrow> bool) \<Rightarrow> 'w health_checker \<Rightarrow> bool" where
  "checker_ok cb ok hc \<longleftrightarrow> hc_inv hc \<and> bm_cb (hc_bm hc) = Some cb \<and> ok (hc_world hc)"

context subscriber
begin

lemma set_health_of_ok:
  assumes "checker_ok cb ok hc"
  shows "\<exists>bm w. set_health_of hc bid h = Some (hc\<lparr>hc_bm := bm, hc_world := w\<rparr>) \<and>
    bm_inv bm \<and> bm_cb bm = Some cb \<and> ok w \<and> next_id bm = next_id (hc_bm hc) \<and>
    bm_map bm = (bm_map (hc_bm hc))(bid := map_option (\<lambda>b. b\<lparr>healthy := h\<rparr>) (bm_map (hc_bm hc) bid))"
proof -
  have "bm_inv (hc_bm hc)" "bm_cb (hc_bm hc) = Some cb" "ok (hc_world hc)"
    using assms by (simp_all add: checker_ok_def hc_inv_def)
  from set_health_ok [OF this, of bid h] show ?thesis by (fastforce simp: set_health_of_def)
qed

lemma set_admin_of_ok:
  assumes "checker_ok cb ok hc"
  shows "\<exists>bm w. set_admin_of hc bid a = Some (hc\<lparr>hc_bm := bm, hc_world := w\<rparr>) \<and>
    bm_inv bm \<and> bm_cb bm = Some cb \<and> ok w \<and> next_id bm = next_id (hc_bm hc) \<and>
    bm_map bm = (bm_map (hc_bm hc))(bid := map_option (\<lambda>b. b\<lparr>admin_state := a\<rparr>) (bm_map (hc_bm hc) bid))"
proof -
  have "bm_inv (hc_bm hc)" "bm_cb (hc_bm hc) = Some cb" "ok (hc_world hc)"
    using assms by (simp_all add: checker_ok_def hc_inv_def)
  from set_admin_ok [OF this, of bid a] show ?thesis by (fastforce simp: set_admin_of_def)
qed

text \<open>The common end of both branches: store the counters, and set the health at the threshold.\<close>

lemma store_state_ok:
  assumes K: "checker_ok cb ok hc" and i: "i < BACKEND_MAX" "in_use (hc_states hc ! i)" "ps_backend_id (hc_states hc ! i) = bid"
    and st: "in_use st" "ps_backend_id st = bid"
  shows "\<exists>bm w. (let hc = hc\<lparr>hc_states := (hc_states hc)[i := st]\<rparr> in
      if flip then set_health_of hc bid h else Some hc) =
      Some (hc\<lparr>hc_states := (hc_states hc)[i := st], hc_bm := bm, hc_world := w\<rparr>) \<and>
    checker_ok cb ok (hc\<lparr>hc_states := (hc_states hc)[i := st], hc_bm := bm, hc_world := w\<rparr>) \<and>
    next_id bm = next_id (hc_bm hc) \<and>
    bm_map bm = (if flip then (bm_map (hc_bm hc))(bid := map_option (\<lambda>b. b\<lparr>healthy := h\<rparr>) (bm_map (hc_bm hc) bid))
      else bm_map (hc_bm hc))"
proof -
  let ?hc = "hc\<lparr>hc_states := (hc_states hc)[i := st]\<rparr>"
  have "states_inv (hc_states hc)" using K by (simp add: checker_ok_def hc_inv_def)
  then have "states_inv (hc_states ?hc)" using states_update(1) [OF _ i(1) _ st] i by blast
  then have ok': "checker_ok cb ok ?hc" using K by (simp add: checker_ok_def hc_inv_def)
  show ?thesis
  proof (cases flip)
    case True
    obtain bm w where "set_health_of ?hc bid h = Some (?hc\<lparr>hc_bm := bm, hc_world := w\<rparr>)"
        "bm_inv bm" "bm_cb bm = Some cb" "ok w" "next_id bm = next_id (hc_bm hc)"
        "bm_map bm = (bm_map (hc_bm hc))(bid := map_option (\<lambda>b. b\<lparr>healthy := h\<rparr>) (bm_map (hc_bm hc) bid))"
      using set_health_of_ok [OF ok', of bid h] by auto
    then show ?thesis using True ok'
      by (intro exI [of _ bm] exI [of _ w]) (simp add: checker_ok_def hc_inv_def)
  next
    case False
    then show ?thesis using ok'
      by (intro exI [of _ "hc_bm hc"] exI [of _ "hc_world hc"]) (cases hc, simp)
  qed
qed

lemma record_result_cases:
  assumes K: "checker_ok cb ok hc"
  obtains (dropped) "record_result bid r hc = Some hc" "probe_map hc bid = None"
      "card (dom (probe_map hc)) = BACKEND_MAX"
  | (recorded) hc' where "record_result bid r hc = Some hc'" "checker_ok cb ok hc'"
      "dom (probe_map hc') = insert bid (dom (probe_map hc))"
      "probe_counts hc' = (probe_counts hc)(bid := probe_step (hc_cfg hc) r (probe_counts hc bid))"
      "bm_map (hc_bm hc') = (if probe_flip (hc_cfg hc) r (probe_counts hc bid)
         then (bm_map (hc_bm hc))(bid := map_option (\<lambda>b. b\<lparr>healthy := r\<rparr>) (bm_map (hc_bm hc) bid))
         else bm_map (hc_bm hc))"
      "next_id (hc_bm hc') = next_id (hc_bm hc)"
      "hc_cfg hc' = hc_cfg hc" "admin_buf hc' = admin_buf hc" "admin_buf_len hc' = admin_buf_len hc"
      "hc_running hc' = hc_running hc" "stop_requested hc' = stop_requested hc"
      "admin_fifo_open hc' = admin_fifo_open hc"
proof -
  have I: "states_inv (hc_states hc)" using K by (simp add: checker_ok_def hc_inv_def)
  from I show thesis
  proof (cases rule: find_or_create_state_cases [of hc bid])
    case full
    then show thesis by (intro dropped) (simp_all add: record_result_def)
  next
    case (slot ss i)
    let ?hc = "hc\<lparr>hc_states := ss\<rparr>"
    obtain o' f' where st: "ss ! i = \<lparr>ps_backend_id = bid, consecutive_ok = o', consecutive_fail = f', in_use = True\<rparr>"
        and c: "probe_counts hc bid = (o', f')"
      using slot(4-6) by (cases "ss ! i") auto
    let ?flip = "probe_flip (hc_cfg hc) r (o', f')"
    let ?c' = "probe_step (hc_cfg hc) r (o', f')"
    let ?st' = "\<lparr>ps_backend_id = bid, consecutive_ok = fst ?c', consecutive_fail = snd ?c', in_use = True\<rparr>"
    have inv: "hc_inv ?hc" using K slot(3) by (simp add: checker_ok_def hc_inv_def)
    obtain s where s: "count_failure ?hc bid = Some (?hc\<lparr>hc_stats := s\<rparr>)"
        "case s of None \<Rightarrow> True | Some s \<Rightarrow> stats_inv s"
      using count_failure_ok [OF inv] by blast
    define hc1 where "hc1 = (if r then ?hc else ?hc\<lparr>hc_stats := s\<rparr>)"
    have hc1: "checker_ok cb ok hc1" "hc_states hc1 = ss" "hc_bm hc1 = hc_bm hc" "hc_cfg hc1 = hc_cfg hc"
        "admin_buf hc1 = admin_buf hc" "admin_buf_len hc1 = admin_buf_len hc" "hc_running hc1 = hc_running hc"
        "stop_requested hc1 = stop_requested hc" "admin_fifo_open hc1 = admin_fifo_open hc"
      using inv K s(2) by (auto simp: hc1_def checker_ok_def hc_inv_def)
    have e: "record_result bid r hc =
        (let hc = hc1\<lparr>hc_states := (hc_states hc1)[i := ?st']\<rparr> in
         if ?flip then set_health_of hc bid r else Some hc)"
    proof (cases r)
      case True
      then show ?thesis
        by (simp add: record_result_def slot(1) st hc1_def probe_step_def probe_flip_def Let_def)
    next
      case False
      then show ?thesis
        by (simp add: record_result_def slot(1) s(1) st hc1_def probe_step_def probe_flip_def Let_def)
    qed
    have in_slot: "in_use (hc_states hc1 ! i)" "ps_backend_id (hc_states hc1 ! i) = bid"
      using slot(4,5) hc1(2) by simp_all
    have st': "in_use ?st'" "ps_backend_id ?st' = bid" by simp_all
    obtain bm w where f: "(let hc = hc1\<lparr>hc_states := (hc_states hc1)[i := ?st']\<rparr> in
         if ?flip then set_health_of hc bid r else Some hc) =
         Some (hc1\<lparr>hc_states := (hc_states hc1)[i := ?st'], hc_bm := bm, hc_world := w\<rparr>)"
        "checker_ok cb ok (hc1\<lparr>hc_states := (hc_states hc1)[i := ?st'], hc_bm := bm, hc_world := w\<rparr>)"
        "next_id bm = next_id (hc_bm hc1)"
        "bm_map bm = (if ?flip then (bm_map (hc_bm hc1))(bid := map_option (\<lambda>b. b\<lparr>healthy := r\<rparr>) (bm_map (hc_bm hc1) bid))
           else bm_map (hc_bm hc1))"
      using store_state_ok [OF hc1(1) slot(2) in_slot st', of ?flip r] by blast
    let ?hc' = "hc1\<lparr>hc_states := (hc_states hc1)[i := ?st'], hc_bm := bm, hc_world := w\<rparr>"
    have own: "in_use (hc_states ?hc ! i) \<and> ps_backend_id (hc_states ?hc ! i) = bid \<or>
        \<not> in_use (hc_states ?hc ! i) \<and> probe_map ?hc bid = None" using slot(4,5) by simp
    have "probe_map ?hc' = probe_map (?hc\<lparr>hc_states := (hc_states ?hc)[i := ?st']\<rparr>)"
      using hc1(2) by (intro probe_map_cong) simp
    also have "\<dots> = (probe_map ?hc)(bid \<mapsto> ?st')"
      by (rule states_update(2)) (use slot own st' in simp_all)
    also have "\<dots> = (probe_map hc)(bid \<mapsto> ?st')" unfolding slot(7) by simp
    finally have pm: "probe_map ?hc' = (probe_map hc)(bid \<mapsto> ?st')" .
    show thesis
    proof (rule recorded [of ?hc'])
      show "record_result bid r hc = Some ?hc'" unfolding e by (rule f(1))
      show "checker_ok cb ok ?hc'" by (rule f(2))
      show "dom (probe_map ?hc') = insert bid (dom (probe_map hc))" unfolding pm by simp
      show "probe_counts ?hc' = (probe_counts hc)(bid := probe_step (hc_cfg hc) r (probe_counts hc bid))"
        unfolding c by (rule ext) (simp add: probe_counts_def pm)
    qed (use f(3,4) hc1 c in simp_all)
  qed
qed

end

section \<open>Admin input\<close>

text \<open>What the admin commands leave alone: the probe states, the configuration, the health and
  the identity of every backend.\<close>

definition health_map :: "'z bm_slots_scheme \<Rightarrow> u32 \<rightharpoonup> bool" where
  "health_map bm bid = map_option healthy (bm_map bm bid)"

definition same_probes :: "'w health_checker \<Rightarrow> 'w health_checker \<Rightarrow> bool" where
  "same_probes hc hc' \<longleftrightarrow> hc_states hc' = hc_states hc \<and> hc_cfg hc' = hc_cfg hc \<and>
     health_map (hc_bm hc') = health_map (hc_bm hc) \<and> next_id (hc_bm hc') = next_id (hc_bm hc)"

lemma same_probes_refl [simp]: "same_probes hc hc"
  by (simp add: same_probes_def)

lemma same_probes_trans: "same_probes a b \<Longrightarrow> same_probes b c \<Longrightarrow> same_probes a c"
  by (simp add: same_probes_def)

context subscriber
begin

lemma set_admin_of_same:
  assumes "checker_ok cb ok hc"
  shows "\<exists>hc'. set_admin_of hc bid a = Some hc' \<and> checker_ok cb ok hc' \<and> same_probes hc hc' \<and>
    admin_buf_len hc' = admin_buf_len hc \<and>
    bm_map (hc_bm hc') = (bm_map (hc_bm hc))(bid := map_option (\<lambda>b. b\<lparr>admin_state := a\<rparr>) (bm_map (hc_bm hc) bid))"
proof -
  obtain bm w where e: "set_admin_of hc bid a = Some (hc\<lparr>hc_bm := bm, hc_world := w\<rparr>)" "bm_inv bm"
      "bm_cb bm = Some cb" "ok w" "next_id bm = next_id (hc_bm hc)"
      "bm_map bm = (bm_map (hc_bm hc))(bid := map_option (\<lambda>b. b\<lparr>admin_state := a\<rparr>) (bm_map (hc_bm hc) bid))"
    using set_admin_of_ok [OF assms, of bid a] by auto
  have "health_map bm = health_map (hc_bm hc)"
    by (rule ext) (simp add: health_map_def e(6) option.map_comp comp_def)
  then show ?thesis using e assms by (simp add: checker_ok_def hc_inv_def same_probes_def)
qed

lemma handle_admin_line_ok:
  assumes "checker_ok cb ok hc"
  shows "\<exists>hc'. handle_admin_line line hc = Some hc' \<and> checker_ok cb ok hc' \<and> same_probes hc hc' \<and>
    admin_buf_len hc' = admin_buf_len hc"
  using assms set_admin_of_same [OF assms]
  by (auto simp: handle_admin_line_def split: option.splits)

lemma process_admin_char_ok:
  assumes "checker_ok cb ok hc"
  shows "\<exists>hc'. process_admin_char c hc = Some hc' \<and> checker_ok cb ok hc' \<and> same_probes hc hc'"
proof -
  let ?put = "\<lambda>x. hc\<lparr>admin_buf := (admin_buf hc)[admin_buf_len hc := x]\<rparr>"
  have put: "put_admin_char x hc = Some (?put x)" "checker_ok cb ok (?put x)" for x
    using assms by (simp_all add: put_admin_char_def checker_ok_def hc_inv_def)
  have reset: "checker_ok cb ok (h\<lparr>admin_buf_len := 0\<rparr>)" if "checker_ok cb ok h" for h
    using that by (simp add: checker_ok_def hc_inv_def HC_ADMIN_LINE_MAX_def)
  obtain h where h: "handle_admin_line (cstring (admin_buf (?put (CHR 0x00)))) (?put (CHR 0x00)) = Some h"
      "checker_ok cb ok h" "same_probes (?put (CHR 0x00)) h"
    using handle_admin_line_ok [OF put(2)] by blast
  consider "c = CHR 0x0A" | "c \<noteq> CHR 0x0A" "admin_buf_len hc + 1 < HC_ADMIN_LINE_MAX"
    | "c \<noteq> CHR 0x0A" "\<not> admin_buf_len hc + 1 < HC_ADMIN_LINE_MAX" by blast
  then show ?thesis
  proof cases
    case 1
    have "same_probes hc (?put (CHR 0x00))" by (simp add: same_probes_def)
    then show ?thesis
      using 1 put h reset [OF h(2)] reset [OF put(2)]
      by (cases "admin_buf_len hc > 0") (auto simp: process_admin_char_def same_probes_def)
  next
    case 2
    then show ?thesis
      using put [of c] by (simp add: process_admin_char_def same_probes_def checker_ok_def hc_inv_def)
  next
    case 3
    then show ?thesis using reset [OF assms] by (simp add: process_admin_char_def same_probes_def)
  qed
qed

lemma process_admin_fifo_ok:
  assumes "checker_ok cb ok hc"
  shows "\<exists>hc'. process_admin_fifo reads hc = Some hc' \<and> checker_ok cb ok hc' \<and> same_probes hc hc'"
proof -
  have "\<exists>hc'. mfold process_admin_char (concat reads) hc = Some hc' \<and> checker_ok cb ok hc' \<and> same_probes hc hc'"
  proof (rule mfold_inv)
    show "checker_ok cb ok hc \<and> same_probes hc hc" using assms by simp
    fix c s
    assume "checker_ok cb ok s \<and> same_probes hc s"
    then show "\<exists>s'. process_admin_char c s = Some s' \<and> checker_ok cb ok s' \<and> same_probes hc s'"
      using process_admin_char_ok [of s c] same_probes_trans by blast
  qed
  then show ?thesis by (simp add: process_admin_fifo_def mfold_concat)
qed

end

text \<open>Collecting a line: characters that fit are stored behind those already there.\<close>

lemma collect_line:
  assumes "length (admin_buf hc) = HC_ADMIN_LINE_MAX" "CHR 0x0A \<notin> set cs"
    "admin_buf_len hc + length cs < HC_ADMIN_LINE_MAX"
  shows "\<exists>buf. mfold process_admin_char cs hc =
      Some (hc\<lparr>admin_buf := buf, admin_buf_len := admin_buf_len hc + length cs\<rparr>) \<and>
    length buf = HC_ADMIN_LINE_MAX \<and>
    take (admin_buf_len hc + length cs) buf = take (admin_buf_len hc) (admin_buf hc) @ cs"
  using assms
proof (induction cs arbitrary: hc)
  case Nil
  then show ?case by (intro exI [of _ "admin_buf hc"]) simp
next
  case (Cons c cs)
  let ?n = "admin_buf_len hc"
  let ?hc = "hc\<lparr>admin_buf := (admin_buf hc)[?n := c], admin_buf_len := ?n + 1\<rparr>"
  have step: "process_admin_char c hc = Some ?hc"
    using Cons.prems by (auto simp: process_admin_char_def put_admin_char_def)
  have n: "?n < length (admin_buf hc)" using Cons.prems by simp
  obtain buf where "mfold process_admin_char cs ?hc =
        Some (?hc\<lparr>admin_buf := buf, admin_buf_len := admin_buf_len ?hc + length cs\<rparr>)"
      "length buf = HC_ADMIN_LINE_MAX"
      "take (admin_buf_len ?hc + length cs) buf = take (admin_buf_len ?hc) (admin_buf ?hc) @ cs"
    using Cons.IH [of ?hc] Cons.prems by auto
  moreover have "take (?n + 1) ((admin_buf hc)[?n := c]) = take ?n (admin_buf hc) @ [c]"
    using n by (simp add: take_Suc_conv_app_nth)
  ultimately show ?case using step by (intro exI [of _ buf]) simp
qed

lemma cstring_line:
  assumes "take n buf = line" "n < length buf" "CHR 0x00 \<notin> set line"
  shows "cstring (buf[n := CHR 0x00]) = line"
proof -
  have "buf[n := CHR 0x00] = line @ CHR 0x00 # drop (n + 1) buf"
    using assms(1,2) by (simp add: upd_conv_take_nth_drop)
  then show ?thesis using assms(3) by (simp add: cstring_def takeWhile_append)
qed

text \<open>A complete line, read into an empty buffer, is handled as that line.\<close>

lemma process_line:
  assumes "length (admin_buf hc) = HC_ADMIN_LINE_MAX" "admin_buf_len hc = 0"
    "line \<noteq> []" "length line < HC_ADMIN_LINE_MAX" "CHR 0x0A \<notin> set line" "CHR 0x00 \<notin> set line"
  shows "\<exists>buf. length buf = HC_ADMIN_LINE_MAX \<and>
    mfold process_admin_char (line @ [CHR 0x0A]) hc =
      map_option (\<lambda>hc. hc\<lparr>admin_buf_len := 0\<rparr>)
        (handle_admin_line line (hc\<lparr>admin_buf := buf, admin_buf_len := length line\<rparr>))"
proof -
  obtain buf where b: "mfold process_admin_char line hc =
        Some (hc\<lparr>admin_buf := buf, admin_buf_len := length line\<rparr>)"
      "length buf = HC_ADMIN_LINE_MAX" "take (length line) buf = line"
    using collect_line [OF assms(1,5)] assms(2,4) by auto
  let ?buf = "buf[length line := CHR 0x00]"
  have "hc\<lparr>admin_buf_len := n, admin_buf := x\<rparr> = hc\<lparr>admin_buf := x, admin_buf_len := n\<rparr>" for n x
    by (cases hc) simp
  then have swap: "handle_admin_line line (hc\<lparr>admin_buf_len := n, admin_buf := x\<rparr>) =
      handle_admin_line line (hc\<lparr>admin_buf := x, admin_buf_len := n\<rparr>)" for n x
    by (rule arg_cong)
  have "cstring ?buf = line" using cstring_line [OF b(3) _ assms(6)] b(2) assms(4) by simp
  then have "mfold process_admin_char (line @ [CHR 0x0A]) hc =
      map_option (\<lambda>hc. hc\<lparr>admin_buf_len := 0\<rparr>)
        (handle_admin_line line (hc\<lparr>admin_buf := ?buf, admin_buf_len := length line\<rparr>))"
    using b assms(3,4)
    by (simp add: mfold_append process_admin_char_def put_admin_char_def bind_Some_map swap option.map_ident)
  then show ?thesis using b(2) by (intro exI [of _ ?buf]) simp
qed

text \<open>The commands and their text.\<close>

definition admin_verb :: "bool \<Rightarrow> string" where
  "admin_verb drain = (if drain then ''DRAIN'' else ''UNDRAIN'')"

definition admin_line :: "bool \<times> u32 \<Rightarrow> string" where
  "admin_line cmd = admin_verb (fst cmd) @ '' '' @ dec (unat (snd cmd))"

definition admin_effect :: "bool \<times> u32 \<Rightarrow> (u32 \<rightharpoonup> backend) \<Rightarrow> u32 \<rightharpoonup> backend" where
  "admin_effect cmd f =
     f(snd cmd := map_option
         (\<lambda>b. b\<lparr>admin_state := (if fst cmd then BACKEND_DRAINING else BACKEND_ENABLED)\<rparr>) (f (snd cmd)))"

lemma admin_line_props:
  "admin_line cmd \<noteq> []" "length (admin_line cmd) < HC_ADMIN_LINE_MAX"
  "CHR 0x0A \<notin> set (admin_line cmd)" "CHR 0x00 \<notin> set (admin_line cmd)"
proof -
  have l: "length (dec (unat (snd cmd))) \<le> 10"
    using dec_length [of "unat (snd cmd)" 10] unat_u32_less [of "snd cmd"] by simp
  show "admin_line cmd \<noteq> []" by (simp add: admin_line_def)
  show "length (admin_line cmd) < HC_ADMIN_LINE_MAX"
    using l by (simp add: admin_line_def admin_verb_def HC_ADMIN_LINE_MAX_def)
  have "CHR 0x0A \<notin> set (dec n)" "CHR 0x00 \<notin> set (dec n)" for n
    by (rule nondigit_not_in_dec, simp add: isdigit_def)+
  then show "CHR 0x0A \<notin> set (admin_line cmd)" "CHR 0x00 \<notin> set (admin_line cmd)"
    by (simp_all add: admin_line_def admin_verb_def)
qed

lemma handle_admin_line_command:
  "handle_admin_line (admin_line (drain, bid)) hc =
     set_admin_of hc bid (if drain then BACKEND_DRAINING else BACKEND_ENABLED)"
proof -
  let ?d = "dec (unat bid)"
  have s: "scan_s 15 (admin_line (drain, bid)) = Some (admin_verb drain, CHR '' '' # ?d)"
    unfolding admin_line_def
    using scan_s_word [of "admin_verb drain" 15 "CHR '' ''" ?d]
    by (simp add: admin_verb_def isspace_def)
  have "unat bid < 2 ^ 64" using unat_u32_less [of bid] by simp
  then have "scan_lu (CHR '' '' # ?d) = Some (of_nat (unat bid), [])"
    using scan_lu_dec [of "['' '' ! 0]" "[]" "unat bid"] by (simp add: isspace_def)
  moreover have "ucast (of_nat (unat bid) :: u64) = bid"
  proof -
    have "ucast (ucast bid :: u64) = bid" by (rule bit_word_eqI) (simp add: bit_simps)
    then show ?thesis by simp
  qed
  ultimately show ?thesis using s by (simp add: handle_admin_line_def admin_verb_def)
qed

context subscriber
begin

lemma process_command:
  assumes K: "checker_ok cb ok hc" and z: "admin_buf_len hc = 0"
  shows "\<exists>hc'. mfold process_admin_char (admin_line cmd @ [CHR 0x0A]) hc = Some hc' \<and>
    checker_ok cb ok hc' \<and> same_probes hc hc' \<and> admin_buf_len hc' = 0 \<and>
    bm_map (hc_bm hc') = admin_effect cmd (bm_map (hc_bm hc))"
proof -
  obtain drain bid where cmd: "cmd = (drain, bid)" by (cases cmd)
  have len: "length (admin_buf hc) = HC_ADMIN_LINE_MAX" using K by (simp add: checker_ok_def hc_inv_def)
  obtain buf where b: "length buf = HC_ADMIN_LINE_MAX"
      "mfold process_admin_char (admin_line cmd @ [CHR 0x0A]) hc =
        map_option (\<lambda>hc. hc\<lparr>admin_buf_len := 0\<rparr>)
          (handle_admin_line (admin_line cmd) (hc\<lparr>admin_buf := buf, admin_buf_len := length (admin_line cmd)\<rparr>))"
    using process_line [OF len z admin_line_props] by blast
  let ?hc = "hc\<lparr>admin_buf := buf, admin_buf_len := length (admin_line cmd)\<rparr>"
  have K': "checker_ok cb ok ?hc"
    using K b(1) admin_line_props(2) by (simp add: checker_ok_def hc_inv_def)
  obtain hc' where h: "handle_admin_line (admin_line cmd) ?hc = Some hc'" "checker_ok cb ok hc'" "same_probes ?hc hc'"
      "bm_map (hc_bm hc') = admin_effect cmd (bm_map (hc_bm ?hc))"
    using set_admin_of_same [OF K', of bid "if drain then BACKEND_DRAINING else BACKEND_ENABLED"]
    unfolding cmd handle_admin_line_command admin_effect_def by auto
  have "checker_ok cb ok (hc'\<lparr>admin_buf_len := 0\<rparr>)"
    using h(2) by (simp add: checker_ok_def hc_inv_def HC_ADMIN_LINE_MAX_def)
  then show ?thesis using b(2) h by (simp add: same_probes_def)
qed

lemma process_commands:
  assumes "checker_ok cb ok hc" "admin_buf_len hc = 0"
    "concat reads = concat (map (\<lambda>cmd. admin_line cmd @ [CHR 0x0A]) cmds)"
  shows "\<exists>hc'. process_admin_fifo reads hc = Some hc' \<and> checker_ok cb ok hc' \<and> same_probes hc hc' \<and>
    admin_buf_len hc' = 0 \<and> bm_map (hc_bm hc') = fold admin_effect cmds (bm_map (hc_bm hc))"
proof -
  have "\<exists>hc'. mfold process_admin_char (concat (map (\<lambda>cmd. admin_line cmd @ [CHR 0x0A]) cmds)) hc = Some hc' \<and>
      checker_ok cb ok hc' \<and> same_probes hc hc' \<and> admin_buf_len hc' = 0 \<and>
      bm_map (hc_bm hc') = fold admin_effect cmds (bm_map (hc_bm hc))"
    using assms(1,2)
  proof (induction cmds arbitrary: hc)
    case (Cons cmd cmds)
    obtain hc1 where h1: "mfold process_admin_char (admin_line cmd @ [CHR 0x0A]) hc = Some hc1"
        "checker_ok cb ok hc1" "same_probes hc hc1" "admin_buf_len hc1 = 0"
        "bm_map (hc_bm hc1) = admin_effect cmd (bm_map (hc_bm hc))"
      using process_command [OF Cons.prems] by blast
    obtain hc2 where h2: "mfold process_admin_char (concat (map (\<lambda>cmd. admin_line cmd @ [CHR 0x0A]) cmds)) hc1 = Some hc2"
        "checker_ok cb ok hc2" "same_probes hc1 hc2" "admin_buf_len hc2 = 0"
        "bm_map (hc_bm hc2) = fold admin_effect cmds (bm_map (hc_bm hc1))"
      using Cons.IH [OF h1(2,4)] by blast
    have "mfold process_admin_char (concat (map (\<lambda>cmd. admin_line cmd @ [CHR 0x0A]) (cmd # cmds))) hc = Some hc2"
      using mfold_append [of process_admin_char "admin_line cmd @ [CHR 0x0A]"
          "concat (map (\<lambda>cmd. admin_line cmd @ [CHR 0x0A]) cmds)" hc] h2(1)
      unfolding h1(1) by simp
    moreover have "same_probes hc hc2" by (rule same_probes_trans [OF h1(3) h2(3)])
    ultimately show ?case using h2 h1(5) by (intro exI [of _ hc2]) (simp only: fold.simps comp_apply simp_thms)
  qed simp
  then show ?thesis by (simp add: process_admin_fifo_def assms(3) flip: mfold_concat)
qed

text \<open>A line too long for the buffer: after 128 characters the buffer is empty again, in the
  middle of the line.\<close>

lemma overlong_prefix:
  assumes K: "checker_ok cb ok hc" and z: "admin_buf_len hc = 0"
    and junk: "length junk = HC_ADMIN_LINE_MAX" "CHR 0x0A \<notin> set junk"
  shows "\<exists>buf. length buf = HC_ADMIN_LINE_MAX \<and>
    mfold process_admin_char junk hc = Some (hc\<lparr>admin_buf := buf, admin_buf_len := 0\<rparr>)"
proof -
  have len: "length (admin_buf hc) = HC_ADMIN_LINE_MAX" using K by (simp add: checker_ok_def hc_inv_def)
  have ne: "junk \<noteq> []" using junk(1) by (auto simp: HC_ADMIN_LINE_MAX_def)
  have bl: "length (butlast junk) = 127" using junk(1) by (simp add: HC_ADMIN_LINE_MAX_def)
  have nl: "CHR 0x0A \<notin> set (butlast junk)" using junk(2) by (auto dest: in_set_butlastD)
  obtain buf where b: "mfold process_admin_char (butlast junk) hc =
        Some (hc\<lparr>admin_buf := buf, admin_buf_len := 127\<rparr>)" "length buf = HC_ADMIN_LINE_MAX"
    using collect_line [OF len nl] z bl by (auto simp: HC_ADMIN_LINE_MAX_def)
  have "last junk \<noteq> CHR 0x0A" using junk(2) ne last_in_set by metis
  then have "process_admin_char (last junk) (hc\<lparr>admin_buf := buf, admin_buf_len := 127\<rparr>) =
      Some (hc\<lparr>admin_buf := buf, admin_buf_len := 0\<rparr>)"
    by (simp add: process_admin_char_def HC_ADMIN_LINE_MAX_def)
  then have "mfold process_admin_char (butlast junk @ [last junk]) hc =
      Some (hc\<lparr>admin_buf := buf, admin_buf_len := 0\<rparr>)"
    using b(1) by (simp add: mfold_append)
  then show ?thesis using b(2) ne by auto
qed

lemma overlong_tail:
  assumes K: "checker_ok cb ok hc" and z: "admin_buf_len hc = 0"
    and junk: "length junk = HC_ADMIN_LINE_MAX" "CHR 0x0A \<notin> set junk"
  shows "\<exists>hc'. process_admin_fifo [junk @ admin_line cmd @ [CHR 0x0A]] hc = Some hc' \<and>
    bm_map (hc_bm hc') = admin_effect cmd (bm_map (hc_bm hc))"
proof -
  obtain buf where b: "length buf = HC_ADMIN_LINE_MAX"
      "mfold process_admin_char junk hc = Some (hc\<lparr>admin_buf := buf, admin_buf_len := 0\<rparr>)"
    using overlong_prefix [OF assms] by blast
  let ?hc = "hc\<lparr>admin_buf := buf, admin_buf_len := 0\<rparr>"
  have "checker_ok cb ok ?hc" using K b(1) by (simp add: checker_ok_def hc_inv_def HC_ADMIN_LINE_MAX_def)
  from process_command [OF this, of cmd] obtain hc' where
      "mfold process_admin_char (admin_line cmd @ [CHR 0x0A]) ?hc = Some hc'"
      "bm_map (hc_bm hc') = admin_effect cmd (bm_map (hc_bm hc))"
    by auto
  then show ?thesis using b(2) by (simp add: process_admin_fifo_def mfold_append [of _ junk])
qed

end

section \<open>Actions and the debounced health\<close>

text \<open>The checker's effect on the registry is a sequence of results and admin input.\<close>

datatype hc_action = Act_result u32 bool | Act_admin "char list list"

fun hc_act :: "hc_action \<Rightarrow> 'w health_checker \<Rightarrow> 'w health_checker option" where
  "hc_act (Act_result bid r) hc = record_result bid r hc"
| "hc_act (Act_admin reads) hc = process_admin_fifo reads hc"

fun act_results :: "hc_action list \<Rightarrow> (u32 \<times> bool) list" where
  "act_results [] = []"
| "act_results (Act_result bid r # acts) = (bid, r) # act_results acts"
| "act_results (Act_admin reads # acts) = act_results acts"

lemma act_results_append: "act_results (xs @ ys) = act_results xs @ act_results ys"
  by (induction xs rule: act_results.induct) simp_all

text \<open>The results of one backend, the latest first.\<close>

definition results_of :: "u32 \<Rightarrow> hc_action list \<Rightarrow> bool list" where
  "results_of bid acts = rev (map snd (filter (\<lambda>p. fst p = bid) (act_results acts)))"

definition trail :: "bool \<Rightarrow> bool list \<Rightarrow> nat" where
  "trail x rs = length (takeWhile (\<lambda>r. r = x) rs)"

text \<open>The health that a history stands for: it becomes good when the latest successes first
  number \<open>rise\<close>, bad when the latest failures first number \<open>fall\<close>, and otherwise stays.\<close>

fun debounced :: "nat \<Rightarrow> nat \<Rightarrow> bool \<Rightarrow> bool list \<Rightarrow> bool" where
  "debounced rise fall h [] = h"
| "debounced rise fall h (r # rs) =
     (if trail r (r # rs) = (if r then rise else fall) then r else debounced rise fall h rs)"

lemma trail_Nil: "trail x [] = 0"
  by (simp add: trail_def)

lemma trail_Cons [simp]: "trail x (r # rs) = (if r = x then Suc (trail x rs) else 0)"
  by (simp add: trail_def)

text \<open>The counters hold the length of the trail, up to the threshold.\<close>

definition counts_for :: "health_check_cfg \<Rightarrow> bool list \<Rightarrow> u32 \<times> u32 \<Rightarrow> bool" where
  "counts_for cfg rs c \<longleftrightarrow>
     unat (fst c) = min (unat (hc_rise cfg)) (trail True rs) \<and>
     unat (snd c) = min (unat (hc_fall cfg)) (trail False rs)"

lemma unat_inc_below:
  assumes "(a :: u32) < b"
  shows "unat (a + 1) = unat a + 1"
proof -
  have "a \<noteq> - 1" using assms by (metis word_order.extremum not_less)
  then show ?thesis by (rule unat_inc)
qed

lemma counts_for_step:
  assumes "counts_for cfg rs c"
  shows "counts_for cfg (r # rs) (probe_step cfg r c)"
    and "probe_flip cfg r c \<longleftrightarrow> trail r (r # rs) = (if r then unat (hc_rise cfg) else unat (hc_fall cfg))"
proof -
  obtain a f where c: "c = (a, f)" by (cases c)
  have "a < hc_rise cfg \<longleftrightarrow> trail True rs < unat (hc_rise cfg)"
    "f < hc_fall cfg \<longleftrightarrow> trail False rs < unat (hc_fall cfg)"
    using assms c by (auto simp: counts_for_def word_less_nat_alt)
  then show "counts_for cfg (r # rs) (probe_step cfg r c)"
    "probe_flip cfg r c \<longleftrightarrow> trail r (r # rs) = (if r then unat (hc_rise cfg) else unat (hc_fall cfg))"
    using assms c
    by (auto simp: counts_for_def probe_step_def probe_flip_def word_unat_eq_iff unat_inc_below)
qed

lemma results_of_snoc:
  "results_of bid (acts @ [Act_result b r]) = (if b = bid then r # results_of bid acts else results_of bid acts)"
  "results_of bid (acts @ [Act_admin reads]) = results_of bid acts"
  by (simp_all add: results_of_def act_results_append)

lemma same_probes_counts: "same_probes hc hc' \<Longrightarrow> probe_counts hc' = probe_counts hc \<and> probe_map hc' = probe_map hc"
  using probe_map_cong [of hc' hc] by (auto simp: same_probes_def probe_counts_def fun_eq_iff)

context subscriber
begin

lemma hc_act_ok:
  assumes "checker_ok cb ok hc"
  shows "\<exists>hc'. hc_act a hc = Some hc' \<and> checker_ok cb ok hc' \<and> hc_cfg hc' = hc_cfg hc"
proof (cases a)
  case (Act_result bid r)
  show ?thesis using record_result_cases [OF assms, of bid r] Act_result assms by (metis hc_act.simps(1))
next
  case (Act_admin reads)
  then show ?thesis using process_admin_fifo_ok [OF assms, of reads] by (auto simp: same_probes_def)
qed

lemma acts_debounced:
  assumes K: "checker_ok cb ok hc" and fresh: "probe_map hc = Map.empty"
    and B: "finite B" "card B \<le> BACKEND_MAX" "fst ` set (act_results acts) \<subseteq> B"
  shows "\<exists>hc'. mfold hc_act acts hc = Some hc' \<and> checker_ok cb ok hc' \<and> hc_cfg hc' = hc_cfg hc \<and>
    dom (probe_map hc') \<subseteq> B \<and>
    (\<forall>bid. counts_for (hc_cfg hc) (results_of bid acts) (probe_counts hc' bid)) \<and>
    (\<forall>bid. health_map (hc_bm hc') bid = map_option (\<lambda>h. debounced (unat (hc_rise (hc_cfg hc)))
       (unat (hc_fall (hc_cfg hc))) h (results_of bid acts)) (health_map (hc_bm hc) bid))"
  using B(3)
proof (induction acts rule: rev_induct)
  case Nil
  show ?case
    using K fresh by (simp add: results_of_def counts_for_def probe_counts_def trail_def option.map_ident)
next
  case (snoc a acts)
  let ?cfg = "hc_cfg hc"
  let ?deb = "debounced (unat (hc_rise ?cfg)) (unat (hc_fall ?cfg))"
  have sub: "fst ` set (act_results acts) \<subseteq> B" using snoc.prems by (auto simp: act_results_append)
  obtain hc1 where h1: "mfold hc_act acts hc = Some hc1" "checker_ok cb ok hc1" "hc_cfg hc1 = ?cfg"
      "dom (probe_map hc1) \<subseteq> B" "\<And>bid. counts_for ?cfg (results_of bid acts) (probe_counts hc1 bid)"
      "\<And>bid. health_map (hc_bm hc1) bid =
        map_option (\<lambda>h. ?deb h (results_of bid acts)) (health_map (hc_bm hc) bid)"
    using snoc.IH [OF sub] by blast
  have run: "mfold hc_act (acts @ [a]) hc = hc_act a hc1" using h1(1) by (simp add: mfold_append)
  show ?case
  proof (cases a)
    case (Act_admin reads)
    obtain hc2 where h2: "process_admin_fifo reads hc1 = Some hc2" "checker_ok cb ok hc2" "same_probes hc1 hc2"
      using process_admin_fifo_ok [OF h1(2)] by blast
    have "probe_counts hc2 = probe_counts hc1" "probe_map hc2 = probe_map hc1"
      "hc_cfg hc2 = ?cfg" "health_map (hc_bm hc2) = health_map (hc_bm hc1)"
      using h2(3) h1(3) same_probes_counts [OF h2(3)] by (simp_all add: same_probes_def)
    then show ?thesis unfolding run using Act_admin h2(1,2) h1(4-6) by (simp add: results_of_snoc)
  next
    case (Act_result b r)
    have bB: "b \<in> B" using snoc.prems Act_result by (simp add: act_results_append)
    from h1(2) show ?thesis
    proof (cases rule: record_result_cases [of hc1 b r])
      case dropped
      have "insert b (dom (probe_map hc1)) \<subseteq> B" using bB h1(4) by blast
      then have "card (insert b (dom (probe_map hc1))) \<le> card B" using B(1) by (intro card_mono)
      moreover have "finite (dom (probe_map hc1))" using h1(4) B(1) finite_subset by blast
      ultimately have False using dropped(2,3) B(2) by (auto simp: domIff)
      then show ?thesis ..
    next
      case (recorded hc2)
      note step = counts_for_step [OF h1(5) [of b], of r]
      have cnt: "counts_for ?cfg (results_of bid (acts @ [a])) (probe_counts hc2 bid)" for bid
        using step(1) h1(5) [of bid] recorded(4) h1(3) Act_result by (simp add: results_of_snoc)
      have "health_map (hc_bm hc2) bid =
          map_option (\<lambda>h. ?deb h (results_of bid (acts @ [a]))) (health_map (hc_bm hc) bid)" for bid
      proof (cases "bid = b")
        case False
        then have "health_map (hc_bm hc2) bid = health_map (hc_bm hc1) bid"
          using recorded(5) by (simp add: health_map_def)
        then show ?thesis using h1(6) [of bid] False Act_result by (simp add: results_of_snoc)
      next
        case True
        have "health_map (hc_bm hc2) b = (if probe_flip ?cfg r (probe_counts hc1 b)
            then map_option (\<lambda>h. r) (health_map (hc_bm hc1) b) else health_map (hc_bm hc1) b)"
          using recorded(5) h1(3) by (simp add: health_map_def option.map_comp comp_def)
        then show ?thesis
          using step(2) h1(6) [of b] True Act_result
          by (simp add: results_of_snoc option.map_comp comp_def)
      qed
      then show ?thesis
        unfolding run using Act_result recorded(1-3,7) h1(3,4) bB cnt by simp
    qed
  qed
qed

end

section \<open>A round probes every backend once\<close>

text \<open>What the kernel guarantees about the events of a round: a probe socket is reported only
  while it is registered, that is until its result is in.\<close>

fun initial_done :: "round_env \<Rightarrow> nat \<Rightarrow> backend list \<Rightarrow> bool list" where
  "initial_done env i [] = []"
| "initial_done env i (b # bs) =
     (\<not> start_connect (re_socket env i) (re_connect env i) (be_addr b) (be_port b) \<or> \<not> re_ctl_add env i) #
     initial_done env (i + 1) bs"

fun events_ok :: "bool list \<Rightarrow> hc_event list \<Rightarrow> bool" where
  "events_ok dn [] \<longleftrightarrow> True"
| "events_ok dn (Ev_sock i err # evs) \<longleftrightarrow> i < length dn \<and> \<not> dn ! i \<and> events_ok (dn[i := True]) evs"
| "events_ok dn (_ # evs) \<longleftrightarrow> events_ok dn evs"

fun done_after :: "bool list \<Rightarrow> hc_event list \<Rightarrow> bool list" where
  "done_after dn [] = dn"
| "done_after dn (Ev_sock i err # evs) = done_after (dn[i := True]) evs"
| "done_after dn (_ # evs) = done_after dn evs"

fun waits_ok :: "u64 \<Rightarrow> bool list \<Rightarrow> (u64 \<times> epoll_call) list \<Rightarrow> bool" where
  "waits_ok deadline dn [] \<longleftrightarrow> True"
| "waits_ok deadline dn ((now, epoll_wait) # ws) \<longleftrightarrow>
     (case epoll_wait (of_int (sint deadline - sint now)) of
        Wait_events evs \<Rightarrow> events_ok dn evs \<and> waits_ok deadline (done_after dn evs) ws
      | _ \<Rightarrow> waits_ok deadline dn ws)"

definition no_wake :: "(u64 \<times> epoll_call) list \<Rightarrow> bool" where
  "no_wake ws \<longleftrightarrow> (\<forall>p \<in> set ws. \<forall>t evs. snd p t = Wait_events evs \<longrightarrow> Ev_wake \<notin> set evs)"

definition ids_where :: "backend list \<Rightarrow> bool list \<Rightarrow> u32 list" where
  "ids_where bs dn = map (\<lambda>p. be_id (fst p)) (filter snd (zip bs dn))"

lemma ids_where_simps [simp]:
  "ids_where [] dn = []" "ids_where bs [] = []"
  "ids_where (b # bs) (d # dn) = (if d then be_id b # ids_where bs dn else ids_where bs dn)"
  by (simp_all add: ids_where_def)

lemma length_initial_done [simp]: "length (initial_done env i bs) = length bs"
  by (induction bs arbitrary: i) simp_all

lemma ids_where_update:
  assumes "i < length dn" "length dn = length bs" "\<not> dn ! i"
  shows "mset (ids_where bs (dn[i := True])) = add_mset (be_id (bs ! i)) (mset (ids_where bs dn))"
  using assms
proof (induction bs arbitrary: dn i)
  case (Cons b bs)
  obtain d ds where dn: "dn = d # ds" using Cons.prems by (cases dn) auto
  show ?case
  proof (cases i)
    case 0
    then show ?thesis using Cons.prems dn by simp
  next
    case (Suc j)
    then show ?thesis using Cons.IH [of j ds] Cons.prems dn by simp
  qed
qed simp

lemma pending_update:
  assumes "i < length dn" "\<not> dn ! i"
  shows "length (filter Not dn) = Suc (length (filter Not (dn[i := True])))"
  using assms
proof (induction dn arbitrary: i)
  case (Cons d dn)
  then show ?case by (cases i) auto
qed simp

lemma ids_where_split:
  "length dn = length bs \<Longrightarrow>
   mset (ids_where bs dn) + mset (ids_where bs (map Not dn)) = mset (map be_id bs)"
proof (induction bs arbitrary: dn)
  case (Cons b bs)
  then show ?case by (cases dn) auto
qed simp

lemma act_results_map: "map fst (act_results (map (\<lambda>bid. Act_result bid r) bids)) = bids"
  by (induction bids) simp_all

definition probes_done :: "backend list \<Rightarrow> bool list \<Rightarrow> hc_action list \<Rightarrow> bool list \<Rightarrow> bool" where
  "probes_done bs dn acts dn' \<longleftrightarrow> length dn' = length bs \<and>
     mset (map fst (act_results acts)) + mset (ids_where bs dn) = mset (ids_where bs dn')"

lemma probes_done_refl [simp]: "length dn = length bs \<Longrightarrow> probes_done bs dn [] dn"
  by (simp add: probes_done_def)

lemma probes_done_trans:
  assumes "probes_done bs dn acts dn1" "probes_done bs dn1 acts' dn2"
  shows "probes_done bs dn (acts @ acts') dn2"
proof -
  have "mset (map fst (act_results (acts @ acts'))) + mset (ids_where bs dn) =
      mset (map fst (act_results acts')) + (mset (map fst (act_results acts)) + mset (ids_where bs dn))"
    by (simp add: act_results_append ac_simps del: mset_map)
  also have "\<dots> = mset (ids_where bs dn2)" using assms by (simp add: probes_done_def del: mset_map)
  finally show ?thesis using assms(2) by (simp add: probes_done_def)
qed

lemma probes_done_admin:
  "probes_done bs dn acts dn' \<Longrightarrow> probes_done bs dn (Act_admin reads # acts) dn'"
  by (simp add: probes_done_def)

lemma probes_done_sock:
  assumes "length dn = length bs" "i < length dn" "\<not> dn ! i" "probes_done bs (dn[i := True]) acts dn'"
  shows "probes_done bs dn (Act_result (be_id (bs ! i)) r # acts) dn'"
  using assms by (simp add: probes_done_def ids_where_update)

context subscriber
begin

lemma start_probes_ok:
  assumes "checker_ok cb ok hc"
  shows "\<exists>hc'. start_probes env i bs hc = Some (hc', initial_done env i bs) \<and>
    mfold hc_act (map (\<lambda>bid. Act_result bid False) (ids_where bs (initial_done env i bs))) hc = Some hc' \<and>
    checker_ok cb ok hc' \<and> hc_cfg hc' = hc_cfg hc"
  using assms
proof (induction bs arbitrary: i hc)
  case (Cons b bs)
  obtain hc1 where h1: "hc_act (Act_result (be_id b) False) hc = Some hc1" "checker_ok cb ok hc1"
      "hc_cfg hc1 = hc_cfg hc"
    using hc_act_ok [OF Cons.prems] by blast
  show ?case
  proof (cases "hd (initial_done env i (b # bs))")
    case True
    obtain hc2 where "start_probes env (i + 1) bs hc1 = Some (hc2, initial_done env (i + 1) bs)"
        "mfold hc_act (map (\<lambda>bid. Act_result bid False) (ids_where bs (initial_done env (i + 1) bs))) hc1 = Some hc2"
        "checker_ok cb ok hc2" "hc_cfg hc2 = hc_cfg hc1"
      using Cons.IH [OF h1(2)] by blast
    then show ?thesis using True h1 by simp
  next
    case False
    then show ?thesis using Cons.IH [OF Cons.prems, of "i + 1"] by auto
  qed
qed simp

lemma round_events_ok:
  assumes "checker_ok cb ok hc" "length dn = length bs" "events_ok dn evs"
  shows "\<exists>hc' dn' aborted acts.
    round_events bs evs hc dn (of_nat (length (filter Not dn))) =
      Some (hc', dn', of_nat (length (filter Not dn')), aborted) \<and>
    mfold hc_act acts hc = Some hc' \<and> checker_ok cb ok hc' \<and> probes_done bs dn acts dn' \<and>
    (aborted \<longleftrightarrow> Ev_wake \<in> set evs) \<and> (aborted \<or> dn' = done_after dn evs)"
  using assms
proof (induction evs arbitrary: hc dn)
  case Nil
  then show ?case by (intro exI [of _ hc] exI [of _ dn] exI [of _ False] exI [of _ "[]"]) simp
next
  case (Cons ev evs)
  show ?case
  proof (cases ev)
    case Ev_wake
    then show ?thesis using Cons.prems
      by (intro exI [of _ hc] exI [of _ dn] exI [of _ True] exI [of _ "[]"]) simp
  next
    case (Ev_admin reads)
    obtain hc1 where h1: "hc_act (Act_admin reads) hc = Some hc1" "checker_ok cb ok hc1"
      using hc_act_ok [OF Cons.prems(1)] by blast
    have ev: "events_ok dn evs" using Cons.prems(3) Ev_admin by simp
    obtain hc' dn' aborted acts where r: "round_events bs evs hc1 dn (of_nat (length (filter Not dn))) =
          Some (hc', dn', of_nat (length (filter Not dn')), aborted)"
        "mfold hc_act acts hc1 = Some hc'" "checker_ok cb ok hc'" "probes_done bs dn acts dn'"
        "aborted \<longleftrightarrow> Ev_wake \<in> set evs" "aborted \<or> dn' = done_after dn evs"
      using Cons.IH [OF h1(2) Cons.prems(2) ev] by blast
    show ?thesis
      using r h1 Ev_admin probes_done_admin [OF r(4), of reads]
      by (intro exI [of _ hc'] exI [of _ dn'] exI [of _ aborted] exI [of _ "Act_admin reads # acts"]) simp
  next
    case (Ev_sock i err)
    let ?a = "Act_result (be_id (bs ! i)) (err = 0)"
    obtain hc1 where h1: "hc_act ?a hc = Some hc1" "checker_ok cb ok hc1"
      using hc_act_ok [OF Cons.prems(1)] by blast
    have i: "i < length dn" "\<not> dn ! i" "events_ok (dn[i := True]) evs"
      using Cons.prems(3) Ev_sock by simp_all
    have p: "of_nat (length (filter Not dn)) - (1 :: u64) = of_nat (length (filter Not (dn[i := True])))"
      using pending_update [OF i(1,2)] by simp
    have len: "length (dn[i := True]) = length bs" using Cons.prems(2) by simp
    obtain hc' dn' aborted acts where
        r: "round_events bs evs hc1 (dn[i := True]) (of_nat (length (filter Not (dn[i := True])))) =
          Some (hc', dn', of_nat (length (filter Not dn')), aborted)"
        "mfold hc_act acts hc1 = Some hc'" "checker_ok cb ok hc'" "probes_done bs (dn[i := True]) acts dn'"
        "aborted \<longleftrightarrow> Ev_wake \<in> set evs" "aborted \<or> dn' = done_after (dn[i := True]) evs"
      using Cons.IH [OF h1(2) len i(3)] by blast
    show ?thesis
      using r h1 Ev_sock i Cons.prems(2) p probes_done_sock [OF Cons.prems(2) i(1,2) r(4)]
      by (intro exI [of _ hc'] exI [of _ dn'] exI [of _ aborted] exI [of _ "?a # acts"]) simp
  qed
qed

lemma round_loop_ok:
  assumes "checker_ok cb ok hc" "length dn = length bs" "waits_ok deadline dn ws"
    "\<exists>p \<in> set ws. sint deadline \<le> sint (fst p)" "no_wake ws"
  shows "\<exists>hc' dn' acts. round_loop deadline bs ws hc dn (of_nat (length (filter Not dn))) = Some (hc', dn', False) \<and>
    mfold hc_act acts hc = Some hc' \<and> checker_ok cb ok hc' \<and> probes_done bs dn acts dn'"
  using assms
proof (induction ws arbitrary: hc dn)
  case (Cons p ws)
  obtain now epoll_wait where p: "p = (now, epoll_wait)" by (cases p)
  let ?n = "of_nat (length (filter Not dn)) :: u64"
  have stop: ?case if "round_loop deadline bs (p # ws) hc dn ?n = Some (hc, dn, False)"
    using that Cons.prems(1,2) by (intro exI [of _ hc] exI [of _ dn] exI [of _ "[]"]) simp
  show ?case
  proof (cases "?n = 0 \<or> sint deadline - sint now \<le> 0")
    case True
    then show ?thesis using p by (intro stop) auto
  next
    case False
    have more: "\<exists>p \<in> set ws. sint deadline \<le> sint (fst p)" using Cons.prems(4) False p by auto
    have nw: "no_wake ws" using Cons.prems(5) by (simp add: no_wake_def)
    show ?thesis
    proof (cases "epoll_wait (of_int (sint deadline - sint now))")
      case Wait_error
      then show ?thesis using p by (intro stop) (simp add: Let_def)
    next
      case Wait_eintr
      have "waits_ok deadline dn ws" using Cons.prems(3) p Wait_eintr by simp
      from Cons.IH [OF Cons.prems(1,2) this more nw] show ?thesis
        using p False Wait_eintr by (simp add: Let_def)
    next
      case (Wait_events evs)
      have ev: "events_ok dn evs" "waits_ok deadline (done_after dn evs) ws"
        using Cons.prems(3) p Wait_events by simp_all
      have nwe: "Ev_wake \<notin> set evs" using Cons.prems(5) p Wait_events by (auto simp: no_wake_def)
      obtain hc1 dn1 acts where r: "round_events bs evs hc dn ?n =
            Some (hc1, dn1, of_nat (length (filter Not dn1)), False)"
          "mfold hc_act acts hc = Some hc1" "checker_ok cb ok hc1" "probes_done bs dn acts dn1"
          "dn1 = done_after dn evs"
        using round_events_ok [OF Cons.prems(1,2) ev(1)] nwe by metis
      have w: "waits_ok deadline dn1 ws" using ev(2) r(5) by simp
      have l: "length dn1 = length bs" using r(4) by (simp add: probes_done_def)
      obtain hc' dn' acts' where "round_loop deadline bs ws hc1 dn1 (of_nat (length (filter Not dn1))) = Some (hc', dn', False)"
          "mfold hc_act acts' hc1 = Some hc'" "checker_ok cb ok hc'" "probes_done bs dn1 acts' dn'"
        using Cons.IH [OF r(3) l w more nw] by blast
      then show ?thesis
        using p False Wait_events r probes_done_trans [OF r(4)]
        by (intro exI [of _ hc'] exI [of _ dn'] exI [of _ "acts @ acts'"]) (simp add: Let_def mfold_append)
    qed
  qed
qed simp

lemma round_finish_ok:
  assumes "checker_ok cb ok hc" "length dn = length bs"
  shows "\<exists>hc'. round_finish bs dn False hc = Some hc' \<and> checker_ok cb ok hc' \<and>
    mfold hc_act (map (\<lambda>bid. Act_result bid False) (ids_where bs (map Not dn))) hc = Some hc'"
  using assms
proof (induction bs arbitrary: dn hc)
  case (Cons b bs)
  obtain d ds where dn: "dn = d # ds" "length ds = length bs" using Cons.prems(2) by (cases dn) auto
  obtain hc1 where h1: "hc_act (Act_result (be_id b) False) hc = Some hc1" "checker_ok cb ok hc1"
    using hc_act_ok [OF Cons.prems(1)] by blast
  show ?case
    using Cons.IH [OF h1(2) dn(2)] Cons.IH [OF Cons.prems(1) dn(2)] h1(1) dn(1) by (cases d) auto
qed simp

lemma run_probe_round_ok:
  fixes env :: round_env
  assumes K: "checker_ok cb ok hc"
  defines "bs \<equiv> backend_manager_snapshot_all (hc_bm hc) BACKEND_MAX"
    and "deadline \<equiv> re_start_ms env + ucast (hc_timeout_ms (hc_cfg hc))"
  assumes W: "waits_ok deadline (initial_done env 0 bs) (re_waits env)"
    "\<exists>p \<in> set (re_waits env). sint deadline \<le> sint (fst p)" "no_wake (re_waits env)"
  shows "\<exists>hc' acts. run_probe_round env hc = Some hc' \<and> mfold hc_act acts hc = Some hc' \<and>
    checker_ok cb ok hc' \<and> mset (map fst (act_results acts)) = mset (map be_id bs)"
proof (cases "bs = []")
  case True
  then show ?thesis using K
    by (intro exI [of _ hc] exI [of _ "[]"]) (simp add: run_probe_round_def bs_def)
next
  case False
  let ?dn = "initial_done env 0 bs"
  let ?acts1 = "map (\<lambda>bid. Act_result bid False) (ids_where bs ?dn)"
  obtain hc1 where h1: "start_probes env 0 bs hc = Some (hc1, ?dn)" "mfold hc_act ?acts1 hc = Some hc1"
      "checker_ok cb ok hc1" "hc_cfg hc1 = hc_cfg hc"
    using start_probes_ok [OF K, of env 0 bs] by blast
  obtain hc2 dn2 acts2 where h2:
      "round_loop deadline bs (re_waits env) hc1 ?dn (of_nat (length (filter Not ?dn))) = Some (hc2, dn2, False)"
      "mfold hc_act acts2 hc1 = Some hc2" "checker_ok cb ok hc2" "probes_done bs ?dn acts2 dn2"
    using round_loop_ok [OF h1(3) length_initial_done W] by blast
  have l: "length dn2 = length bs" using h2(4) by (simp add: probes_done_def)
  let ?acts3 = "map (\<lambda>bid. Act_result bid False) (ids_where bs (map Not dn2))"
  obtain hc3 where h3: "round_finish bs dn2 False hc2 = Some hc3" "checker_ok cb ok hc3"
      "mfold hc_act ?acts3 hc2 = Some hc3"
    using round_finish_ok [OF h2(3) l] by blast
  have "mset (map fst (act_results (?acts1 @ acts2 @ ?acts3))) =
      mset (ids_where bs ?dn) + mset (map fst (act_results acts2)) + mset (ids_where bs (map Not dn2))"
    by (simp add: act_results_append act_results_map del: mset_map)
  also have "\<dots> = mset (map be_id bs)"
    using h2(4) ids_where_split [OF l] by (simp add: probes_done_def add.commute del: mset_map)
  finally have "mset (map fst (act_results (?acts1 @ acts2 @ ?acts3))) = mset (map be_id bs)" .
  moreover have "mfold hc_act (?acts1 @ acts2 @ ?acts3) hc = Some hc3"
    using h1(2) h2(2) h3(3) by (simp add: mfold_append)
  moreover have "run_probe_round env hc = Some hc3"
    using False h1(1,4) h2(1) h3(1) unfolding run_probe_round_def bs_def deadline_def by (simp add: Let_def)
  ultimately show ?thesis using h3(2) by blast
qed

end

section \<open>Properties\<close>

text \<open>The checker of the witnesses: one registered backend, rise 2, fall 3.\<close>

definition demo_hc :: "tg_world health_checker" where
  "demo_hc = the (health_checker_create True True True
     (table_generator_install_as_subscriber demo_xxh (\<lambda>k. demo_env)
       \<lparr>bm_backends = bm_backends demo_registry, slot_used = slot_used demo_registry, next_id = 1, bm_cb = None\<rparr>)
     (demo_tg, 0, [])
     \<lparr>hc_interval_ms = 1000, hc_timeout_ms = 500, hc_rise = 2, hc_fall = 3, hc_admin_fifo = ''fifo''\<rparr>
     (Some (fst (stats_registry_init True 1))))"

lemma demo_hc_ok:
  "checker_ok (on_backend_change demo_xxh (\<lambda>k. demo_env)) tg_world_ok demo_hc"
  "probe_map demo_hc = Map.empty" "admin_buf_len demo_hc = 0"
  "bm_map (hc_bm demo_hc) = bm_map demo_registry"
proof -
  let ?bm = "hc_bm demo_hc"
  have bm: "bm_backends ?bm = bm_backends demo_registry" "slot_used ?bm = slot_used demo_registry"
      "next_id ?bm = next_id demo_registry"
    by (simp_all add: demo_hc_def health_checker_create_def table_generator_install_as_subscriber_def
        backend_manager_subscribe_def demo_registry_def)
  then have used: "bm_used ?bm = bm_used demo_registry" by (simp add: bm_used_def)
  have bmi: "bm_inv ?bm" using demo_registry_ok(1) bm used by (simp add: bm_inv_def)
  show "bm_map ?bm = bm_map demo_registry" using bm by (simp add: bm_map_def find_slot_def fun_eq_iff)
  have w: "tg_world_ok (demo_tg, 0, [])" using demo_tg_ok by (simp add: tg_world_ok_def)
  have st: "stats_inv (fst (stats_registry_init True 1))"
    by (simp add: stats_inv_def stats_registry_init_def zero_stats_def)
  have "states_inv (replicate BACKEND_MAX zero_probe_state)"
    by (simp add: states_inv_def zero_probe_state_def)
  then show "checker_ok (on_backend_change demo_xxh (\<lambda>k. demo_env)) tg_world_ok demo_hc"
    using bmi w st
    by (simp add: checker_ok_def hc_inv_def demo_hc_def health_checker_create_def HC_ADMIN_LINE_MAX_def
        table_generator_install_as_subscriber_def backend_manager_subscribe_def)
  show "probe_map demo_hc = Map.empty"
    by (rule ext) (auto simp: probe_map_def demo_hc_def health_checker_create_def zero_probe_state_def find_None_iff)
  show "admin_buf_len demo_hc = 0" by (simp add: demo_hc_def health_checker_create_def)
qed

text \<open>C14. The health of every backend is debounced. Starting from empty counters, after any
  sequence of probe results and admin input, for any callback environment, each registered
  backend's health flag is the reference function of its own results: it turns good exactly
  when the consecutive successes reach \<open>rise\<close>, bad exactly when the consecutive failures reach
  \<open>fall\<close>, and is otherwise unchanged. The counters never pass their thresholds, and nothing
  fails on the way.\<close>

theorem health_debounced:
  assumes "checker_ok (on_backend_change xxh envs) tg_world_ok hc" "probe_map hc = Map.empty"
    "card (fst ` set (act_results acts)) \<le> BACKEND_MAX"
  shows "\<exists>hc'. mfold hc_act acts hc = Some hc' \<and>
    checker_ok (on_backend_change xxh envs) tg_world_ok hc' \<and>
    (\<forall>bid. health_map (hc_bm hc') bid = map_option
       (\<lambda>h. debounced (unat (hc_rise (hc_cfg hc))) (unat (hc_fall (hc_cfg hc))) h (results_of bid acts))
       (health_map (hc_bm hc) bid)) \<and>
    (\<forall>bid. counts_for (hc_cfg hc) (results_of bid acts) (probe_counts hc' bid))"
  using tg_subscriber.acts_debounced [OF assms(1,2) finite_imageI [OF finite_set] assms(3) order_refl]
  by blast

theorem health_debounced_witness:
  "\<exists>hc1 hc2. mfold hc_act [Act_result 0 False, Act_result 0 False, Act_result 0 False] demo_hc = Some hc1 \<and>
    health_map (hc_bm demo_hc) 0 = Some True \<and> health_map (hc_bm hc1) 0 = Some False \<and>
    mfold hc_act [Act_result 0 False, Act_result 0 False, Act_result 0 True, Act_result 0 False] demo_hc = Some hc2 \<and>
    health_map (hc_bm hc2) 0 = Some True"
proof -
  have h: "health_map (hc_bm demo_hc) 0 = Some True"
  proof -
    have "map_option healthy (bm_map demo_registry 0) = Some True" by code_simp
    then show ?thesis by (simp add: health_map_def demo_hc_ok(4))
  qed
  have cfg: "hc_rise (hc_cfg demo_hc) = 2" "hc_fall (hc_cfg demo_hc) = 3"
    by (simp_all add: demo_hc_def health_checker_create_def)
  show ?thesis
    using health_debounced [OF demo_hc_ok(1,2), of "[Act_result 0 False, Act_result 0 False, Act_result 0 False]"]
      health_debounced [OF demo_hc_ok(1,2),
        of "[Act_result 0 False, Act_result 0 False, Act_result 0 True, Act_result 0 False]"] h cfg
    by (auto simp: results_of_def BACKEND_MAX_def trail_Nil dest!: spec [of _ 0])
qed

text \<open>C32. A round that is not interrupted by a shutdown probes every backend exactly once. When
  the kernel reports a socket only while it is registered and the clock passes the deadline,
  \<open>run_probe_round\<close> returns, touches nothing outside its arrays, and is a sequence of recorded
  results and admin input in which the results are for exactly the registered backends, one
  each, be it a refused connection, an event or a timeout.\<close>

theorem probe_round_complete:
  assumes "checker_ok (on_backend_change xxh envs) tg_world_ok hc"
    "waits_ok (re_start_ms env + ucast (hc_timeout_ms (hc_cfg hc)))
       (initial_done env 0 (backend_manager_snapshot_all (hc_bm hc) BACKEND_MAX)) (re_waits env)"
    "\<exists>p \<in> set (re_waits env). sint (re_start_ms env + ucast (hc_timeout_ms (hc_cfg hc))) \<le> sint (fst p)"
    "no_wake (re_waits env)"
  shows "\<exists>hc' acts. run_probe_round env hc = Some hc' \<and> mfold hc_act acts hc = Some hc' \<and>
    checker_ok (on_backend_change xxh envs) tg_world_ok hc' \<and>
    mset (map fst (act_results acts)) = mset (map be_id (backend_manager_snapshot_all (hc_bm hc) BACKEND_MAX))"
  by (rule tg_subscriber.run_probe_round_ok [OF assms])

definition demo_round :: round_env where
  "demo_round = \<lparr>re_socket = \<lambda>i. True, re_connect = \<lambda>i addr port. Connect_in_progress, re_ctl_add = \<lambda>i. True,
     re_start_ms = 100, re_waits = [(110, \<lambda>t. Wait_events [Ev_sock 0 0]), (700, \<lambda>t. Wait_eintr)]\<rparr>"

theorem probe_round_complete_witness:
  "\<exists>hc acts. run_probe_round demo_round demo_hc = Some hc \<and> mfold hc_act acts demo_hc = Some hc \<and>
    map fst (act_results acts) = [0]"
proof -
  have all: "backend_manager_snapshot_all (hc_bm demo_hc) BACKEND_MAX = [hd (bm_backends demo_registry)]"
  proof -
    have "backend_manager_snapshot_all (hc_bm demo_hc) BACKEND_MAX = backend_manager_snapshot_all demo_registry BACKEND_MAX"
      by (simp add: backend_manager_snapshot_all_def snapshot_where_def demo_hc_def health_checker_create_def
          table_generator_install_as_subscriber_def backend_manager_subscribe_def)
    also have "\<dots> = [hd (bm_backends demo_registry)]" by code_simp
    finally show ?thesis .
  qed
  have d: "re_start_ms demo_round + ucast (hc_timeout_ms (hc_cfg demo_hc)) = 600"
    by (simp add: demo_round_def demo_hc_def health_checker_create_def)
  have "waits_ok 600 (initial_done demo_round 0 [hd (bm_backends demo_registry)]) (re_waits demo_round)"
    by (simp add: demo_round_def start_connect_def)
  moreover have "\<exists>p \<in> set (re_waits demo_round). sint (600 :: u64) \<le> sint (fst p)"
    by (simp add: demo_round_def)
  moreover have "no_wake (re_waits demo_round)" by (simp add: no_wake_def demo_round_def)
  ultimately obtain hc acts where r: "run_probe_round demo_round demo_hc = Some hc" "mfold hc_act acts demo_hc = Some hc"
      "mset (map fst (act_results acts)) = mset (map be_id [hd (bm_backends demo_registry)])"
    using probe_round_complete [OF demo_hc_ok(1), of demo_round] unfolding all d by blast
  have "be_id (hd (bm_backends demo_registry)) = 0" by code_simp
  then have "mset (map fst (act_results acts)) = {#0#}" using r(3) by simp
  then have "map fst (act_results acts) = [0]" by (metis mset_single_iff_right)
  with r(1,2) show ?thesis by (intro exI [of _ hc] exI [of _ acts] conjI)
qed

text \<open>C33. Admin commands take effect as written. Any sequence of \<open>DRAIN\<close> and \<open>UNDRAIN\<close> lines for
  any backend ids, cut into \<open>read\<close> results at any positions, sets the admin state of exactly
  the named backends in that order, and changes neither the health of any backend nor the
  probe counters.\<close>

theorem admin_commands_applied:
  assumes "checker_ok (on_backend_change xxh envs) tg_world_ok hc" "admin_buf_len hc = 0"
    "concat reads = concat (map (\<lambda>cmd. admin_line cmd @ [CHR 0x0A]) cmds)"
  shows "\<exists>hc'. process_admin_fifo reads hc = Some hc' \<and>
    checker_ok (on_backend_change xxh envs) tg_world_ok hc' \<and> same_probes hc hc' \<and>
    admin_buf_len hc' = 0 \<and> bm_map (hc_bm hc') = fold admin_effect cmds (bm_map (hc_bm hc))"
  by (rule tg_subscriber.process_commands [OF assms])

theorem admin_commands_applied_witness:
  "\<exists>hc. process_admin_fifo [''DRAI'', ''N 0'' @ [CHR 0x0A] @ ''UNDRAIN 7'', [CHR 0x0A]] demo_hc = Some hc \<and>
    map_option admin_state (bm_map (hc_bm hc) 0) = Some BACKEND_DRAINING"
proof -
  let ?reads = "[''DRAI'', ''N 0'' @ [CHR 0x0A] @ ''UNDRAIN 7'', [CHR 0x0A]]"
  have "concat ?reads = concat (map (\<lambda>cmd. admin_line cmd @ [CHR 0x0A]) [(True, 0), (False, 7)])"
    by code_simp
  from admin_commands_applied [OF demo_hc_ok(1,3) this] obtain hc where hc:
      "process_admin_fifo ?reads demo_hc = Some hc"
      "bm_map (hc_bm hc) = fold admin_effect [(True, 0), (False, 7)] (bm_map demo_registry)"
    unfolding demo_hc_ok(4) by blast
  have "bm_map demo_registry 0 \<noteq> None" by code_simp
  then have "map_option admin_state (bm_map (hc_bm hc) 0) = Some BACKEND_DRAINING"
    by (auto simp: hc(2) admin_effect_def)
  with hc(1) show ?thesis by blast
qed

text \<open>C34. An overlong admin line is not skipped up to its newline. After 128 characters without a
  newline the buffer starts afresh in the middle of the line, so whatever follows on the same
  line is executed as a command of its own.\<close>

theorem overlong_line_tail_executed:
  assumes "checker_ok (on_backend_change xxh envs) tg_world_ok hc" "admin_buf_len hc = 0"
    "length junk = HC_ADMIN_LINE_MAX" "CHR 0x0A \<notin> set junk"
  shows "\<exists>hc'. process_admin_fifo [junk @ admin_line cmd @ [CHR 0x0A]] hc = Some hc' \<and>
    bm_map (hc_bm hc') = admin_effect cmd (bm_map (hc_bm hc))"
  by (rule tg_subscriber.overlong_tail [OF assms])

theorem overlong_line_tail_executed_witness:
  "\<exists>hc. process_admin_fifo [replicate 128 (CHR ''x'') @ ''DRAIN 0'' @ [CHR 0x0A]] demo_hc = Some hc \<and>
    map_option admin_state (bm_map (hc_bm hc) 0) = Some BACKEND_DRAINING"
proof -
  have e: "''DRAIN 0'' = admin_line (True, 0)"
    by code_simp
  have "length (replicate 128 (CHR ''x'')) = HC_ADMIN_LINE_MAX" "CHR 0x0A \<notin> set (replicate 128 (CHR ''x''))"
    by (simp_all add: HC_ADMIN_LINE_MAX_def)
  from overlong_line_tail_executed [OF demo_hc_ok(1,3) this, of "(True, 0)"] obtain hc where hc:
      "process_admin_fifo [replicate 128 (CHR ''x'') @ ''DRAIN 0'' @ [CHR 0x0A]] demo_hc = Some hc"
      "bm_map (hc_bm hc) = admin_effect (True, 0) (bm_map demo_registry)"
    unfolding demo_hc_ok(4) e by blast
  have "bm_map demo_registry 0 \<noteq> None" by code_simp
  then have "map_option admin_state (bm_map (hc_bm hc) 0) = Some BACKEND_DRAINING"
    by (auto simp: hc(2) admin_effect_def)
  with hc(1) show ?thesis by blast
qed

end
