(* ===== verification/Metrics_Http.thy ===== *)
theory Metrics_Http
  imports C_String Conntrack Table_Generator Stats_Registry
begin

text \<open>
  \<open>src/ui/metrics_http.c\<close>: the Prometheus exporter. The body is built by appending formatted
  lines to a buffer of fixed capacity, with the truncation and the terminating NUL of \<open>vsnprintf\<close>;
  the response is a header with the length of the body, and the body. The outcomes of the socket
  calls are arguments. The counters are read while the datapath runs: \<open>reading k i\<close> is the
  statistics registry at the moment the \<open>k\<close>-th family is written for the \<open>i\<close>-th backend. The result
  \<open>None\<close> is an access outside an array. The lemmas show that the buffer is never overrun, that it
  is large enough for every registry, and that the announced length is the length sent; what a
  reader finds in the body is the subject of theory Metrics_Reader.
\<close>

section \<open>The buffer\<close>

definition METRICS_BODY_CAP :: nat where "METRICS_BODY_CAP = 128 * 1024"

record metrics_buf =
  mb_data :: "char list"
  mb_cap :: nat
  mb_len :: nat

text \<open>The second argument is the formatted text. \<open>vsnprintf\<close> stores at most one character less than
  the room, then a NUL, and returns the length of the whole text.\<close>

definition vsnprintf_at :: "char list \<Rightarrow> nat \<Rightarrow> nat \<Rightarrow> string \<Rightarrow> char list" where
  "vsnprintf_at data pos room s =
     (let (stored, _) = snprintf room s in
      take pos data @ stored @ [CHR 0x00] @ drop (pos + length stored + 1) data)"

definition mb_appendf :: "metrics_buf \<Rightarrow> string \<Rightarrow> metrics_buf" where
  "mb_appendf b s =
     (if mb_len b \<ge> mb_cap b then b
      else
        let room = mb_cap b - mb_len b;
            data = vsnprintf_at (mb_data b) (mb_len b) room s;
            n = length s in
        b\<lparr>mb_data := data,
          mb_len := (if n > 0 then mb_len b + (if n < room then n else room) else mb_len b)\<rparr>)"

section \<open>The lines\<close>

definition NL :: char where "NL = CHR 0x0A"

text \<open>The \<open>%ld\<close> conversion.\<close>

definition dec_int :: "int \<Rightarrow> string" where
  "dec_int i = (if i < 0 then CHR ''-'' # dec (nat (- i)) else dec (nat i))"

definition family :: "string \<Rightarrow> string \<Rightarrow> string \<Rightarrow> string list" where
  "family name kind about =
     [''# HELP maglev_lb_'' @ name @ '' '' @ about @ [NL], ''# TYPE maglev_lb_'' @ name @ '' '' @ kind @ [NL]]"

definition sample :: "string \<Rightarrow> string \<Rightarrow> string \<Rightarrow> string" where
  "sample name labels v = ''maglev_lb_'' @ name @ labels @ '' '' @ v @ [NL]"

definition backend_labels :: "backend \<Rightarrow> string" where
  \<open>backend_labels b =
     ''{backend_id="'' @ dec (unat (be_id b)) @ ''",backend_addr="'' @ ipv4_format (be_addr b) 16 @ '':'' @
     dec (unat (be_port b)) @ ''"}''\<close>

record metrics_http_config =
  mc_port :: u16
  mc_table_size :: u32
  mc_configured_backends :: u64

text \<open>The families without a backend label, in the order of the code.\<close>

definition traffic_lines :: "lb_stats_snapshot \<Rightarrow> string list" where
  "traffic_lines snap =
     family ''rx_packets_total'' ''counter'' ''Packets received on the ingestion raw socket (clients -> LB).'' @
     [sample ''rx_packets_total'' [] (dec (unat (ss_rx_packets snap)))] @
     family ''rx_bytes_total'' ''counter'' ''Bytes received on the ingestion raw socket.'' @
     [sample ''rx_bytes_total'' [] (dec (unat (ss_rx_bytes snap)))] @
     family ''tx_packets_total'' ''counter''
       ''GRE-encapsulated packets forwarded to backends (LB -> backends).'' @
     [sample ''tx_packets_total'' [] (dec (unat (ss_tx_packets snap)))] @
     family ''tx_bytes_total'' ''counter''
       ''Bytes forwarded to backends, including the GRE+IP+Ethernet wrapper.'' @
     [sample ''tx_bytes_total'' [] (dec (unat (ss_tx_bytes snap)))]"

definition drop_lines :: "lb_stats_snapshot \<Rightarrow> string list" where
  \<open>drop_lines snap =
     family ''drops_total'' ''counter'' ''Packets the datapath dropped, by reason.'' @
     [sample ''drops_total'' ''{reason="parse_error"}'' (dec (unat (ss_drops_parse_error snap))),
      sample ''drops_total'' ''{reason="no_backend"}'' (dec (unat (ss_drops_no_backend snap))),
      sample ''drops_total'' ''{reason="backend_unhealthy"}'' (dec (unat (ss_drops_backend_unhealthy snap))),
      sample ''drops_total'' ''{reason="conntrack_full"}'' (dec (unat (ss_drops_conntrack_full snap)))]\<close>

definition conntrack_lines :: "lb_stats_snapshot \<Rightarrow> conntrack_table \<Rightarrow> string list" where
  \<open>conntrack_lines snap ct =
     family ''conntrack_lookups_total'' ''counter'' ''Conntrack lookups, by result.'' @
     [sample ''conntrack_lookups_total'' ''{result="hit"}'' (dec (unat (ss_conntrack_hits snap))),
      sample ''conntrack_lookups_total'' ''{result="miss"}'' (dec (unat (ss_conntrack_misses snap)))] @
     family ''conntrack_evictions_total'' ''counter''
       ''Conntrack entries reaped for being idle past their timeout.'' @
     [sample ''conntrack_evictions_total'' [] (dec (unat (ss_conntrack_evictions snap)))] @
     family ''conntrack_active_flows'' ''gauge'' ''Flows currently pinned in the conntrack table.'' @
     [sample ''conntrack_active_flows'' [] (dec (unat (conntrack_active_flows ct)))]\<close>

definition table_lines :: "table_generator \<Rightarrow> string list" where
  "table_lines tg =
     family ''table_generation'' ''counter''
       ''Number of times the Maglev lookup table has been (re)generated, including the initial build.'' @
     [sample ''table_generation'' [] (dec (unat (table_generator_generation tg)))] @
     family ''table_regen_last_microseconds'' ''gauge''
       ''Wall-clock duration of the most recent table regeneration.'' @
     [sample ''table_regen_last_microseconds'' [] (dec (unat (table_generator_last_regen_us tg)))]"

definition start_lines :: "int \<Rightarrow> metrics_http_config \<Rightarrow> string list" where
  "start_lines start_time cfg =
     family ''start_time_seconds'' ''gauge'' ''Unix time the process started.'' @
     [sample ''start_time_seconds'' [] (dec_int start_time)] @
     family ''table_size'' ''gauge'' ''Configured Maglev lookup table size (M).'' @
     [sample ''table_size'' [] (dec (unat (mc_table_size cfg)))]"

definition registry_lines :: "metrics_http_config \<Rightarrow> backend list \<Rightarrow> string list" where
  "registry_lines cfg bs =
     family ''backends_configured'' ''gauge'' ''Backends configured at startup via --backend.'' @
     [sample ''backends_configured'' [] (dec (unat (mc_configured_backends cfg)))] @
     family ''backends_eligible'' ''gauge''
       ''Backends currently eligible for new flows (healthy, admin-enabled, MAC resolved).'' @
     [sample ''backends_eligible'' [] (dec (length (filter
        (\<lambda>b. healthy b \<and> mac_resolved b \<and> admin_state b = BACKEND_ENABLED) bs)))]"

text \<open>A family with one sample for each backend.\<close>

definition state_lines :: "string \<Rightarrow> string \<Rightarrow> (backend \<Rightarrow> bool) \<Rightarrow> backend list \<Rightarrow> string list" where
  "state_lines name about P bs =
     family name ''gauge'' about @ map (\<lambda>b. sample name (backend_labels b) (dec (if P b then 1 else 0))) bs"

definition counter_lines ::
  "string \<Rightarrow> string \<Rightarrow> string \<Rightarrow> (per_backend_stats \<Rightarrow> u64) \<Rightarrow> (nat \<Rightarrow> lb_stats) \<Rightarrow> backend list \<Rightarrow> string list option" where
  "counter_lines name kind about field reading bs =
     map_option (\<lambda>samples. family name kind about @ samples)
       (those (map (\<lambda>(i, b). map_option (\<lambda>s. sample name (backend_labels b) (dec (unat (field s))))
          (stats_registry_snapshot_backend (reading i) (be_id b))) (enumerate 0 bs)))"

definition all_state_lines :: "backend list \<Rightarrow> string list" where
  "all_state_lines bs =
     state_lines ''backend_up''
       ''Whether the backend is currently healthy (1) or not (0), as last determined by the health checker.''
       healthy bs @
     state_lines ''backend_admin_enabled''
       ''Whether the backend's admin state is ENABLED (1) rather than DRAINING/DISABLED (0).''
       (\<lambda>b. admin_state b = BACKEND_ENABLED) bs @
     state_lines ''backend_draining''
       (''Whether the backend is currently DRAINING (1): no new flows, but flows already pinned to it via '' @
        ''conntrack keep being forwarded until they finish naturally.'')
       (\<lambda>b. admin_state b = BACKEND_DRAINING) bs"

definition all_counter_lines :: "(nat \<Rightarrow> nat \<Rightarrow> lb_stats) \<Rightarrow> backend list \<Rightarrow> string list option" where
  "all_counter_lines reading bs =
     map_option concat (those
       [counter_lines ''backend_packets_total'' ''counter''
          ''GRE-encapsulated packets forwarded to this specific backend.'' pb_packets (reading 1) bs,
        counter_lines ''backend_bytes_total'' ''counter''
          ''Bytes forwarded to this specific backend (GRE-encapsulated, including the wrapper).''
          pb_bytes (reading 2) bs,
        counter_lines ''backend_active_flows'' ''gauge''
          ''Flows in the conntrack table currently pinned to this backend.'' pb_active_flows (reading 3) bs,
        counter_lines ''backend_flows_assigned_total'' ''counter''
          (''New flows the datapath has pinned to this backend (conntrack inserts). A packet reusing an '' @
           ''already-pinned 5-tuple is not counted.'') pb_flows_assigned (reading 4) bs,
        counter_lines ''backend_health_check_failures_total'' ''counter''
          (''Failed health-check probes against this backend (every failure, not just '' @
           ''threshold-crossing ones).'') pb_health_check_failures (reading 5) bs])"

section \<open>The body and the response\<close>

text \<open>What the exporter reaches through its configuration.\<close>

record metrics_world =
  mw_ct :: conntrack_table
  mw_tg :: table_generator
  mw_bm :: bm_slots
  mw_reading :: "nat \<Rightarrow> nat \<Rightarrow> lb_stats"

record metrics_http =
  mh_cfg :: metrics_http_config
  mh_start_time :: int
  mh_listening :: bool
  mh_running :: bool

definition metrics_lines :: "metrics_http \<Rightarrow> metrics_world \<Rightarrow> string list option" where
  "metrics_lines m w =
     (let snap = stats_registry_snapshot (mw_reading w 0 0);
          bs = backend_manager_snapshot_all (mw_bm w) BACKEND_MAX in
      map_option (\<lambda>counters.
        start_lines (mh_start_time m) (mh_cfg m) @ traffic_lines snap @ drop_lines snap @
        conntrack_lines snap (mw_ct w) @ table_lines (mw_tg w) @ registry_lines (mh_cfg m) bs @
        all_state_lines bs @ counters) (all_counter_lines (mw_reading w) bs))"

definition build_metrics_body :: "metrics_http \<Rightarrow> metrics_world \<Rightarrow> metrics_buf \<Rightarrow> metrics_buf option" where
  "build_metrics_body m w b = map_option (foldl mb_appendf b) (metrics_lines m w)"

definition CRLF :: string where "CRLF = [CHR 0x0D, CHR 0x0A]"

definition response_header :: "nat \<Rightarrow> string" where
  "response_header len =
     ''HTTP/1.1 200 OK'' @ CRLF @ ''Content-Type: text/plain; version=0.0.4'' @ CRLF @
     ''Content-Length: '' @ dec len @ CRLF @ ''Connection: close'' @ CRLF @ CRLF"

text \<open>What is handed to \<open>send\<close>; the header buffer has 256 bytes, and the bytes of the body buffer
  are unspecified at first.\<close>

definition handle_client :: "bool \<Rightarrow> char list \<Rightarrow> metrics_http \<Rightarrow> metrics_world \<Rightarrow> string list option" where
  "handle_client malloc_ok garbage m w =
     (if \<not> malloc_ok then Some []
      else
        do {
          mb \<leftarrow> build_metrics_body m w \<lparr>mb_data = garbage, mb_cap = METRICS_BODY_CAP, mb_len = 0\<rparr>;
          let (header, hlen) = snprintf 256 (response_header (mb_len mb));
          if hlen > 0 then
            if hlen \<le> length header \<and> mb_len mb \<le> length (mb_data mb)
            then Some [take hlen header, take (mb_len mb) (mb_data mb)] else None
          else Some []
        })"

section \<open>The thread\<close>

text \<open>One return of \<open>poll\<close>: nothing ready or an error other than an interrupt, or what is ready;
  a ready listener carries the outcome of \<open>accept\<close> and of the allocation, and the state of the
  other components.\<close>

datatype mh_wait =
  Mh_none
| Mh_ready (mh_wake: bool) (mh_conn: "(bool \<times> bool \<times> char list \<times> metrics_world) option")

definition mh_serve :: "(bool \<times> bool \<times> char list \<times> metrics_world) option \<Rightarrow> metrics_http \<Rightarrow> string list list option" where
  "mh_serve conn m =
     (case conn of
        Some (accepted, malloc_ok, garbage, w) \<Rightarrow>
          if accepted then map_option (\<lambda>r. [r]) (handle_client malloc_ok garbage m w) else Some []
      | None \<Rightarrow> Some [])"

fun mh_thread :: "mh_wait list \<Rightarrow> metrics_http \<Rightarrow> string list list option" where
  "mh_thread [] m = None"
| "mh_thread (Mh_none # ws) m = mh_thread ws m"
| "mh_thread (Mh_ready wake conn # ws) m =
     (if wake then Some []
      else
        do {
          sent \<leftarrow> mh_serve conn m;
          rest \<leftarrow> mh_thread ws m;
          Some (sent @ rest)
        })"

definition metrics_http_create :: "bool \<Rightarrow> bool \<Rightarrow> int \<Rightarrow> metrics_http_config \<Rightarrow> metrics_http option" where
  "metrics_http_create calloc_ok eventfd_ok now cfg =
     (if \<not> calloc_ok then None
      else if \<not> eventfd_ok then None
      else Some \<lparr>mh_cfg = cfg, mh_start_time = now, mh_listening = False, mh_running = False\<rparr>)"

record mh_setup =
  ms_socket :: bool
  ms_bind :: bool
  ms_listen :: bool
  ms_thread :: bool

definition metrics_http_start :: "mh_setup \<Rightarrow> metrics_http \<Rightarrow> metrics_http \<times> int" where
  "metrics_http_start env m =
     (if \<not> ms_socket env then (m\<lparr>mh_listening := False\<rparr>, - 1)
      else if \<not> ms_bind env then (m\<lparr>mh_listening := False\<rparr>, - 1)
      else if \<not> ms_listen env then (m\<lparr>mh_listening := False\<rparr>, - 1)
      else if \<not> ms_thread env then (m\<lparr>mh_listening := False\<rparr>, - 1)
      else (m\<lparr>mh_listening := True, mh_running := True\<rparr>, 0))"

text \<open>The waits of the thread up to the wake-up that \<open>metrics_http_stop\<close> writes; joining the
  thread waits for it to return.\<close>

definition metrics_http_stop :: "mh_wait list \<Rightarrow> metrics_http \<Rightarrow> (metrics_http \<times> string list list) option" where
  "metrics_http_stop waits m =
     (if \<not> mh_running m then Some (m, [])
      else
        do {
          responses \<leftarrow> mh_thread (waits @ [Mh_ready True None]) m;
          Some (m\<lparr>mh_running := False\<rparr>, responses)
        })"

section \<open>Appending\<close>

definition mb_ok :: "metrics_buf \<Rightarrow> bool" where
  "mb_ok b \<longleftrightarrow> length (mb_data b) = mb_cap b \<and> mb_len b \<le> mb_cap b"

definition mb_text :: "metrics_buf \<Rightarrow> string" where
  "mb_text b = take (mb_len b) (mb_data b)"

text \<open>Appending never writes outside the buffer. A text that fits is appended whole; otherwise the
  buffer is full afterwards and ends with the NUL of \<open>vsnprintf\<close>.\<close>

lemma mb_appendf_spec:
  assumes "mb_ok b"
  shows "mb_ok (mb_appendf b s) \<and> mb_cap (mb_appendf b s) = mb_cap b \<and>
    (mb_len b + length s < mb_cap b \<longrightarrow> mb_text (mb_appendf b s) = mb_text b @ s) \<and>
    (mb_len b < mb_cap b \<and> mb_cap b \<le> mb_len b + length s \<longrightarrow>
       mb_text (mb_appendf b s) = mb_text b @ take (mb_cap b - mb_len b - 1) s @ [CHR 0x00]) \<and>
    (mb_cap b \<le> mb_len b \<longrightarrow> mb_appendf b s = b)"
proof (cases "mb_len b < mb_cap b")
  case False
  then show ?thesis using assms by (simp add: mb_appendf_def)
next
  case True
  let ?room = "mb_cap b - mb_len b"
  let ?st = "take (?room - 1) s"
  have d: "vsnprintf_at (mb_data b) (mb_len b) ?room s =
      take (mb_len b) (mb_data b) @ ?st @ [CHR 0x00] @ drop (mb_len b + length ?st + 1) (mb_data b)"
    by (simp add: vsnprintf_at_def snprintf_def)
  have len: "length (vsnprintf_at (mb_data b) (mb_len b) ?room s) = mb_cap b"
    using True assms unfolding d by (auto simp: mb_ok_def min_def)
  show ?thesis
  proof (cases "length s < ?room")
    case fits: True
    then have "?st = s" by simp
    then show ?thesis
      using True assms len fits
      by (auto simp: mb_appendf_def mb_ok_def mb_text_def d Let_def min_def)
  next
    case full: False
    then have "length ?st = ?room - 1" by simp
    moreover have "0 < length s" using full True by linarith
    ultimately show ?thesis
      using True assms len full
      by (auto simp: mb_appendf_def mb_ok_def mb_text_def d Let_def min_def)
  qed
qed

lemma mb_ok_len: "mb_ok b \<Longrightarrow> mb_len b = length (mb_text b)"
  by (simp add: mb_ok_def mb_text_def)

lemma mb_append_all:
  assumes "mb_ok b" "mb_len b + length (concat ss) < mb_cap b"
  shows "mb_ok (foldl mb_appendf b ss) \<and> mb_text (foldl mb_appendf b ss) = mb_text b @ concat ss"
  using assms
proof (induction ss arbitrary: b)
  case (Cons s ss)
  note step = mb_appendf_spec [OF Cons.prems(1), of s]
  have t: "mb_text (mb_appendf b s) = mb_text b @ s" using step Cons.prems(2) by simp
  have "mb_len (mb_appendf b s) = mb_len b + length s"
    using mb_ok_len [of "mb_appendf b s"] mb_ok_len [OF Cons.prems(1)] t step by simp
  then have "mb_len (mb_appendf b s) + length (concat ss) < mb_cap (mb_appendf b s)"
    using Cons.prems(2) step by simp
  from Cons.IH [OF _ this] show ?case using step t by simp
qed simp

section \<open>The size of the body\<close>

lemma those_map_Some: "(\<And>x. x \<in> set xs \<Longrightarrow> f x = Some (g x)) \<Longrightarrow> those (map f xs) = Some (map g xs)"
  by (induction xs) auto

lemma length_concat_le:
  "(\<And>x. x \<in> set xs \<Longrightarrow> length x \<le> k) \<Longrightarrow> length (concat xs) \<le> length xs * k"
  by (induction xs) (auto simp: add_le_mono)

lemma dec_widths:
  "length (dec (unat (a :: u64))) \<le> 20" "length (dec (unat (b :: u32))) \<le> 10" "length (dec (unat (c :: u16))) \<le> 5"
  using dec_length [of "unat a" 20] dec_length [of "unat b" 10] dec_length [of "unat c" 5]
    unat_u64_less [of a] unat_u32_less [of b] unat_u16_less [of c] by simp_all

lemma dec_int_width: "- (2 ^ 63) \<le> i \<Longrightarrow> i < 2 ^ 63 \<Longrightarrow> length (dec_int i) \<le> 20"
  using dec_length [of "nat (- i)" 19] dec_length [of "nat i" 19]
  by (auto simp: dec_int_def nat_less_iff)

lemma backend_labels_width: "length (backend_labels b) \<le> 62"
  using dec_widths(2) [of "be_id b"] dec_widths(3) [of "be_port b"] ipv4_dotted_length [of "be_addr b"]
  by (simp add: backend_labels_def ipv4_format_def)

lemma start_width:
  assumes "- (2 ^ 63) \<le> t" "t < 2 ^ 63"
  shows "length (concat (start_lines t cfg)) \<le> 500"
  using dec_widths(2) [of "mc_table_size cfg"] dec_int_width [OF assms]
  by (simp add: start_lines_def family_def sample_def)

lemma traffic_width: "length (concat (traffic_lines snap)) \<le> 1000"
  using dec_widths(1) [of "ss_rx_packets snap"] dec_widths(1) [of "ss_rx_bytes snap"]
    dec_widths(1) [of "ss_tx_packets snap"] dec_widths(1) [of "ss_tx_bytes snap"]
  by (simp add: traffic_lines_def family_def sample_def)

lemma drop_width: "length (concat (drop_lines snap)) \<le> 1000"
  using dec_widths(1) [of "ss_drops_parse_error snap"] dec_widths(1) [of "ss_drops_no_backend snap"]
    dec_widths(1) [of "ss_drops_backend_unhealthy snap"] dec_widths(1) [of "ss_drops_conntrack_full snap"]
  by (simp add: drop_lines_def family_def sample_def)

lemma conntrack_width: "length (concat (conntrack_lines snap ct)) \<le> 1000"
  using dec_widths(1) [of "ss_conntrack_hits snap"] dec_widths(1) [of "ss_conntrack_misses snap"]
    dec_widths(1) [of "ss_conntrack_evictions snap"] dec_widths(1) [of "conntrack_active_flows ct"]
  by (simp add: conntrack_lines_def family_def sample_def)

lemma table_width: "length (concat (table_lines tg)) \<le> 1000"
  using dec_widths(1) [of "table_generator_generation tg"] dec_widths(1) [of "table_generator_last_regen_us tg"]
  by (simp add: table_lines_def family_def sample_def)

lemma registry_width:
  assumes "length bs \<le> BACKEND_MAX"
  shows "length (concat (registry_lines cfg bs)) \<le> 1000"
proof -
  let ?n = "length (filter (\<lambda>b. healthy b \<and> mac_resolved b \<and> admin_state b = BACKEND_ENABLED) bs)"
  have "?n \<le> 64" using assms le_trans [OF length_filter_le] by (simp add: BACKEND_MAX_def)
  then have "length (dec ?n) \<le> 2" using dec_length [of ?n 2] by simp
  then show ?thesis
    using dec_widths(1) [of "mc_configured_backends cfg"] by (simp add: registry_lines_def family_def sample_def)
qed

lemma backend_samples_width:
  assumes "length xs \<le> BACKEND_MAX" "length name \<le> 40" "\<And>x. x \<in> set xs \<Longrightarrow> length (v x) \<le> 20"
  shows "length (concat (map (\<lambda>x. sample name (backend_labels (b x)) (v x)) xs)) \<le> 64 * 140"
proof -
  have "length (sample name (backend_labels (b x)) (v x)) \<le> 140" if "x \<in> set xs" for x
    using assms(2) assms(3) [OF that] backend_labels_width [of "b x"] by (simp add: sample_def)
  then have "length (concat (map (\<lambda>x. sample name (backend_labels (b x)) (v x)) xs)) \<le> length xs * 140"
    using length_concat_le [of "map (\<lambda>x. sample name (backend_labels (b x)) (v x)) xs" 140] by auto
  then show ?thesis using assms(1) by (simp add: BACKEND_MAX_def)
qed

lemma family_width:
  "length (concat (family name kind about)) = 38 + 2 * length name + length kind + length about"
  by (simp add: family_def)

lemma state_width:
  assumes "length bs \<le> BACKEND_MAX" "length name \<le> 40" "length about \<le> 250"
  shows "length (concat (state_lines name about P bs)) \<le> 9400"
proof -
  have "length (dec (if P b then 1 else 0)) \<le> 20" for b by (simp add: dec.simps)
  from backend_samples_width [OF assms(1,2) this, of "\<lambda>b. b" "\<lambda>b. b"] show ?thesis
    using assms(2,3) by (simp add: state_lines_def family_width)
qed

text \<open>The samples of a counter, once its readings succeed.\<close>

definition seen :: "(nat \<Rightarrow> lb_stats) \<Rightarrow> nat \<times> backend \<Rightarrow> per_backend_stats" where
  "seen reading ib = the (stats_registry_snapshot_backend (reading (fst ib)) (be_id (snd ib)))"

lemma counter_lines_eq:
  assumes "\<And>i. stats_inv (reading i)"
  shows "counter_lines name kind about field reading bs =
    Some (family name kind about @ map (\<lambda>ib. sample name (backend_labels (snd ib)) (dec (unat (field (seen reading ib)))))
      (enumerate 0 bs))"
proof -
  have "those (map (\<lambda>(i, b). map_option (\<lambda>s. sample name (backend_labels b) (dec (unat (field s))))
          (stats_registry_snapshot_backend (reading i) (be_id b))) (enumerate 0 bs)) =
      Some (map (\<lambda>ib. sample name (backend_labels (snd ib)) (dec (unat (field (seen reading ib))))) (enumerate 0 bs))"
    by (rule those_map_Some) (auto simp: seen_def snapshot_backend_eq [OF assms])
  then show ?thesis by (simp add: counter_lines_def)
qed

lemma counter_width:
  assumes "\<And>i. stats_inv (reading i)" "length bs \<le> BACKEND_MAX" "length name \<le> 40" "length kind + length about \<le> 250"
  shows "\<exists>ls. counter_lines name kind about field reading bs = Some ls \<and> length (concat ls) \<le> 9400"
proof -
  have "length (enumerate 0 bs) \<le> BACKEND_MAX" using assms(2) by simp
  from backend_samples_width [OF this assms(3) dec_widths(1), of snd "\<lambda>ib. field (seen reading ib)"] show ?thesis
    using assms(3,4) unfolding counter_lines_eq [OF assms(1)] by (simp add: family_width)
qed

lemma metrics_lines_width:
  assumes "\<And>k i. stats_inv (mw_reading w k i)" "bm_inv (mw_bm w)"
    "- (2 ^ 63) \<le> mh_start_time m" "mh_start_time m < 2 ^ 63"
  shows "\<exists>ls. metrics_lines m w = Some ls \<and> length (concat ls) < METRICS_BODY_CAP"
proof -
  let ?bs = "backend_manager_snapshot_all (mw_bm w) BACKEND_MAX"
  have n: "length ?bs \<le> BACKEND_MAX"
    by (simp add: backend_manager_snapshot_all_def snapshot_where_def)
  have st: "length (concat (all_state_lines ?bs)) \<le> 28200"
    using state_width [OF n, of "''backend_up''"
        "''Whether the backend is currently healthy (1) or not (0), as last determined by the health checker.''" healthy]
      state_width [OF n, of "''backend_admin_enabled''"
        "''Whether the backend's admin state is ENABLED (1) rather than DRAINING/DISABLED (0).''"
        "\<lambda>b. admin_state b = BACKEND_ENABLED"]
      state_width [OF n, of "''backend_draining''"
        "''Whether the backend is currently DRAINING (1): no new flows, but flows already pinned to it via '' @
          ''conntrack keep being forwarded until they finish naturally.''" "\<lambda>b. admin_state b = BACKEND_DRAINING"]
    unfolding all_state_lines_def by simp
  have cw: "\<exists>ls. counter_lines name kind about field (mw_reading w k) ?bs = Some ls \<and> length (concat ls) \<le> 9400"
    if "length name \<le> 40" "length kind + length about \<le> 250" for name kind about field k
    by (rule counter_width [OF _ n that]) (rule assms(1))
  obtain cs where cs: "all_counter_lines (mw_reading w) ?bs = Some cs" "length (concat cs) \<le> 47000"
    using cw [of "''backend_packets_total''" "''counter''"
        "''GRE-encapsulated packets forwarded to this specific backend.''" pb_packets 1]
      cw [of "''backend_bytes_total''" "''counter''"
        "''Bytes forwarded to this specific backend (GRE-encapsulated, including the wrapper).''" pb_bytes 2]
      cw [of "''backend_active_flows''" "''gauge''"
        "''Flows in the conntrack table currently pinned to this backend.''" pb_active_flows 3]
      cw [of "''backend_flows_assigned_total''" "''counter''"
        "''New flows the datapath has pinned to this backend (conntrack inserts). A packet reusing an '' @
           ''already-pinned 5-tuple is not counted.''" pb_flows_assigned 4]
      cw [of "''backend_health_check_failures_total''" "''counter''"
        "''Failed health-check probes against this backend (every failure, not just '' @
           ''threshold-crossing ones).''" pb_health_check_failures 5]
    unfolding all_counter_lines_def by auto
  show ?thesis
    using st cs start_width [OF assms(3,4), of "mh_cfg m"] registry_width [OF n, of "mh_cfg m"]
      traffic_width [of "stats_registry_snapshot (mw_reading w 0 0)"]
      drop_width [of "stats_registry_snapshot (mw_reading w 0 0)"]
      conntrack_width [of "stats_registry_snapshot (mw_reading w 0 0)" "mw_ct w"] table_width [of "mw_tg w"]
    by (simp add: metrics_lines_def METRICS_BODY_CAP_def Let_def)
qed

section \<open>The response\<close>

lemma response_header_width: "len < METRICS_BODY_CAP \<Longrightarrow> length (response_header len) < 256"
  using dec_length [of len 6] by (simp add: response_header_def CRLF_def METRICS_BODY_CAP_def)

lemma handle_client_exact:
  assumes "metrics_lines m w = Some ls" "length (concat ls) < METRICS_BODY_CAP" "length garbage = METRICS_BODY_CAP"
  shows "handle_client True garbage m w = Some [response_header (length (concat ls)), concat ls]"
proof -
  let ?empty = "\<lparr>mb_data = garbage, mb_cap = METRICS_BODY_CAP, mb_len = 0\<rparr>"
  let ?b = "foldl mb_appendf ?empty ls"
  have "mb_ok ?b \<and> mb_text ?b = mb_text ?empty @ concat ls"
    by (rule mb_append_all) (use assms in \<open>simp_all add: mb_ok_def\<close>)
  then have ok: "mb_ok ?b" and t: "mb_text ?b = concat ls" by (simp_all add: mb_text_def)
  have l: "mb_len ?b = length (concat ls)" "mb_len ?b \<le> length (mb_data ?b)"
    "take (mb_len ?b) (mb_data ?b) = concat ls"
  proof -
    show "mb_len ?b = length (concat ls)" using mb_ok_len [OF ok] unfolding t .
    show "mb_len ?b \<le> length (mb_data ?b)" using ok by (simp add: mb_ok_def)
    show "take (mb_len ?b) (mb_data ?b) = concat ls" using t by (simp add: mb_text_def)
  qed
  have h: "snprintf 256 (response_header (mb_len ?b)) =
      (response_header (length (concat ls)), length (response_header (length (concat ls))))"
    using response_header_width [OF assms(2)] l(1) by (simp add: snprintf_def)
  have "0 < length (response_header (length (concat ls)))" by (simp add: response_header_def)
  then show ?thesis
    using assms(1) l(2,3) h by (simp add: handle_client_def build_metrics_body_def)
qed

text \<open>A world the exporter may meet: the registries are well formed.\<close>

definition metrics_world_ok :: "metrics_world \<Rightarrow> bool" where
  "metrics_world_ok w \<longleftrightarrow> (\<forall>k i. stats_inv (mw_reading w k i)) \<and> bm_inv (mw_bm w)"

definition time_ok :: "int \<Rightarrow> bool" where
  "time_ok t \<longleftrightarrow> - (2 ^ 63) \<le> t \<and> t < 2 ^ 63"

lemma metrics_http_response:
  assumes "metrics_world_ok w" "time_ok (mh_start_time m)" "length garbage = METRICS_BODY_CAP"
  shows "\<exists>ls. metrics_lines m w = Some ls \<and> length (concat ls) < METRICS_BODY_CAP \<and>
    handle_client True garbage m w = Some [response_header (length (concat ls)), concat ls]"
  using metrics_lines_width [of w m] handle_client_exact assms unfolding metrics_world_ok_def time_ok_def by blast

fun wait_ok :: "mh_wait \<Rightarrow> bool" where
  "wait_ok (Mh_ready wake (Some (_, _, garbage, w))) \<longleftrightarrow> metrics_world_ok w \<and> length garbage = METRICS_BODY_CAP"
| "wait_ok _ \<longleftrightarrow> True"

lemma handle_client_total:
  assumes "metrics_world_ok w" "time_ok (mh_start_time m)" "length garbage = METRICS_BODY_CAP"
  shows "\<exists>r. handle_client ok garbage m w = Some r"
  using metrics_http_response [OF assms] by (cases ok) (auto simp: handle_client_def)

lemma mh_serve_total:
  assumes "wait_ok (Mh_ready wake conn)" "time_ok (mh_start_time m)"
  shows "\<exists>rs. mh_serve conn m = Some rs"
proof (cases conn)
  case None
  then show ?thesis by (simp add: mh_serve_def)
next
  case (Some c)
  obtain acc ok garbage w where c: "c = (acc, ok, garbage, w)" by (cases c)
  then obtain r where "handle_client ok garbage m w = Some r"
    using handle_client_total [of w m garbage ok] assms Some by auto
  then show ?thesis using Some c by (simp add: mh_serve_def)
qed

lemma mh_thread_returns:
  assumes "list_all wait_ok ws" "list_ex (\<lambda>x. x \<noteq> Mh_none \<and> mh_wake x) ws" "time_ok (mh_start_time m)"
  shows "\<exists>rs. mh_thread ws m = Some rs"
  using assms
proof (induction ws)
  case (Cons x ws)
  show ?case
  proof (cases x)
    case Mh_none
    then show ?thesis using Cons by simp
  next
    case (Mh_ready wake conn)
    show ?thesis
    proof (cases wake)
      case True
      then show ?thesis using Mh_ready by simp
    next
      case False
      then obtain rs where rs: "mh_thread ws m = Some rs" using Cons Mh_ready by auto
      have "\<exists>r. mh_serve conn m = Some r" by (rule mh_serve_total [of wake]) (use Cons.prems(1,3) Mh_ready in simp_all)
      then show ?thesis using rs False Mh_ready by auto
    qed
  qed
qed simp

text \<open>A text that does not fit leaves a NUL as the last byte counted into the body.\<close>

lemma mb_appendf_truncates_with_nul:
  assumes "mb_ok b" "mb_len b < mb_cap b" "mb_cap b \<le> mb_len b + length s"
  shows "last (mb_text (mb_appendf b s)) = CHR 0x00"
  using mb_appendf_spec [OF assms(1), of s] assms by simp

end
