(* ===== verification/Tui.thy ===== *)
theory Tui
  imports Datapath C_String
begin

text \<open>
  \<open>src/ui/tui.c\<close>: what the dashboard draws and when it ends. A screen is the list of the strings
  written, each with its row and its attribute. The readings that one drawing makes are arguments,
  since other threads go on; so are the results of \<open>poll\<close> and of the running flag in each turn.
  The setting up of the terminal is left out.

  The lemmas show that drawing never fails and puts no two strings on one row, and that the loop
  ends in the first turn that reports the end of the datapath, a quit key or a cleared running flag.
\<close>

section \<open>Drawing\<close>

datatype tui_attr = Attr_normal | Attr_bold | Attr_healthy | Attr_unhealthy

type_synonym screen = "(nat \<times> tui_attr \<times> string) list"

record tui =
  tui_vip :: u32
  tui_refresh_ms :: u32
  tui_stop_fd :: bool

text \<open>The generator, the registry, and the counters when the totals are read (0) and when those of
  the \<open>i\<close>-th backend are (\<open>i + 1\<close>).\<close>

record tui_world =
  tw_tg :: table_generator
  tw_bm :: bm_slots
  tw_reading :: "nat \<Rightarrow> lb_stats"

definition tui_create :: "bool \<Rightarrow> tui \<Rightarrow> tui option" where
  "tui_create calloc_ok cfg = (if \<not> calloc_ok then None else Some cfg)"

fun admin_state_str :: "backend_admin_state \<Rightarrow> string" where
  "admin_state_str BACKEND_ENABLED = ''enabled''"
| "admin_state_str BACKEND_DRAINING = ''draining''"
| "admin_state_str BACKEND_DISABLED = ''disabled''"

text \<open>\<open>%12llu\<close> and \<open>%-9s\<close>.\<close>

definition pad_left :: "nat \<Rightarrow> string \<Rightarrow> string" where
  "pad_left n s = replicate (n - length s) (CHR '' '') @ s"

definition pad_right :: "nat \<Rightarrow> string \<Rightarrow> string" where
  "pad_right n s = s @ replicate (n - length s) (CHR '' '')"

definition num :: "u64 \<Rightarrow> string" where
  "num w = dec (unat w)"

definition backend_row :: "backend \<Rightarrow> per_backend_stats \<Rightarrow> tui_attr \<times> string" where
  "backend_row b bs =
     (let addr_str = ipv4_format (be_addr b) 32;
          addr_port = fst (snprintf 40 (addr_str @ '':'' @ dec (unat (be_port b)))) in
      (if healthy b then Attr_healthy else Attr_unhealthy,
       pad_right 4 (dec (unat (be_id b))) @ '' '' @ pad_right 21 addr_port @ '' '' @
       pad_right 9 (if healthy b then ''healthy'' else ''unhealthy'') @ '' '' @
       pad_right 9 (admin_state_str (admin_state b)) @ '' '' @ pad_left 12 (num (pb_packets bs)) @ '' '' @
       pad_left 14 (num (pb_bytes bs)) @ '' '' @ pad_left 8 (num (pb_active_flows bs)) @ '' '' @
       pad_left 8 (num (pb_health_check_failures bs))))"

fun backend_rows :: "(nat \<Rightarrow> lb_stats) \<Rightarrow> nat \<Rightarrow> nat \<Rightarrow> backend list \<Rightarrow> screen option" where
  "backend_rows reading i row [] = Some []"
| "backend_rows reading i row (b # bs) =
     do {
       st \<leftarrow> stats_registry_snapshot_backend (reading (i + 1)) (be_id b);
       rest \<leftarrow> backend_rows reading (i + 1) (row + 1) bs;
       Some ((row, backend_row b st) # rest)
     }"

definition draw :: "tui \<Rightarrow> tui_world \<Rightarrow> screen option" where
  "draw t w =
     (let vip_str = ipv4_format (tui_vip t) 32;
          generation = table_generator_generation (tw_tg w);
          last_regen_us = table_generator_last_regen_us (tw_tg w);
          snap = stats_registry_snapshot (tw_reading w 0);
          backends = backend_manager_snapshot_all (tw_bm w) BACKEND_MAX in
      do {
        rows \<leftarrow> backend_rows (tw_reading w) 0 8 backends;
        Some
          ([(0, Attr_bold, ''maglev-lb   vip='' @ vip_str @ ''   table generation='' @ num generation @
               ''   last regen='' @ num last_regen_us @ '' us''),
            (2, Attr_normal, ''rx  '' @ pad_left 12 (num (ss_rx_packets snap)) @ '' pkts  '' @
               pad_left 14 (num (ss_rx_bytes snap)) @ '' bytes''),
            (3, Attr_normal, ''tx  '' @ pad_left 12 (num (ss_tx_packets snap)) @ '' pkts  '' @
               pad_left 14 (num (ss_tx_bytes snap)) @ '' bytes''),
            (4, Attr_normal, ''conntrack   hits='' @ num (ss_conntrack_hits snap) @ ''  misses='' @
               num (ss_conntrack_misses snap) @ ''  evictions='' @ num (ss_conntrack_evictions snap)),
            (5, Attr_normal, ''drops       parse='' @ num (ss_drops_parse_error snap) @ ''  no_backend='' @
               num (ss_drops_no_backend snap) @ ''  unhealthy='' @ num (ss_drops_backend_unhealthy snap) @
               ''  conntrack_full='' @ num (ss_drops_conntrack_full snap)),
            (7, Attr_bold, pad_right 4 ''ID'' @ '' '' @ pad_right 21 ''ADDRESS'' @ '' '' @ pad_right 9 ''HEALTH'' @ '' '' @
               pad_right 9 ''ADMIN'' @ '' '' @ pad_left 12 ''PACKETS'' @ '' '' @ pad_left 14 ''BYTES'' @ '' '' @
               pad_left 8 ''FLOWS'' @ '' '' @ pad_left 8 ''HC-FAIL'')] @
           rows @ [(8 + length backends + 1, Attr_normal, ''press q to quit'')])
      })"

section \<open>The loop\<close>

text \<open>The result of \<open>poll\<close> when it is not interrupted: nothing (time-out or error), or which of the
  two descriptors is readable, with the key that \<open>getch\<close> returns for the input.\<close>

datatype tui_poll = Poll_none | Poll_ready bool "char option"

record tui_turn =
  tt_world :: tui_world
  tt_poll :: tui_poll
  tt_running :: bool

definition joined :: "tui \<Rightarrow> tui_poll \<Rightarrow> bool" where
  "joined t p = (case p of Poll_none \<Rightarrow> False | Poll_ready stop key \<Rightarrow> tui_stop_fd t \<and> stop)"

definition quit_key :: "tui_poll \<Rightarrow> bool" where
  "quit_key p = (case p of Poll_ready stop (Some ch) \<Rightarrow> ch = CHR ''q'' \<or> ch = CHR ''Q'' | _ \<Rightarrow> False)"

text \<open>One turn of the loop: what is drawn, and whether the loop goes on.\<close>

definition tui_step :: "tui \<Rightarrow> tui_world \<Rightarrow> tui_poll \<Rightarrow> bool \<Rightarrow> (screen \<times> bool) option" where
  "tui_step t w p is_running =
     do {
       s \<leftarrow> draw t w;
       Some (s, if joined t p then False else if quit_key p then False else is_running)
     }"

fun tui_loop :: "tui \<Rightarrow> tui_turn list \<Rightarrow> screen list option" where
  "tui_loop t [] = None"
| "tui_loop t (turn # rest) =
     do {
       (s, running) \<leftarrow> tui_step t (tt_world turn) (tt_poll turn) (tt_running turn);
       if running then do { ss \<leftarrow> tui_loop t rest; Some (s # ss) } else Some [s]
     }"

definition tui_run :: "tui \<Rightarrow> tui_turn list \<Rightarrow> (screen list \<times> int) option" where
  "tui_run t rest = map_option (\<lambda>ss. (ss, 0)) (tui_loop t rest)"

section \<open>What is drawn\<close>

lemma backend_rows_ok:
  assumes "\<And>k. stats_inv (reading k)"
  shows "\<exists>rows. backend_rows reading i row bs = Some rows \<and> map fst rows = [row..<row + length bs] \<and>
    (\<forall>j < length bs. \<exists>st. stats_registry_snapshot_backend (reading (i + j + 1)) (be_id (bs ! j)) = Some st \<and>
       rows ! j = (row + j, backend_row (bs ! j) st))"
proof (induction bs arbitrary: i row)
  case (Cons b bs)
  obtain st where st: "stats_registry_snapshot_backend (reading (i + 1)) (be_id b) = Some st"
    using snapshot_backend_eq [OF assms] by blast
  obtain rows where r: "backend_rows reading (i + 1) (row + 1) bs = Some rows"
      "map fst rows = [row + 1..<row + 1 + length bs]"
      "\<forall>j < length bs. \<exists>st. stats_registry_snapshot_backend (reading (i + 1 + j + 1)) (be_id (bs ! j)) = Some st \<and>
         rows ! j = (row + 1 + j, backend_row (bs ! j) st)"
    using Cons.IH [of "i + 1" "row + 1"] by blast
  have "map fst ((row, backend_row b st) # rows) = [row..<row + length (b # bs)]"
    using r(2) by (simp add: upt_rec)
  moreover have "\<exists>st. stats_registry_snapshot_backend (reading (i + j + 1)) (be_id ((b # bs) ! j)) = Some st \<and>
      ((row, backend_row b st0) # rows) ! j = (row + j, backend_row ((b # bs) ! j) st)"
    if "j < length (b # bs)" "st0 = st" for j st0
    using that st r(3) by (cases j) auto
  ultimately show ?case using st r(1) by simp
qed simp

text \<open>Drawing never fails, uses no row twice, and the row of each backend shows its counters.\<close>

lemma draw_ok:
  assumes "\<And>k. stats_inv (tw_reading w k)"
  defines "bs \<equiv> backend_manager_snapshot_all (tw_bm w) BACKEND_MAX"
  shows "\<exists>s. draw t w = Some s \<and> distinct (map fst s) \<and>
    (\<forall>j < length bs. \<exists>st. stats_registry_snapshot_backend (tw_reading w (j + 1)) (be_id (bs ! j)) = Some st \<and>
       (8 + j, backend_row (bs ! j) st) \<in> set s)"
proof -
  obtain rows where r: "backend_rows (tw_reading w) 0 8 bs = Some rows" "map fst rows = [8..<8 + length bs]"
      "\<forall>j < length bs. \<exists>st. stats_registry_snapshot_backend (tw_reading w (0 + j + 1)) (be_id (bs ! j)) = Some st \<and>
         rows ! j = (8 + j, backend_row (bs ! j) st)"
    using backend_rows_ok [of "tw_reading w" 0 8 bs] assms(1) by blast
  have len: "length rows = length bs" using arg_cong [OF r(2), of length] by simp
  have "\<exists>st. stats_registry_snapshot_backend (tw_reading w (j + 1)) (be_id (bs ! j)) = Some st \<and>
      (8 + j, backend_row (bs ! j) st) \<in> set rows" if "j < length bs" for j
    using r(3) that len by (metis add_0 nth_mem)
  then show ?thesis
    using r(1,2) unfolding draw_def bs_def [symmetric] Let_def by auto
qed

section \<open>When it ends\<close>

definition turn_ends :: "tui \<Rightarrow> tui_turn \<Rightarrow> bool" where
  "turn_ends t turn \<longleftrightarrow> joined t (tt_poll turn) \<or> quit_key (tt_poll turn) \<or> \<not> tt_running turn"

definition turn_ok :: "tui_turn \<Rightarrow> bool" where
  "turn_ok turn \<longleftrightarrow> (\<forall>k. stats_inv (tw_reading (tt_world turn) k))"

lemma tui_run_returns:
  assumes "list_all turn_ok ts" "list_ex (turn_ends t) ts"
  shows "\<exists>ss. tui_run t ts = Some (ss, 0) \<and> length ss = length (takeWhile (\<lambda>turn. \<not> turn_ends t turn) ts) + 1"
proof -
  have "\<exists>ss. tui_loop t ts = Some ss \<and> length ss = length (takeWhile (\<lambda>turn. \<not> turn_ends t turn) ts) + 1"
    using assms
  proof (induction ts)
    case (Cons turn ts)
    obtain s where s: "draw t (tt_world turn) = Some s"
      using draw_ok [of "tt_world turn" t] Cons.prems(1) by (auto simp: turn_ok_def)
    show ?case
    proof (cases "turn_ends t turn")
      case True
      then show ?thesis using s by (auto simp: tui_step_def turn_ends_def)
    next
      case False
      then show ?thesis using s Cons by (auto simp: tui_step_def turn_ends_def)
    qed
  qed simp
  then show ?thesis by (auto simp: tui_run_def)
qed

text \<open>A dashboard that is drawn before the datapath has set its flag ends at the first key of any
  kind.\<close>

lemma tui_ends_before_start:
  assumes "turn_ok turn" "tt_poll turn = Poll_ready False (Some ch)" "\<not> tt_running turn"
  shows "\<exists>s. tui_run t (turn # ts) = Some ([s], 0)"
  using draw_ok [of "tt_world turn" t] assms by (auto simp: turn_ok_def tui_run_def tui_step_def joined_def)

end
