(* ===== verification/Startup.thy ===== *)
theory Startup
  imports Arp_Resolve Config Datapath Health_Checker Metrics_Http Tui
begin

text \<open>
  \<open>src/main.c\<close>, from the registry to the datapath: each block of \<open>main\<close> between two error exits is a
  function on the record of the objects created so far, which returns whether to go on or to clean
  up. The outcomes of the system calls and of the allocations are the record \<open>main_env\<close>.

  The lemmas show that every start returns, and that a start that succeeds leaves the invariant
  \<open>lb_inv\<close> behind: the registry holds exactly the configured backends with the addresses that were
  resolved, the installed table is the one for this registry, and the connection table, the
  counters and the datapath are well formed.
\<close>

section \<open>Data\<close>

definition ARP_TIMEOUT_MS :: int where "ARP_TIMEOUT_MS = 2000"
definition REAPER_INTERVAL_MS :: u32 where "REAPER_INTERVAL_MS = 500"
definition HEALTH_CHECKER_ADMIN_FIFO_LEN :: nat where "HEALTH_CHECKER_ADMIN_FIFO_LEN = 256"

record main_env =
  me_sigmask :: bool
  me_mac :: "u8 list option"
  me_bm_alloc :: bool
  me_arp :: "nat \<Rightarrow> arp_setup \<times> (int \<times> arp_poll) list"
  me_tg_alloc :: bool
  me_rebuilds :: "nat \<Rightarrow> tg_env"
  me_ct_alloc :: "ct_alloc_site \<Rightarrow> bool"
  me_ct_garbage :: "nat \<Rightarrow> conntrack_entry"
  me_stats_alloc :: bool
  me_hc_calloc :: bool
  me_hc_eventfd :: bool
  me_hc_open :: bool
  me_hc_thread :: bool
  me_mh_calloc :: bool
  me_mh_eventfd :: bool
  me_mh_now :: int
  me_mh_setup :: mh_setup
  me_dp_calloc :: bool
  me_tx_garbage :: buffer

text \<open>The local variables of \<open>main\<close> that the clean-up looks at; \<open>None\<close> is a null pointer, and for
  \<open>lb_counters\<close> that \<open>stats_initialized\<close> is not set. The objects are shared: the registry, the
  generator, the connection table and the counters held here are the current ones, and the copies
  inside the records of the health checker and of the datapath stand for pointers to them. The last
  component is the dashboard that \<open>run_with_tui\<close> has open.\<close>

record lb =
  lb_bm :: "tg_world backend_manager option"
  lb_tg :: "tg_world option"
  lb_ct :: "conntrack_table option"
  lb_counters :: "lb_stats option"
  lb_hc :: "tg_world health_checker option"
  lb_mh :: "metrics_http option"
  lb_dp :: "datapath option"
  lb_ui :: "tui option option"

definition lb_null :: lb where
  "lb_null = \<lparr>lb_bm = None, lb_tg = None, lb_ct = None, lb_counters = None, lb_hc = None, lb_mh = None, lb_dp = None,
     lb_ui = None\<rparr>"

section \<open>The blocks of the start\<close>

text \<open>The loop over the configured backends. Nobody is subscribed yet, so the world \<open>w\<close> is not used.\<close>

fun add_backends ::
  "main_env \<Rightarrow> config \<Rightarrow> u8 list \<Rightarrow> nat \<Rightarrow> config_backend list \<Rightarrow> 'w backend_manager \<Rightarrow> 'w \<Rightarrow>
     ('w backend_manager \<times> 'w \<times> bool) option" where
  "add_backends env cfg iface_mac i [] bm w = Some (bm, w, True)"
| "add_backends env cfg iface_mac i (b # bs) bm w =
     do {
       (bm, bid, w) \<leftarrow> backend_manager_add bm (cb_addr b) (cb_port b) w;
       if bid = UINT32_MAX then Some (bm, w, False)
       else do {
         (_, r) \<leftarrow> arp_resolve (fst (me_arp env i)) (snd (me_arp env i)) (cb_addr b) iface_mac
                   (cf_director_ip cfg) ARP_TIMEOUT_MS;
         case r of
           None \<Rightarrow> Some (bm, w, False)
         | Some mac \<Rightarrow>
           do {
             (bm, w) \<leftarrow> backend_manager_set_mac bm bid mac w;
             add_backends env cfg iface_mac (i + 1) bs bm w
           }
       }
     }"

definition null_world :: tg_world where
  "null_world = (\<lparr>tg_m = 0, tg_active = None, tg_generation = 0, tg_last_regen_us = 0, tg_retired = [],
     tg_retired_cap = 0, tg_heap = Map.empty, tg_next_addr = 0\<rparr>, 0, [])"

definition start_registry :: "main_env \<Rightarrow> config \<Rightarrow> u8 list \<Rightarrow> lb \<Rightarrow> (lb \<times> bool) option" where
  "start_registry env cfg iface_mac lb =
     (case backend_manager_create (me_bm_alloc env) of
        None \<Rightarrow> Some (lb, False)
      | Some bm \<Rightarrow>
        do {
          (bm, _, ok) \<leftarrow> add_backends env cfg iface_mac 0 (take (cf_n_backends cfg) (cf_backends cfg)) bm null_world;
          Some (lb\<lparr>lb_bm := Some bm\<rparr>, ok)
        })"

definition start_table :: "xxh64 \<Rightarrow> main_env \<Rightarrow> config \<Rightarrow> lb \<Rightarrow> (lb \<times> bool) option" where
  "start_table xxh env cfg lb =
     do {
       bm \<leftarrow> lb_bm lb;
       case table_generator_create (me_tg_alloc env) (cf_table_size cfg) of
         None \<Rightarrow> Some (lb, False)
       | Some tg \<Rightarrow>
         do {
           let bm = table_generator_install_as_subscriber xxh (me_rebuilds env) bm;
           (tg, rc, lost) \<leftarrow> table_generator_rebuild_and_install xxh (me_rebuilds env 0) bm tg;
           Some (lb\<lparr>lb_bm := Some bm, lb_tg := Some (tg, 1, leak lost [])\<rparr>, rc = 0)
         }
     }"

definition start_flows :: "main_env \<Rightarrow> config \<Rightarrow> lb \<Rightarrow> (lb \<times> bool) option" where
  "start_flows env cfg lb =
     do {
       r \<leftarrow> conntrack_create (me_ct_alloc env) (me_ct_garbage env) (cf_max_flows cfg);
       case r of
         None \<Rightarrow> Some (lb, False)
       | Some ct \<Rightarrow>
         let lb = lb\<lparr>lb_ct := Some ct\<rparr>;
             (stats, rc) = stats_registry_init (me_stats_alloc env) (cf_n_backends cfg) in
         if rc \<noteq> 0 then Some (lb, False) else Some (lb\<lparr>lb_counters := Some stats\<rparr>, True)
     }"

text \<open>A health checker or an exporter that cannot be created or started is reported and done without.\<close>

definition start_health :: "main_env \<Rightarrow> config \<Rightarrow> lb \<Rightarrow> lb option" where
  "start_health env cfg lb =
     do {
       bm \<leftarrow> lb_bm lb;
       w \<leftarrow> lb_tg lb;
       let hc_cfg = \<lparr>hc_interval_ms = cf_hc_interval_ms cfg, hc_timeout_ms = cf_hc_timeout_ms cfg,
             hc_rise = cf_hc_rise cfg, hc_fall = cf_hc_fall cfg,
             hc_admin_fifo = cstring (strncpy (replicate HEALTH_CHECKER_ADMIN_FIFO_LEN (CHR 0x00))
               (cstring (cf_admin_fifo cfg)) (HEALTH_CHECKER_ADMIN_FIFO_LEN - 1))\<rparr>;
       let hc = health_checker_create (me_hc_calloc env) (me_hc_eventfd env) (me_hc_open env) bm w hc_cfg (lb_counters lb);
       Some (lb\<lparr>lb_hc := map_option (\<lambda>hc. fst (health_checker_start (me_hc_thread env) hc)) hc\<rparr>)
     }"

definition start_metrics :: "main_env \<Rightarrow> config \<Rightarrow> lb \<Rightarrow> lb" where
  "start_metrics env cfg lb =
     (if cf_metrics_port cfg \<noteq> 0 then
        let mh_cfg = \<lparr>mc_port = cf_metrics_port cfg, mc_table_size = cf_table_size cfg,
              mc_configured_backends = of_nat (cf_n_backends cfg)\<rparr> in
        case metrics_http_create (me_mh_calloc env) (me_mh_eventfd env) (me_mh_now env) mh_cfg of
          None \<Rightarrow> lb
        | Some mh \<Rightarrow>
          let (mh, rc) = metrics_http_start (me_mh_setup env) mh in
          if rc \<noteq> 0 then lb\<lparr>lb_mh := None\<rparr> else lb\<lparr>lb_mh := Some mh\<rparr>
      else lb)"

definition start_datapath :: "main_env \<Rightarrow> config \<Rightarrow> lb \<Rightarrow> (lb \<times> bool) option" where
  "start_datapath env cfg lb =
     do {
       (tg, _, _) \<leftarrow> lb_tg lb;
       ct \<leftarrow> lb_ct lb;
       stats \<leftarrow> lb_counters lb;
       let dp_cfg = \<lparr>dp_vip = cf_vip cfg, dp_director_ip = cf_director_ip cfg, dp_ttl = cf_ttl cfg,
             dp_reaper_interval_ms = REAPER_INTERVAL_MS,
             dp_tcp_timeout_ns = ucast (cf_ct_tcp_timeout_ms cfg) * 1000000,
             dp_udp_timeout_ns = ucast (cf_ct_udp_timeout_ms cfg) * 1000000\<rparr>;
       let dp = datapath_create (me_dp_calloc env) dp_cfg tg ct stats (me_tx_garbage env);
       Some (lb\<lparr>lb_dp := dp\<rparr>, dp \<noteq> None)
     }"

text \<open>The blocks in order; the first that reports failure ends the start.\<close>

definition and_then :: "(lb \<times> bool) option \<Rightarrow> (lb \<Rightarrow> (lb \<times> bool) option) \<Rightarrow> (lb \<times> bool) option" where
  "and_then r f = do { (lb, ok) \<leftarrow> r; if ok then f lb else Some (lb, False) }"

definition start_lb :: "xxh64 \<Rightarrow> main_env \<Rightarrow> config \<Rightarrow> u8 list \<Rightarrow> (lb \<times> bool) option" where
  "start_lb xxh env cfg iface_mac =
     and_then (start_registry env cfg iface_mac lb_null) (\<lambda>lb.
     and_then (start_table xxh env cfg lb) (\<lambda>lb.
     and_then (start_flows env cfg lb) (\<lambda>lb.
     do {
       lb \<leftarrow> start_health env cfg lb;
       start_datapath env cfg (start_metrics env cfg lb)
     })))"

section \<open>The registry\<close>

lemma arp_loop_mac_length: "arp_loop deadline target_ip ts = Some (Some mac) \<Longrightarrow> length mac = ETH_ADDR_LEN"
proof (induction ts)
  case (Cons tn ts)
  obtain now r where t: "tn = (now, r)" by (cases tn)
  show ?case using Cons unfolding t
    by (cases r) (auto simp: arp_reply_mac_eq arp_matches_def ETH_ADDR_LEN_def split: if_splits)
qed simp

lemma arp_resolve_mac_length:
  assumes "arp_resolve env ts target_ip smac sip timeout_ms = Some (req, Some mac)"
  shows "length mac = ETH_ADDR_LEN"
  using assms arp_loop_mac_length
  by (auto simp: arp_resolve_def bind_eq_Some_conv split: if_splits)

text \<open>Without a subscriber.\<close>

lemma backend_manager_add_unsubscribed:
  assumes I: "bm_inv bm" and cb: "bm_cb bm = None" and c: "card (dom (bm_map bm)) < BACKEND_MAX"
    and n: "next_id bm \<noteq> UINT32_MAX"
  shows "\<exists>bm'. backend_manager_add bm addr port w = Some (bm', next_id bm, w) \<and> bm_inv bm' \<and>
    bm_map bm' = (bm_map bm)(next_id bm \<mapsto> new_backend (next_id bm) addr port) \<and>
    next_id bm' = next_id bm + 1 \<and> bm_cb bm' = None"
proof -
  obtain i where i: "find_free_slot bm = Some i"
    using find_free_slot_None_iff [OF I] c by auto
  let ?b = "new_backend (next_id bm) addr port"
  have b: "be_id ?b = next_id bm" "length (be_mac ?b) = ETH_ADDR_LEN" by (simp_all add: new_backend_def)
  have e: "zero_backend\<lparr>be_id := next_id bm, be_addr := addr, be_port := port, mac_resolved := False,
      healthy := True, admin_state := BACKEND_ENABLED\<rparr> = ?b"
    by (simp add: zero_backend_def new_backend_def)
  show ?thesis
    using bm_add_slot [OF I i n b] i n cb
    by (simp add: backend_manager_add_def notify_def e)
qed

lemma backend_manager_set_mac_unsubscribed:
  assumes I: "bm_inv bm" and cb: "bm_cb bm = None" and b: "bm_map bm bid = Some b"
    and m: "length mac = ETH_ADDR_LEN"
  shows "\<exists>bm'. backend_manager_set_mac bm bid mac w = Some (bm', w) \<and> bm_inv bm' \<and>
    bm_map bm' = (bm_map bm)(bid \<mapsto> b\<lparr>be_mac := mac, mac_resolved := True\<rparr>) \<and>
    next_id bm' = next_id bm \<and> bm_cb bm' = None"
proof -
  obtain j where j: "find_slot bm bid = Some j" "bm_backends bm ! j = b" "be_id b = bid"
    using bm_map_SomeD [OF I b] by blast
  let ?b = "b\<lparr>be_mac := mac, mac_resolved := True\<rparr>"
  have b': "be_id ?b = bid" "length (be_mac ?b) = ETH_ADDR_LEN" using j m by simp_all
  show ?thesis
    using bm_update_slot [OF I j(1) b'] j m cb
    by (simp add: backend_manager_set_mac_def notify_def)
qed

text \<open>The backend that the \<open>j\<close>-th entry of the configuration becomes.\<close>

definition arp_for :: "main_env \<Rightarrow> config \<Rightarrow> u8 list \<Rightarrow> nat \<Rightarrow> config_backend \<Rightarrow> (buffer option \<times> u8 list option) option" where
  "arp_for env cfg iface_mac j b =
     arp_resolve (fst (me_arp env j)) (snd (me_arp env j)) (cb_addr b) iface_mac (cf_director_ip cfg) ARP_TIMEOUT_MS"

definition configured :: "main_env \<Rightarrow> config \<Rightarrow> u8 list \<Rightarrow> u32 \<Rightarrow> backend option" where
  "configured env cfg iface_mac bid =
     (if unat bid < cf_n_backends cfg then
        let b = cf_backends cfg ! unat bid in
        case arp_for env cfg iface_mac (unat bid) b of
          Some (_, Some mac) \<Rightarrow>
            Some ((new_backend bid (cb_addr b) (cb_port b))\<lparr>be_mac := mac, mac_resolved := True\<rparr>)
        | _ \<Rightarrow> None
      else None)"

lemma add_backends_ok:
  assumes "bm_inv bm" "bm_cb bm = None" "cf_n_backends cfg \<le> BACKEND_MAX" "cf_n_backends cfg \<le> length (cf_backends cfg)"
    "i \<le> cf_n_backends cfg" "next_id bm = of_nat i"
    "\<forall>j < cf_n_backends cfg. arp_for env cfg mac j (cf_backends cfg ! j) \<noteq> None"
    "bm_map bm = (\<lambda>bid. if unat bid < i then configured env cfg mac bid else None)"
    "\<forall>j < i. configured env cfg mac (of_nat j) \<noteq> None"
  shows "\<exists>bm' ok. add_backends env cfg mac i (drop i (take (cf_n_backends cfg) (cf_backends cfg))) bm w = Some (bm', w, ok) \<and>
    bm_inv bm' \<and> bm_cb bm' = None \<and>
    (ok \<longleftrightarrow> (\<forall>j < cf_n_backends cfg. configured env cfg mac (of_nat j) \<noteq> None)) \<and>
    (ok \<longrightarrow> bm_map bm' = configured env cfg mac)"
  using assms
proof (induction "cf_n_backends cfg - i" arbitrary: i bm)
  case 0
  have "configured env cfg mac = (\<lambda>bid. if unat bid < i then configured env cfg mac bid else None)"
    using 0 by (auto simp: configured_def fun_eq_iff)
  then show ?case using 0 by auto
next
  case (Suc d)
  let ?n = "cf_n_backends cfg" and ?bs = "cf_backends cfg"
  have i: "i < ?n" using Suc(2) by simp
  define b where "b = ?bs ! i"
  have l: "drop i (take ?n ?bs) = b # drop (i + 1) (take ?n ?bs)"
    using i Suc.prems(4) Cons_nth_drop_Suc [of i "take ?n ?bs"] by (simp add: b_def)
  have small: "i < 2 ^ 32" "unat (of_nat i :: u32) = i"
    using i Suc.prems(3) by (simp_all add: BACKEND_MAX_def unat_of_nat)
  have nid: "next_id bm \<noteq> UINT32_MAX"
  proof
    assume "next_id bm = UINT32_MAX"
    then have "unat (of_nat i :: u32) = unat (UINT32_MAX :: u32)" using Suc.prems(6) by simp
    moreover have "unat (UINT32_MAX :: u32) = 2 ^ 32 - 1" by (simp add: unsigned_minus_1_eq_mask mask_eq_exp_minus_1)
    ultimately show False using i Suc.prems(3) small by (simp add: BACKEND_MAX_def)
  qed
  have "dom (bm_map bm) \<subseteq> of_nat ` {..<i}"
  proof
    fix x :: u32
    assume "x \<in> dom (bm_map bm)"
    then have "unat x < i" using Suc.prems(8) by (auto split: if_splits)
    then show "x \<in> of_nat ` {..<i}" by (intro image_eqI [of _ _ "unat x"]) simp_all
  qed
  then have "card (dom (bm_map bm)) \<le> i"
    using surj_card_le [of "{..<i}" "dom (bm_map bm)" of_nat] by simp
  then have card: "card (dom (bm_map bm)) < BACKEND_MAX" using i Suc.prems(3) by simp
  let ?nb = "new_backend (of_nat i) (cb_addr b) (cb_port b)"
  obtain bm1 where a: "backend_manager_add bm (cb_addr b) (cb_port b) w = Some (bm1, of_nat i, w)" "bm_inv bm1"
      "bm_map bm1 = (bm_map bm)(of_nat i \<mapsto> ?nb)" "next_id bm1 = of_nat i + 1" "bm_cb bm1 = None"
    using backend_manager_add_unsubscribed [OF Suc.prems(1,2) card nid] Suc.prems(6) by metis
  obtain req r where arp: "arp_for env cfg mac i b = Some (req, r)"
    using Suc.prems(7) i unfolding b_def by (metis not_None_eq surj_pair)
  have ne: "of_nat i \<noteq> (UINT32_MAX :: u32)" using nid Suc.prems(6) by simp
  show ?case
  proof (cases r)
    case None
    then have "configured env cfg mac (of_nat i) = None"
      using arp small i by (simp add: configured_def b_def)
    then show ?thesis
      using None a arp i ne unfolding l by (auto simp: arp_for_def)
  next
    case (Some m)
    let ?b = "?nb\<lparr>be_mac := m, mac_resolved := True\<rparr>"
    have lm: "length m = ETH_ADDR_LEN"
      using arp_resolve_mac_length arp Some unfolding arp_for_def by blast
    have cfgd: "configured env cfg mac (of_nat i) = Some ?b"
      using arp Some small i by (simp add: configured_def b_def Let_def)
    have at_i: "bm_map bm1 (of_nat i) = Some ?nb" using a(3) by simp
    obtain bm2 where s: "backend_manager_set_mac bm1 (of_nat i) m w = Some (bm2, w)" "bm_inv bm2"
        "bm_map bm2 = (bm_map bm1)(of_nat i \<mapsto> ?b)" "next_id bm2 = next_id bm1" "bm_cb bm2 = None"
      using backend_manager_set_mac_unsubscribed [OF a(2,5) at_i lm] by blast
    have "bm_map bm2 = (\<lambda>bid. if unat bid < i + 1 then configured env cfg mac bid else None)"
    proof
      fix bid :: u32
      show "bm_map bm2 bid = (if unat bid < i + 1 then configured env cfg mac bid else None)"
      proof (cases "bid = of_nat i")
        case True
        then show ?thesis using s(3) cfgd small by simp
      next
        case False
        then have "unat bid \<noteq> i" by auto
        then show ?thesis using False s(3) a(3) Suc.prems(8) by auto
      qed
    qed
    moreover have "\<forall>j < i + 1. configured env cfg mac (of_nat j) \<noteq> None"
      using Suc.prems(9) cfgd by (auto simp: less_Suc_eq)
    moreover have "next_id bm2 = of_nat (i + 1)" using s(4) a(4) by simp
    ultimately have "\<exists>bm' ok. add_backends env cfg mac (i + 1) (drop (i + 1) (take ?n ?bs)) bm2 w = Some (bm', w, ok) \<and>
        bm_inv bm' \<and> bm_cb bm' = None \<and>
        (ok \<longleftrightarrow> (\<forall>j < ?n. configured env cfg mac (of_nat j) \<noteq> None)) \<and>
        (ok \<longrightarrow> bm_map bm' = configured env cfg mac)"
      using Suc(1) [of "i + 1" bm2] Suc(2) s(2,5) Suc.prems(3,4,7) i by simp
    then show ?thesis
      using Some a arp s(1) ne unfolding l by (simp add: arp_for_def)
  qed
qed

section \<open>The invariant of the process\<close>

text \<open>The generator's part: besides its ownership invariant, the active snapshot can be used.\<close>

definition serving :: "tg_world \<Rightarrow> bool" where
  "serving w \<longleftrightarrow> tg_world_ok w \<and>
     (case active_snapshot (fst w) of None \<Rightarrow> True | Some snap \<Rightarrow> snapshot_ok snap)"

lemma rebuild_serving:
  assumes "bm_inv bm" "serving (tg, k, leaked)"
  shows "\<exists>tg' rc lost. table_generator_rebuild_and_install xxh env bm tg = Some (tg', rc, lost) \<and>
    serving (tg', k', leak lost leaked) \<and> ((\<forall>a. te_alloc env a) \<longrightarrow> rc = 0) \<and>
    (rc = 0 \<longrightarrow> tg_world_current bm (tg', k', leak lost leaked) \<and> active_snapshot tg' \<noteq> None)"
proof -
  have inv: "tg_conf_inv (quiescent tg leaked)" and p: "prime_nat (unat (tg_m tg))"
    using assms(2) by (simp_all add: serving_def tg_world_ok_def)
  from assms(1) p quiescent_retired_le [OF inv] show ?thesis
  proof (cases rule: rebuild_cases [of bm tg xxh env])
    case failed
    then show ?thesis using assms(2) by (simp add: serving_def tg_world_ok_def leak_def)
  next
    case (installed tg' snap lost)
    have "tg_conf_inv (quiescent tg' (leak lost leaked))" by (rule rebuild_inv [OF inv installed(1)])
    moreover have "active_snapshot tg' = Some snap" using installed by (simp add: active_snapshot_def)
    moreover have "snapshot_ok snap" using installed(5) by (simp add: snapshot_for_def)
    ultimately show ?thesis
      using installed(1,5,7) p by (simp add: serving_def tg_world_ok_def tg_world_current_def)
  qed
qed

lemma on_backend_change_serving:
  assumes "bm_inv s" "serving w"
  shows "\<exists>w'. on_backend_change xxh envs s w = Some w' \<and> serving w' \<and>
    ((\<forall>k a. te_alloc (envs k) a) \<longrightarrow> tg_world_current s w')"
proof -
  obtain tg k leaked where W: "w = (tg, k, leaked)" by (cases w)
  obtain tg' rc lost where "table_generator_rebuild_and_install xxh (envs k) s tg = Some (tg', rc, lost)"
      "serving (tg', k + 1, leak lost leaked)" "(\<forall>a. te_alloc (envs k) a) \<longrightarrow> rc = 0"
      "rc = 0 \<longrightarrow> tg_world_current s (tg', k + 1, leak lost leaked)"
    using rebuild_serving [OF assms(1), of tg k leaked xxh "envs k" "k + 1"] assms(2) W by blast
  then show ?thesis using W by (auto simp: on_backend_change_def leak_def)
qed

interpretation tg_serving: subscriber "on_backend_change xxh envs" serving for xxh envs
  by unfold_locales (use on_backend_change_serving in blast)

text \<open>The registry, the generator and the health checker, as far as they exist.\<close>

definition hc_fields_ok :: "'w health_checker \<Rightarrow> bool" where
  "hc_fields_ok hc \<longleftrightarrow> states_inv (hc_states hc) \<and> length (admin_buf hc) = HC_ADMIN_LINE_MAX \<and>
     admin_buf_len hc < HC_ADMIN_LINE_MAX"

definition lb_core :: "xxh64 \<Rightarrow> (nat \<Rightarrow> tg_env) \<Rightarrow> lb \<Rightarrow> bool" where
  "lb_core xxh envs lb \<longleftrightarrow>
     (case lb_tg lb of
        None \<Rightarrow> lb_hc lb = None
      | Some w \<Rightarrow> serving w \<and>
          (\<exists>bm. lb_bm lb = Some bm \<and> bm_inv bm \<and> bm_cb bm = Some (on_backend_change xxh envs))) \<and>
     (case lb_hc lb of None \<Rightarrow> True | Some hc \<Rightarrow> hc_fields_ok hc \<and> lb_counters lb \<noteq> None) \<and>
     (case lb_counters lb of None \<Rightarrow> True | Some s \<Rightarrow> stats_inv s)"

text \<open>The datapath on the shared objects.\<close>

definition dp_on :: "lb \<Rightarrow> datapath option" where
  "dp_on lb =
     do {
       (tg, _, _) \<leftarrow> lb_tg lb;
       ct \<leftarrow> lb_ct lb;
       s \<leftarrow> lb_counters lb;
       dp \<leftarrow> lb_dp lb;
       Some (dp\<lparr>dp_tg := tg, dp_ct := ct, dp_stats := s\<rparr>)
     }"

definition lb_inv :: "xxh64 \<Rightarrow> (nat \<Rightarrow> tg_env) \<Rightarrow> lb \<Rightarrow> bool" where
  "lb_inv xxh envs lb \<longleftrightarrow> lb_core xxh envs lb \<and>
     (\<exists>tg k leaked dp. lb_tg lb = Some (tg, k, leaked) \<and> dp_on lb = Some dp \<and> dp_inv xxh leaked dp)"

text \<open>The active table was built for the present registry.\<close>

definition lb_current :: "lb \<Rightarrow> bool" where
  "lb_current lb \<longleftrightarrow>
     (case (lb_bm lb, lb_tg lb) of (Some bm, Some w) \<Rightarrow> tg_world_current bm w | _ \<Rightarrow> False)"

section \<open>The start\<close>

lemma start_registry_ok:
  assumes "config_bounds cfg"
    "\<forall>j < cf_n_backends cfg. arp_for env cfg mac j (cf_backends cfg ! j) \<noteq> None"
  shows "\<exists>lb ok. start_registry env cfg mac lb_null = Some (lb, ok) \<and>
    lb_tg lb = None \<and> lb_hc lb = None \<and> lb_mh lb = None \<and> lb_counters lb = None \<and>
    (ok \<longleftrightarrow> me_bm_alloc env \<and> (\<forall>j < cf_n_backends cfg. configured env cfg mac (of_nat j) \<noteq> None)) \<and>
    (ok \<longrightarrow> (\<exists>bm. lb_bm lb = Some bm \<and> bm_inv bm \<and> bm_map bm = configured env cfg mac))"
proof (cases "me_bm_alloc env")
  case False
  then show ?thesis by (auto simp: start_registry_def backend_manager_create_def lb_null_def)
next
  case True
  then obtain bm :: "tg_world backend_manager" where bm: "backend_manager_create True = Some bm"
    by (simp add: backend_manager_create_def)
  note c = bm_create_inv [OF bm]
  have n: "cf_n_backends cfg \<le> BACKEND_MAX" "cf_n_backends cfg \<le> length (cf_backends cfg)"
    using assms(1) by (simp_all add: config_bounds_def CONFIG_MAX_BACKENDS_def BACKEND_MAX_def)
  obtain bm' ok where "add_backends env cfg mac 0 (take (cf_n_backends cfg) (cf_backends cfg)) bm null_world =
        Some (bm', null_world, ok)" "bm_inv bm'"
      "ok \<longleftrightarrow> (\<forall>j < cf_n_backends cfg. configured env cfg mac (of_nat j) \<noteq> None)"
      "ok \<longrightarrow> bm_map bm' = configured env cfg mac"
    using add_backends_ok [OF c(1,4) n, of 0 env mac null_world] c(2,3) assms(2) by auto
  then show ?thesis using bm True by (simp add: start_registry_def lb_null_def)
qed

lemma start_table_ok:
  assumes bm: "lb_bm lb = Some bm" "bm_inv bm" and p: "maglev_is_prime (cf_table_size cfg)"
    and none: "lb_tg lb = None" "lb_hc lb = None" "lb_mh lb = None" "lb_counters lb = None"
  shows "\<exists>lb' ok. start_table xxh env cfg lb = Some (lb', ok) \<and> lb_core xxh (me_rebuilds env) lb' \<and>
    lb_hc lb' = None \<and> lb_mh lb' = None \<and> lb_counters lb' = None \<and>
    (me_tg_alloc env \<and> (\<forall>a. te_alloc (me_rebuilds env 0) a) \<longrightarrow> ok) \<and>
    (ok \<longrightarrow> lb_tg lb' \<noteq> None \<and> lb_current lb' \<and>
      (\<exists>bm'. lb_bm lb' = Some bm' \<and> bm_map bm' = bm_map bm))"
proof (cases "me_tg_alloc env")
  case False
  then show ?thesis using bm none by (auto simp: start_table_def table_generator_create_def lb_core_def)
next
  case True
  let ?tg = "\<lparr>tg_m = cf_table_size cfg, tg_active = None, tg_generation = 0, tg_last_regen_us = 0,
      tg_retired = [], tg_retired_cap = 0, tg_heap = Map.empty, tg_next_addr = 0\<rparr>"
  let ?bm = "table_generator_install_as_subscriber xxh (me_rebuilds env) bm"
  have bm': "bm_inv ?bm" "bm_map ?bm = bm_map bm" "bm_cb ?bm = Some (on_backend_change xxh (me_rebuilds env))"
    using bm(2) by (simp_all add: table_generator_install_as_subscriber_def backend_manager_subscribe_def
        bm_inv_def bm_used_def bm_map_def find_slot_def fun_eq_iff)
  have w: "serving (?tg, 0, [])"
    using p by (simp add: serving_def tg_world_ok_def quiescent_inv_iff active_list_def active_snapshot_def
        maglev_is_prime_iff)
  obtain tg' rc lost where r: "table_generator_rebuild_and_install xxh (me_rebuilds env 0) ?bm ?tg = Some (tg', rc, lost)"
      "serving (tg', 1, leak lost [])" "(\<forall>a. te_alloc (me_rebuilds env 0) a) \<longrightarrow> rc = 0"
      "rc = 0 \<longrightarrow> tg_world_current ?bm (tg', 1, leak lost []) \<and> active_snapshot tg' \<noteq> None"
    using rebuild_serving [OF bm'(1) w, of xxh "me_rebuilds env 0" 1] by blast
  have "start_table xxh env cfg lb = Some (lb\<lparr>lb_bm := Some ?bm, lb_tg := Some (tg', 1, leak lost [])\<rparr>, rc = 0)"
    using True bm(1) r(1) by (simp add: start_table_def table_generator_create_def)
  then show ?thesis using r(2-4) bm' none by (simp add: lb_core_def lb_current_def)
qed

lemma conntrack_create_any:
  assumes "unat max_flows < 2 ^ 50"
  obtains (failed) "conntrack_create alloc garbage max_flows = Some None" "\<not> (\<forall>s. alloc s)"
  | (created) ct where "conntrack_create alloc garbage max_flows = Some (Some ct)" "ct_inv xxh ct" "ct_flows ct = []"
      "length (slab ct) = unat max_flows"
proof (cases "alloc Alloc_ct \<and> alloc Alloc_buckets \<and> (max_flows = 0 \<or> alloc Alloc_slab)")
  case True
  then show thesis using created conntrack_create_eq [OF assms, of alloc garbage xxh] by blast
next
  case False
  then show thesis using failed conntrack_create_fails [OF assms] by blast
qed

lemma lb_core_cong:
  assumes "lb_bm lb' = lb_bm lb" "lb_tg lb' = lb_tg lb" "lb_hc lb' = lb_hc lb" "lb_counters lb' = lb_counters lb"
  shows "lb_core xxh envs lb' = lb_core xxh envs lb"
  using assms by (simp only: lb_core_def)

lemma start_flows_ok:
  assumes core: "lb_core xxh envs lb" and h: "lb_hc lb = None" "lb_mh lb = None" "lb_counters lb = None"
    and m: "unat (cf_max_flows cfg) < 2 ^ 50"
  shows "\<exists>lb' ok. start_flows env cfg lb = Some (lb', ok) \<and> lb_core xxh envs lb' \<and>
    lb_hc lb' = None \<and> lb_mh lb' = None \<and> lb_bm lb' = lb_bm lb \<and> lb_tg lb' = lb_tg lb \<and>
    ((\<forall>s. me_ct_alloc env s) \<and> me_stats_alloc env \<longrightarrow> ok) \<and>
    (ok \<longrightarrow> (\<exists>ct s. lb_ct lb' = Some ct \<and> ct_inv xxh ct \<and> ct_flows ct = [] \<and>
       length (slab ct) = unat (cf_max_flows cfg) \<and> lb_counters lb' = Some s \<and>
       stats_registry_init True (cf_n_backends cfg) = (s, 0)))"
  using m
proof (cases rule: conntrack_create_any [where alloc = "me_ct_alloc env" and garbage = "me_ct_garbage env" and xxh = xxh])
  case failed
  then show ?thesis using core h by (auto simp: start_flows_def)
next
  case (created ct)
  let ?n = "cf_n_backends cfg"
  show ?thesis
  proof (cases "0 < ?n \<and> \<not> me_stats_alloc env")
    case True
    then have "start_flows env cfg lb = Some (lb\<lparr>lb_ct := Some ct\<rparr>, False)"
      using created(1) by (simp add: start_flows_def stats_registry_init_def)
    moreover have "lb_core xxh envs (lb\<lparr>lb_ct := Some ct\<rparr>)" using core lb_core_cong [of "lb\<lparr>lb_ct := Some ct\<rparr>" lb] by simp
    ultimately show ?thesis using True h by auto
  next
    case False
    obtain s where s: "stats_registry_init True ?n = (s, 0)" by (cases ?n) (simp_all add: stats_registry_init_def)
    then have "stats_registry_init (me_stats_alloc env) ?n = (s, 0)"
      using False by (auto simp: stats_registry_init_def)
    then have "start_flows env cfg lb = Some (lb\<lparr>lb_ct := Some ct, lb_counters := Some s\<rparr>, True)"
      using created(1) by (simp add: start_flows_def)
    moreover have "stats_inv s" using stats_inv_init [of True ?n s] s by simp
    then have "lb_core xxh envs (lb\<lparr>lb_ct := Some ct, lb_counters := Some s\<rparr>)" using core h by (cases "lb_tg lb") (simp_all add: lb_core_def)
    ultimately show ?thesis using s h created by auto
  qed
qed

lemma start_health_ok:
  assumes core: "lb_core xxh envs lb" and h: "lb_tg lb = Some w" "lb_counters lb = Some s"
  shows "\<exists>hc. start_health env cfg lb = Some (lb\<lparr>lb_hc := hc\<rparr>) \<and> lb_core xxh envs (lb\<lparr>lb_hc := hc\<rparr>)"
proof -
  have "states_inv (replicate BACKEND_MAX zero_probe_state)"
    by (simp add: states_inv_def zero_probe_state_def)
  then have ok: "hc_fields_ok hc" if "health_checker_create a b c bm w cfg s = Some hc" for a b c bm w cfg s and hc :: "tg_world health_checker"
    using that by (auto simp: health_checker_create_def hc_fields_ok_def HC_ADMIN_LINE_MAX_def split: if_splits)
  have ok': "hc_fields_ok (fst (health_checker_start t hc))" if "hc_fields_ok hc" for t and hc :: "tg_world health_checker"
    using that by (simp add: health_checker_start_def hc_fields_ok_def)
  obtain bm where bm: "lb_bm lb = Some bm" using core h by (auto simp: lb_core_def)
  define c where "c = \<lparr>hc_interval_ms = cf_hc_interval_ms cfg, hc_timeout_ms = cf_hc_timeout_ms cfg,
     hc_rise = cf_hc_rise cfg, hc_fall = cf_hc_fall cfg,
     hc_admin_fifo = cstring (strncpy (replicate HEALTH_CHECKER_ADMIN_FIFO_LEN (CHR 0x00))
       (cstring (cf_admin_fifo cfg)) (HEALTH_CHECKER_ADMIN_FIFO_LEN - 1))\<rparr>"
  define r where "r = health_checker_create (me_hc_calloc env) (me_hc_eventfd env) (me_hc_open env) bm w c (Some s)"
  define hc where "hc = map_option (\<lambda>hc. fst (health_checker_start (me_hc_thread env) hc)) r"
  have "start_health env cfg lb = Some (lb\<lparr>lb_hc := hc\<rparr>)"
    using h bm by (simp add: start_health_def hc_def r_def c_def)
  moreover have "case hc of None \<Rightarrow> True | Some hc \<Rightarrow> hc_fields_ok hc"
    using ok [OF r_def [symmetric, THEN trans]] ok' by (cases r) (simp_all add: hc_def)
  then have "lb_core xxh envs (lb\<lparr>lb_hc := hc\<rparr>)"
    using core h bm by (cases hc) (simp_all add: lb_core_def)
  ultimately show ?thesis by blast
qed

lemma start_metrics_fields [simp]:
  "lb_bm (start_metrics env cfg lb) = lb_bm lb" "lb_tg (start_metrics env cfg lb) = lb_tg lb"
  "lb_ct (start_metrics env cfg lb) = lb_ct lb" "lb_counters (start_metrics env cfg lb) = lb_counters lb"
  "lb_hc (start_metrics env cfg lb) = lb_hc lb" "lb_dp (start_metrics env cfg lb) = lb_dp lb"
  "lb_ui (start_metrics env cfg lb) = lb_ui lb"
  by (simp_all add: start_metrics_def Let_def case_prod_unfold split: option.splits)

lemma start_datapath_ok:
  assumes core: "lb_core xxh envs lb" and tg: "lb_tg lb = Some w"
    and ct: "lb_ct lb = Some ct" "ct_inv xxh ct" "ct_flows ct = []"
    and st: "lb_counters lb = Some s" "stats_registry_init True n = (s, 0)" "n \<le> BACKEND_MAX"
    and tx: "length (me_tx_garbage env) = TX_BUF_LEN"
  shows "\<exists>dp. start_datapath env cfg lb = Some (lb\<lparr>lb_dp := dp\<rparr>, me_dp_calloc env) \<and>
    lb_core xxh envs (lb\<lparr>lb_dp := dp\<rparr>) \<and> (me_dp_calloc env \<longrightarrow> lb_inv xxh envs (lb\<lparr>lb_dp := dp\<rparr>))"
proof -
  obtain tg k leaked where w: "w = (tg, k, leaked)" by (cases w)
  have serv: "serving (tg, k, leaked)" using core tg w by (simp add: lb_core_def)
  have pin: "pinned ct b = {}" for b using ct(3) by (simp add: pinned_def ct_map_def)
  have s: "stats_inv s" "st_max_backends s \<le> 2 ^ 31" "gauges_exact ct s"
    using st(2,3) stats_inv_init [of True n s]
    by (auto simp: stats_registry_init_def gauges_exact_def pin pb_of_def zero_pb_def zero_stats_def BACKEND_MAX_def
        split: if_splits)
  have core': "lb_core xxh envs (lb\<lparr>lb_dp := dp\<rparr>)" for dp
    using core lb_core_cong [of "lb\<lparr>lb_dp := dp\<rparr>" lb] by simp
  define c where "c = \<lparr>dp_vip = cf_vip cfg, dp_director_ip = cf_director_ip cfg, dp_ttl = cf_ttl cfg,
     dp_reaper_interval_ms = REAPER_INTERVAL_MS,
     dp_tcp_timeout_ns = ucast (cf_ct_tcp_timeout_ms cfg) * 1000000,
     dp_udp_timeout_ns = ucast (cf_ct_udp_timeout_ms cfg) * 1000000\<rparr>"
  define dp where "dp = datapath_create (me_dp_calloc env) c tg ct s (me_tx_garbage env)"
  have "start_datapath env cfg lb = Some (lb\<lparr>lb_dp := dp\<rparr>, dp \<noteq> None)"
    using tg w ct(1) st(1) by (simp add: start_datapath_def dp_def c_def Let_def)
  moreover have "dp \<noteq> None \<longleftrightarrow> me_dp_calloc env" by (simp add: dp_def datapath_create_def)
  moreover have "lb_inv xxh envs (lb\<lparr>lb_dp := dp\<rparr>)" if "me_dp_calloc env"
    using that core' [of dp] serv s ct tx tg w st(1)
    by (simp add: dp_def datapath_create_def lb_inv_def dp_on_def dp_inv_def serving_def tg_world_ok_def)
  ultimately show ?thesis using core' [of dp] by auto
qed

text \<open>The start as a whole.\<close>

definition start_ok :: "main_env \<Rightarrow> config \<Rightarrow> u8 list \<Rightarrow> bool" where
  "start_ok env cfg mac \<longleftrightarrow>
     me_bm_alloc env \<and> (\<forall>j < cf_n_backends cfg. configured env cfg mac (of_nat j) \<noteq> None) \<and>
     me_tg_alloc env \<and> (\<forall>a. te_alloc (me_rebuilds env 0) a) \<and> (\<forall>s. me_ct_alloc env s) \<and> me_stats_alloc env \<and>
     me_dp_calloc env"

lemma start_lb_ok:
  assumes c: "config_bounds cfg" and p: "maglev_is_prime (cf_table_size cfg)"
    and m: "unat (cf_max_flows cfg) < 2 ^ 50"
    and arp: "\<forall>j < cf_n_backends cfg. arp_for env cfg mac j (cf_backends cfg ! j) \<noteq> None"
    and tx: "length (me_tx_garbage env) = TX_BUF_LEN"
  shows "\<exists>lb ok. start_lb xxh env cfg mac = Some (lb, ok) \<and> lb_core xxh (me_rebuilds env) lb \<and>
    (start_ok env cfg mac \<longrightarrow> ok) \<and>
    (ok \<longrightarrow> lb_inv xxh (me_rebuilds env) lb \<and> lb_current lb \<and>
       bm_map (the (lb_bm lb)) = configured env cfg mac \<and>
       (\<forall>j < cf_n_backends cfg. configured env cfg mac (of_nat j) \<noteq> None) \<and> ct_flows (the (lb_ct lb)) = [] \<and>
       length (slab (the (lb_ct lb))) = unat (cf_max_flows cfg) \<and>
       st_max_backends (the (lb_counters lb)) = cf_n_backends cfg)"
proof -
  let ?R = "me_rebuilds env"
  have n: "cf_n_backends cfg \<le> BACKEND_MAX"
    using c by (simp add: config_bounds_def CONFIG_MAX_BACKENDS_def BACKEND_MAX_def)
  obtain lb1 ok1 where r1: "start_registry env cfg mac lb_null = Some (lb1, ok1)"
      "lb_tg lb1 = None" "lb_hc lb1 = None" "lb_mh lb1 = None" "lb_counters lb1 = None"
      "ok1 \<longleftrightarrow> me_bm_alloc env \<and> (\<forall>j < cf_n_backends cfg. configured env cfg mac (of_nat j) \<noteq> None)"
      "ok1 \<longrightarrow> (\<exists>bm. lb_bm lb1 = Some bm \<and> bm_inv bm \<and> bm_map bm = configured env cfg mac)"
    using start_registry_ok [OF c arp] by (elim exE conjE) (rule that)
  show ?thesis
  proof (cases ok1)
    case False
    moreover have "\<not> start_ok env cfg mac" using False r1(6) unfolding start_ok_def by blast
    moreover have "lb_core xxh ?R lb1" using r1(2-5) by (simp add: lb_core_def)
    ultimately show ?thesis using r1(1)
      by (intro exI [of _ lb1] exI [of _ False]) (simp add: start_lb_def and_then_def)
  next
    case True
    note k1 = True
    obtain bm where bm: "lb_bm lb1 = Some bm" "bm_inv bm" "bm_map bm = configured env cfg mac"
      using r1(7) [THEN mp, OF True] by (elim exE conjE) (rule that)
    obtain lb2 ok2 where r2: "start_table xxh env cfg lb1 = Some (lb2, ok2)" "lb_core xxh ?R lb2"
        "lb_hc lb2 = None" "lb_mh lb2 = None" "lb_counters lb2 = None"
        "me_tg_alloc env \<and> (\<forall>a. te_alloc (?R 0) a) \<longrightarrow> ok2"
        "ok2 \<longrightarrow> lb_tg lb2 \<noteq> None \<and> lb_current lb2 \<and> (\<exists>bm'. lb_bm lb2 = Some bm' \<and> bm_map bm' = bm_map bm)"
      using start_table_ok [OF bm(1,2) p r1(2-5), of xxh env] by (elim exE conjE) (rule that)
    show ?thesis
    proof (cases ok2)
      case False
      then show ?thesis using r1(1) r2(1,2,6) k1
        by (intro exI [of _ lb2] exI [of _ False]) (auto simp: start_lb_def and_then_def start_ok_def)
    next
      case True
      obtain w bm2 where w: "lb_tg lb2 = Some w" "lb_current lb2" "lb_bm lb2 = Some bm2" "bm_map bm2 = configured env cfg mac"
        using r2(7) [THEN mp, OF True] bm(3) by (elim exE conjE) (auto simp only: not_None_eq)
      obtain lb3 ok3 where r3: "start_flows env cfg lb2 = Some (lb3, ok3)" "lb_core xxh ?R lb3"
          "lb_hc lb3 = None" "lb_mh lb3 = None" "lb_bm lb3 = lb_bm lb2" "lb_tg lb3 = lb_tg lb2"
          "(\<forall>s. me_ct_alloc env s) \<and> me_stats_alloc env \<longrightarrow> ok3"
          "ok3 \<longrightarrow> (\<exists>ct s. lb_ct lb3 = Some ct \<and> ct_inv xxh ct \<and> ct_flows ct = [] \<and>
             length (slab ct) = unat (cf_max_flows cfg) \<and> lb_counters lb3 = Some s \<and>
             stats_registry_init True (cf_n_backends cfg) = (s, 0))"
        using start_flows_ok [OF r2(2-5) m, of env] by (elim exE conjE) (rule that)
      show ?thesis
      proof (cases ok3)
        case False
        then show ?thesis using r1(1) r2(1) r3(1,2,7) k1 True
          by (intro exI [of _ lb3] exI [of _ False]) (auto simp: start_lb_def and_then_def start_ok_def)
      next
        case k3: True
        obtain ct s where f: "lb_ct lb3 = Some ct" "ct_inv xxh ct" "ct_flows ct = []"
            "length (slab ct) = unat (cf_max_flows cfg)" "lb_counters lb3 = Some s"
            "stats_registry_init True (cf_n_backends cfg) = (s, 0)"
          using r3(8) [THEN mp, OF k3] by (elim exE conjE) (rule that)
        have w3: "lb_tg lb3 = Some w" using r3(6) w(1) by simp
        obtain hc where h: "start_health env cfg lb3 = Some (lb3\<lparr>lb_hc := hc\<rparr>)" "lb_core xxh ?R (lb3\<lparr>lb_hc := hc\<rparr>)"
          using start_health_ok [OF r3(2) w3 f(5), of env cfg] by (elim exE conjE) (rule that)
        let ?lb4 = "start_metrics env cfg (lb3\<lparr>lb_hc := hc\<rparr>)"
        have core4: "lb_core xxh ?R ?lb4" using h(2) lb_core_cong [of ?lb4 "lb3\<lparr>lb_hc := hc\<rparr>"] by simp
        have f4: "lb_tg ?lb4 = Some w" "lb_ct ?lb4 = Some ct" "lb_counters ?lb4 = Some s" "lb_bm ?lb4 = Some bm2"
          using w3 f(1,5) w(3) r3(5) by simp_all
        obtain dp where d: "start_datapath env cfg ?lb4 = Some (?lb4\<lparr>lb_dp := dp\<rparr>, me_dp_calloc env)"
            "lb_core xxh ?R (?lb4\<lparr>lb_dp := dp\<rparr>)" "me_dp_calloc env \<longrightarrow> lb_inv xxh ?R (?lb4\<lparr>lb_dp := dp\<rparr>)"
          using start_datapath_ok [OF core4 f4(1,2) f(2,3) f4(3) f(6) n tx, of cfg] by (elim exE conjE) (rule that)
        have "start_lb xxh env cfg mac = Some (?lb4\<lparr>lb_dp := dp\<rparr>, me_dp_calloc env)"
          using r1(1) r2(1) r3(1) h(1) d(1) k1 True k3 by (simp add: start_lb_def and_then_def)
        moreover have "lb_current (?lb4\<lparr>lb_dp := dp\<rparr>)" using w f4 by (simp add: lb_current_def)
        moreover have "st_max_backends s = cf_n_backends cfg"
          using f(6) by (auto simp: stats_registry_init_def split: if_splits)
        moreover have "\<forall>j < cf_n_backends cfg. configured env cfg mac (of_nat j) \<noteq> None"
          using r1(6) [THEN iffD1, OF k1] by (elim conjE)
        ultimately show ?thesis using d(2,3) f4 f(3,4) w(4)
          by (intro exI [of _ "?lb4\<lparr>lb_dp := dp\<rparr>"] exI [of _ "me_dp_calloc env"]) (simp add: start_ok_def)
      qed
    qed
  qed
qed

end
