(* ===== verification/Lb_Process.thy ===== *)
theory Lb_Process
  imports Startup
begin

text \<open>
  The whole program, \<open>main\<close> of \<open>src/main.c\<close>: reading the command line, the start of theory Startup,
  the run of the datapath with the other threads in between, and the clean-up. A run is a sequence
  of events in the order in which they happen: a wait of the datapath's loop, an action of the
  health checker, a connection to the metrics exporter or a turn of the dashboard. All of them act
  on, or read, the same registry, generator, connection table and counters. An action between two
  events of one wait is written by cutting the wait there. That the datapath may also overlap with
  the single steps of a rebuild is shown in theory Table_Generator.

  The lemmas show that every event keeps the invariant \<open>lb_inv\<close>, that the active table keeps up with
  the registry, that the exporter and the dashboard only ever read well-formed objects, and that the
  clean-up frees every snapshot once.
\<close>

section \<open>The health checker on the shared state\<close>

text \<open>One action of the health checker's thread, if it runs.\<close>

definition lb_health :: "hc_action \<Rightarrow> lb \<Rightarrow> lb option" where
  "lb_health a lb =
     (case lb_hc lb of
        None \<Rightarrow> Some lb
      | Some hc \<Rightarrow>
        if \<not> hc_running hc then Some lb
        else do {
          bm \<leftarrow> lb_bm lb;
          w \<leftarrow> lb_tg lb;
          hc \<leftarrow> hc_act a (hc\<lparr>hc_bm := bm, hc_world := w, hc_stats := lb_counters lb\<rparr>);
          Some (lb\<lparr>lb_hc := Some hc, lb_bm := Some (hc_bm hc), lb_tg := Some (hc_world hc),
            lb_counters := hc_stats hc\<rparr>)
        })"

section \<open>The exporter and the dashboard on the shared state\<close>

text \<open>What both read: the objects at the moment of the event. That other actions may fall between the
  single readings of one scrape or of one drawing is covered in theories Metrics_Http and Tui, where
  every reading has a state of its own.\<close>

definition lb_world :: "lb \<Rightarrow> metrics_world option" where
  "lb_world lb =
     do {
       bm \<leftarrow> lb_bm lb;
       (tg, _, _) \<leftarrow> lb_tg lb;
       ct \<leftarrow> lb_ct lb;
       s \<leftarrow> lb_counters lb;
       Some \<lparr>mw_ct = ct, mw_tg = tg, mw_bm = bm_slots.truncate bm, mw_reading = (\<lambda>k i. s)\<rparr>
     }"

text \<open>The signal is the one \<open>run_with_tui\<close> sends to the datapath's thread after the dashboard.\<close>

datatype lb_output = Out_frame buffer | Out_response "string list" | Out_screen screen | Out_sigterm

text \<open>A connection to the exporter's thread, if it runs: the results of \<open>accept\<close> and of the allocation,
  and the bytes of the fresh buffer.\<close>

definition lb_scrape :: "bool \<Rightarrow> bool \<Rightarrow> (nat \<Rightarrow> char) \<Rightarrow> lb \<Rightarrow> lb_output list option" where
  "lb_scrape conn_ok malloc_ok garbage lb =
     (case lb_mh lb of
        None \<Rightarrow> Some []
      | Some mh \<Rightarrow>
        if \<not> mh_running mh then Some []
        else do {
          w \<leftarrow> lb_world lb;
          rs \<leftarrow> mh_serve (Some (conn_ok, malloc_ok, map garbage [0..<METRICS_BODY_CAP], w)) mh;
          Some (map Out_response rs)
        })"

text \<open>A turn of the main thread beside a datapath that runs on a thread of its own: in the dashboard
  a turn of its loop; after the dashboard, or without one, a signal to the datapath's thread if the
  running flag is set.\<close>

definition lb_turn :: "tui_poll \<Rightarrow> lb \<Rightarrow> (lb \<times> lb_output list) option" where
  "lb_turn p lb =
     (case lb_ui lb of
        None \<Rightarrow> Some (lb, [])
      | Some None \<Rightarrow>
        do {
          dp \<leftarrow> lb_dp lb;
          Some (lb\<lparr>lb_ui := None\<rparr>, if datapath_is_running dp then [Out_sigterm] else [])
        }
      | Some (Some t) \<Rightarrow>
        do {
          w \<leftarrow> lb_world lb;
          dp \<leftarrow> lb_dp lb;
          (s, running) \<leftarrow> tui_step t \<lparr>tw_tg = mw_tg w, tw_bm = mw_bm w, tw_reading = mw_reading w 0\<rparr> p (datapath_is_running dp);
          Some (if running then lb else lb\<lparr>lb_ui := Some None\<rparr>, [Out_screen s])
        })"

section \<open>The run\<close>

text \<open>The shared objects after the datapath acted on them.\<close>

definition store_dp :: "datapath \<Rightarrow> lb \<Rightarrow> lb" where
  "store_dp dp lb = lb\<lparr>lb_dp := Some dp, lb_tg := map_option (\<lambda>(_, k, leaked). (dp_tg dp, k, leaked)) (lb_tg lb),
     lb_ct := Some (dp_ct dp), lb_counters := Some (dp_stats dp)\<rparr>"

text \<open>What the threads beside the datapath do, on the objects and on the list of all outputs.\<close>

datatype bg_event = Bg_health hc_action | Bg_scrape bool bool "nat \<Rightarrow> char" | Bg_turn tui_poll

type_synonym lb_state = "lb \<times> lb_output list"

fun lb_bg :: "bg_event \<Rightarrow> lb_state \<Rightarrow> lb_state option" where
  "lb_bg (Bg_health a) (lb, out) = do { lb \<leftarrow> lb_health a lb; Some (lb, out) }"
| "lb_bg (Bg_scrape conn_ok malloc_ok garbage) (lb, out) =
     do { rs \<leftarrow> lb_scrape conn_ok malloc_ok garbage lb; Some (lb, out @ rs) }"
| "lb_bg (Bg_turn p) (lb, out) = do { (lb, os) \<leftarrow> lb_turn p lb; Some (lb, out @ os) }"

datatype lb_event = Ev_wait dp_wait | Ev_bg bg_event

fun lb_loop :: "xxh64 \<Rightarrow> lb_event list \<Rightarrow> lb_state \<Rightarrow> (lb_state \<times> int) option" where
  "lb_loop xxh [] st = None"
| "lb_loop xxh (Ev_bg b # evs) st = do { st \<leftarrow> lb_bg b st; lb_loop xxh evs st }"
| "lb_loop xxh (Ev_wait w # evs) (lb, out) =
     (case w of
        Dp_eintr \<Rightarrow> lb_loop xxh evs (lb, out)
      | Dp_error \<Rightarrow> do { dp \<leftarrow> dp_on lb; Some ((store_dp (dp\<lparr>dp_is_running := False\<rparr>) lb, out), - 1) }
      | Dp_events es \<Rightarrow>
        do {
          dp \<leftarrow> dp_on lb;
          (dp, txs, go) \<leftarrow> dp_events_loop xxh es dp;
          let out = out @ map Out_frame txs;
          if go then lb_loop xxh evs (store_dp dp lb, out)
          else Some ((store_dp (dp\<lparr>dp_is_running := False\<rparr>) lb, out), 0)
        })"

text \<open>The first list is what the other threads do before the datapath has opened its sockets.\<close>

definition lb_run ::
  "xxh64 \<Rightarrow> dp_setup \<Rightarrow> bg_event list \<Rightarrow> lb_event list \<Rightarrow> lb_state \<Rightarrow> (lb_state \<times> int) option" where
  "lb_run xxh setup early evs st =
     do {
       (lb, out) \<leftarrow> mfold lb_bg early st;
       dp \<leftarrow> dp_on lb;
       case datapath_open setup dp of
         (dp, False) \<Rightarrow> Some ((store_dp dp lb, out), - 1)
       | (dp, True) \<Rightarrow> lb_loop xxh evs (store_dp dp lb, out)
     }"

section \<open>The clean-up\<close>

text \<open>In the order of the code. The events are those of the other threads until the exporter has
  stopped. The actions are those that the health checker's thread still performs after the counters
  were released and before \<open>health_checker_stop\<close> has joined it.\<close>

definition stop_metrics :: "lb \<Rightarrow> lb option" where
  "stop_metrics lb =
     (case lb_mh lb of
        None \<Rightarrow> Some lb
      | Some mh \<Rightarrow> do { _ \<leftarrow> metrics_http_stop [] mh; Some (lb\<lparr>lb_mh := None\<rparr>) })"

definition stop_flows :: "lb \<Rightarrow> lb" where
  "stop_flows lb = lb\<lparr>lb_counters := map_option stats_registry_destroy (lb_counters lb), lb_ct := None\<rparr>"

definition stop_table :: "lb \<Rightarrow> lb option" where
  "stop_table lb =
     (case lb_tg lb of
        None \<Rightarrow> Some lb
      | Some (tg, k, leaked) \<Rightarrow>
        do { tg \<leftarrow> table_generator_destroy tg; Some (lb\<lparr>lb_tg := Some (tg, k, leaked)\<rparr>) })"

definition stop_health :: "hc_action list \<Rightarrow> lb \<Rightarrow> lb option" where
  "stop_health acts lb =
     do {
       lb \<leftarrow> mfold lb_health acts lb;
       Some (lb\<lparr>lb_hc := health_checker_stop (lb_hc lb)\<rparr>)
     }"

definition cleanup_lb :: "bg_event list \<Rightarrow> hc_action list \<Rightarrow> lb_state \<Rightarrow> lb_state option" where
  "cleanup_lb stopping acts st =
     do {
       let (lb, out) = st;
       let lb = lb\<lparr>lb_dp := None\<rparr>;
       (lb, out) \<leftarrow> mfold lb_bg stopping (lb, out);
       lb \<leftarrow> stop_metrics lb;
       let lb = stop_flows lb;
       lb \<leftarrow> stop_health acts lb;
       let lb = lb\<lparr>lb_hc := None\<rparr>;
       lb \<leftarrow> stop_table lb;
       Some (lb\<lparr>lb_bm := None\<rparr>, out)
     }"

section \<open>The program\<close>

text \<open>With the dashboard the datapath runs on a thread of its own, and a third thread joins it and
  makes the dashboard's descriptor readable. The turns of the main thread are events of the run.
  After the datapath's thread has ended there are those of \<open>re_late\<close>, and then the \<open>poll\<close> of
  \<open>re_last_poll\<close> returns and the main thread goes on to the check before its join; a dashboard that
  would be drawn again even then counts as one that never ends.\<close>

definition TUI_REFRESH_MS :: u32 where "TUI_REFRESH_MS = 1000"

record run_env =
  re_dp_thread :: bool
  re_eventfd :: bool
  re_joiner :: bool
  re_tui_alloc :: bool
  re_setup :: dp_setup
  re_early :: "bg_event list"
  re_events :: "lb_event list"
  re_late :: "bg_event list"
  re_last_poll :: tui_poll
  re_stopping :: "bg_event list"
  re_last_acts :: "hc_action list"

definition tui_config :: "run_env \<Rightarrow> u32 \<Rightarrow> tui" where
  "tui_config run vip = \<lparr>tui_vip = vip, tui_refresh_ms = TUI_REFRESH_MS, tui_stop_fd = re_eventfd run \<and> re_joiner run\<rparr>"

definition run_with_tui :: "xxh64 \<Rightarrow> run_env \<Rightarrow> u32 \<Rightarrow> lb \<Rightarrow> (lb_state \<times> int) option" where
  "run_with_tui xxh run vip lb =
     (if \<not> re_dp_thread run then Some ((lb, []), 1)
      else
        do {
          let lb = lb\<lparr>lb_ui := Some (tui_create (re_tui_alloc run) (tui_config run vip))\<rparr>;
          (st, rc) \<leftarrow> lb_run xxh (re_setup run) (re_early run) (re_events run) (lb, []);
          st \<leftarrow> mfold lb_bg (re_late run) st;
          st \<leftarrow> mfold lb_bg (replicate 2 (Bg_turn (re_last_poll run))) st;
          if lb_ui (fst st) = None then Some (st, rc) else None
        })"

definition main_run :: "xxh64 \<Rightarrow> run_env \<Rightarrow> config \<Rightarrow> lb \<Rightarrow> (lb_state \<times> int) option" where
  "main_run xxh run cfg lb =
     (if cf_tui_enabled cfg then run_with_tui xxh run (cf_vip cfg) lb
      else lb_run xxh (re_setup run) (re_early run) (re_events run) (lb, []))"

text \<open>The objects at the end, the outputs and the exit code.\<close>

definition main_lb :: "xxh64 \<Rightarrow> main_env \<Rightarrow> run_env \<Rightarrow> string list \<Rightarrow> (lb \<times> lb_output list \<times> int) option" where
  "main_lb xxh env run argv =
     (case config_parse_args argv of
        Inl Config_help \<Rightarrow> Some (lb_null, [], 0)
      | Inl (Config_error _) \<Rightarrow> Some (lb_null, [], 1)
      | Inr cfg \<Rightarrow>
        if \<not> maglev_is_prime (cf_table_size cfg) then Some (lb_null, [], 1)
        else if \<not> me_sigmask env then Some (lb_null, [], 1)
        else case me_mac env of
          None \<Rightarrow> Some (lb_null, [], 1)
        | Some iface_mac \<Rightarrow>
          do {
            (lb, ok) \<leftarrow> start_lb xxh env cfg iface_mac;
            (st, run_rc) \<leftarrow> if ok then main_run xxh run cfg lb else Some ((lb, []), 1);
            (lb, out) \<leftarrow> cleanup_lb (re_stopping run) (re_last_acts run) st;
            Some (lb, out, if run_rc = 0 then 0 else 1)
          })"

section \<open>A subscriber that keeps up with the registry\<close>

text \<open>The contract of a callback that besides keeping its state well formed leaves it up to date
  with the registry it was called for. Every action of the health checker then does so too: it
  changes the registry only through operations that notify.\<close>

locale tracking = subscriber cb ok for cb :: "bm_slots \<Rightarrow> 'w \<Rightarrow> 'w option" and ok :: "'w \<Rightarrow> bool" +
  fixes current :: "bm_slots \<Rightarrow> 'w \<Rightarrow> bool"
  assumes cb_tracks: "bm_inv s \<Longrightarrow> ok w \<Longrightarrow> cb s w = Some w' \<Longrightarrow> current s w'"
begin

lemma notify_tracks:
  assumes "bm_inv bm" "bm_cb bm = Some cb" "ok w" "notify bm w = Some w'"
  shows "current (bm_slots.truncate bm) w'"
  using cb_tracks [of "bm_slots.truncate bm" w w'] assms by (simp add: notify_def)

lemma set_health_tracks:
  assumes I: "bm_inv bm" and cb: "bm_cb bm = Some cb" and w: "ok w" and c: "current (bm_slots.truncate bm) w"
    and r: "backend_manager_set_health bm bid h w = Some (bm', x, w')"
  shows "current (bm_slots.truncate bm') w'"
proof (cases "find_slot bm bid")
  case None
  then show ?thesis using r c by (simp add: backend_manager_set_health_def)
next
  case (Some i)
  let ?b = "(bm_backends bm ! i)\<lparr>healthy := h\<rparr>"
  let ?bm = "bm\<lparr>bm_backends := (bm_backends bm)[i := ?b]\<rparr>"
  have "bm_inv ?bm"
    by (rule update_ok(2) [OF I cb w Some]) (use slot_backend [OF I Some] in simp_all)
  then have "notify ?bm w = Some w' \<Longrightarrow> current (bm_slots.truncate ?bm) w'"
    using notify_tracks [of ?bm w w'] cb w by simp
  then show ?thesis
    using r c Some by (auto simp: backend_manager_set_health_def Let_def bind_eq_Some_conv split: if_splits)
qed

lemma set_admin_tracks:
  assumes I: "bm_inv bm" and cb: "bm_cb bm = Some cb" and w: "ok w" and c: "current (bm_slots.truncate bm) w"
    and r: "backend_manager_set_admin_state bm bid a w = Some (bm', x, w')"
  shows "current (bm_slots.truncate bm') w'"
proof (cases "find_slot bm bid")
  case None
  then show ?thesis using r c by (simp add: backend_manager_set_admin_state_def)
next
  case (Some i)
  let ?b = "(bm_backends bm ! i)\<lparr>admin_state := a\<rparr>"
  let ?bm = "bm\<lparr>bm_backends := (bm_backends bm)[i := ?b]\<rparr>"
  have "bm_inv ?bm"
    by (rule update_ok(2) [OF I cb w Some]) (use slot_backend [OF I Some] in simp_all)
  then have "notify ?bm w = Some w' \<Longrightarrow> current (bm_slots.truncate ?bm) w'"
    using notify_tracks [of ?bm w w'] cb w by simp
  then show ?thesis
    using r c Some by (auto simp: backend_manager_set_admin_state_def Let_def bind_eq_Some_conv split: if_splits)
qed

end

section \<open>What an action of the health checker changes\<close>

lemma find_or_create_state_same:
  "find_or_create_state hc bid = (hc1, r) \<Longrightarrow> hc_bm hc1 = hc_bm hc \<and> hc_world hc1 = hc_world hc \<and> hc_stats hc1 = hc_stats hc"
  by (auto simp: find_or_create_state_def split: option.splits)

text \<open>Recording a result: an update of the private counters, a failure counted, and perhaps a
  change of health.\<close>

lemma record_result_shape:
  assumes "record_result bid r hc = Some hc'"
  obtains hc1 where "hc_bm hc1 = hc_bm hc" "hc_world hc1 = hc_world hc"
    "hc_stats hc1 = hc_stats hc \<or>
     \<not> r \<and> (\<exists>s s1. hc_stats hc = Some s \<and> stats_backend_health_check_failed s bid = Some s1 \<and> hc_stats hc1 = Some s1)"
    "hc' = hc1 \<or> (\<exists>h. set_health_of hc1 bid h = Some hc')"
proof -
  obtain hc0 oi where f: "find_or_create_state hc bid = (hc0, oi)" by (cases "find_or_create_state hc bid")
  note s = find_or_create_state_same [OF f]
  show thesis
  proof (cases oi)
    case None
    then show thesis using that [of hc0] s f assms by (simp add: record_result_def)
  next
    case (Some i)
    show thesis
    proof (cases r)
      case True
      then have "\<exists>ss. hc' = hc0\<lparr>hc_states := ss\<rparr> \<or> set_health_of (hc0\<lparr>hc_states := ss\<rparr>) bid True = Some hc'"
        using assms f Some by (fastforce simp: record_result_def Let_def split: if_splits)
      then obtain ss where "hc' = hc0\<lparr>hc_states := ss\<rparr> \<or> set_health_of (hc0\<lparr>hc_states := ss\<rparr>) bid True = Some hc'"
        by (elim exE)
      then show thesis using s by (intro that [of "hc0\<lparr>hc_states := ss\<rparr>"]) auto
    next
      case False
      then obtain hc2 where c: "count_failure hc0 bid = Some hc2"
        using assms f Some by (cases "count_failure hc0 bid") (simp_all add: record_result_def)
      have c2: "hc_bm hc2 = hc_bm hc" "hc_world hc2 = hc_world hc"
          "hc_stats hc2 = hc_stats hc \<or>
           (\<exists>s s1. hc_stats hc = Some s \<and> stats_backend_health_check_failed s bid = Some s1 \<and> hc_stats hc2 = Some s1)"
        using c s by (auto simp: count_failure_def split: option.splits)
      have "\<exists>ss. hc' = hc2\<lparr>hc_states := ss\<rparr> \<or> set_health_of (hc2\<lparr>hc_states := ss\<rparr>) bid False = Some hc'"
        using assms f Some False c by (fastforce simp: record_result_def Let_def split: if_splits)
      then obtain ss where "hc' = hc2\<lparr>hc_states := ss\<rparr> \<or> set_health_of (hc2\<lparr>hc_states := ss\<rparr>) bid False = Some hc'"
        by (elim exE)
      then show thesis using c2 False by (intro that [of "hc2\<lparr>hc_states := ss\<rparr>"]) auto
    qed
  qed
qed

lemma set_health_of_fields: "set_health_of hc bid h = Some hc' \<Longrightarrow> hc_stats hc' = hc_stats hc"
  by (auto simp: set_health_of_def bind_eq_Some_conv)

lemma set_admin_of_fields: "set_admin_of hc bid a = Some hc' \<Longrightarrow> hc_stats hc' = hc_stats hc"
  by (auto simp: set_admin_of_def bind_eq_Some_conv)

lemma handle_admin_line_shape:
  "handle_admin_line line hc = Some hc' \<Longrightarrow> hc' = hc \<or> (\<exists>bid a. set_admin_of hc bid a = Some hc')"
  by (auto simp: handle_admin_line_def split: option.splits if_splits)

lemma process_admin_char_shape:
  assumes "process_admin_char c hc = Some hc'"
  obtains hc1 hc2 where "hc_bm hc1 = hc_bm hc" "hc_world hc1 = hc_world hc" "hc_stats hc1 = hc_stats hc"
    "hc2 = hc1 \<or> (\<exists>bid a. set_admin_of hc1 bid a = Some hc2)"
    "hc_bm hc' = hc_bm hc2" "hc_world hc' = hc_world hc2" "hc_stats hc' = hc_stats hc2"
proof (cases "c = CHR 0x0A")
  case False
  then show thesis
    using assms that [of hc hc] by (auto simp: process_admin_char_def put_admin_char_def split: if_splits)
next
  case True
  let ?hc = "hc\<lparr>admin_buf := (admin_buf hc)[admin_buf_len hc := CHR 0x00]\<rparr>"
  let ?h = "if admin_buf_len hc > 0 then handle_admin_line (cstring (admin_buf ?hc)) ?hc else Some ?hc"
  have "put_admin_char (CHR 0x00) hc = Some ?hc"
    using assms True by (cases "put_admin_char (CHR 0x00) hc")
      (auto simp: process_admin_char_def put_admin_char_def split: if_splits)
  then have e: "process_admin_char c hc = map_option (\<lambda>hc. hc\<lparr>admin_buf_len := 0\<rparr>) ?h"
    using True by (simp add: process_admin_char_def bind_Some_map)
  obtain hc2 where h: "?h = Some hc2" "hc' = hc2\<lparr>admin_buf_len := 0\<rparr>"
    using assms unfolding e by (cases ?h) simp_all
  have "hc2 = ?hc \<or> (\<exists>bid a. set_admin_of ?hc bid a = Some hc2)"
    using h(1) handle_admin_line_shape [of "cstring (admin_buf ?hc)" ?hc hc2]
    by (cases "admin_buf_len hc > 0") simp_all
  with h(2) show thesis by (intro that [of ?hc hc2]) simp_all
qed

lemma process_admin_char_same_stats:
  assumes "process_admin_char c hc = Some hc'"
  shows "hc_stats hc' = hc_stats hc"
  by (rule process_admin_char_shape [OF assms]) (metis set_admin_of_fields)

lemma process_admin_fifo_same_stats:
  assumes "process_admin_fifo reads hc = Some hc'"
  shows "hc_stats hc' = hc_stats hc"
proof -
  have "mfold process_admin_char cs hc = Some hc' \<Longrightarrow> hc_stats hc' = hc_stats hc" for cs and hc hc' :: "'a health_checker"
  proof (induction cs arbitrary: hc)
    case (Cons c cs)
    then show ?case using process_admin_char_same_stats by (fastforce simp: bind_eq_Some_conv)
  qed simp
  then show ?thesis using assms by (simp add: process_admin_fifo_def flip: mfold_concat)
qed

text \<open>The gauges of active flows, which the datapath relies on, are left alone.\<close>

definition same_gauges :: "lb_stats \<Rightarrow> lb_stats \<Rightarrow> bool" where
  "same_gauges s s' \<longleftrightarrow> st_max_backends s' = st_max_backends s \<and>
     (\<forall>i. pb_active_flows (pb_of s' i) = pb_active_flows (pb_of s i))"

lemma same_gauges_refl [simp]: "same_gauges s s"
  by (simp add: same_gauges_def)

lemma health_failed_gauges:
  assumes "stats_backend_health_check_failed s bid = Some s'"
  shows "same_gauges s s'"
  using assms
  by (auto simp: stats_backend_health_check_failed_def update_backend_def same_gauges_def pb_of_def nth_list_update
      split: if_splits option.splits)

lemma hc_act_gauges:
  assumes "hc_act a hc = Some hc'" "hc_stats hc = Some s"
  shows "\<exists>s'. hc_stats hc' = Some s' \<and> same_gauges s s'"
proof (cases a)
  case (Act_result bid r)
  then have "record_result bid r hc = Some hc'" using assms(1) by simp
  then obtain hc1 where p: "hc_stats hc1 = hc_stats hc \<or>
       \<not> r \<and> (\<exists>s s1. hc_stats hc = Some s \<and> stats_backend_health_check_failed s bid = Some s1 \<and> hc_stats hc1 = Some s1)"
      "hc' = hc1 \<or> (\<exists>h. set_health_of hc1 bid h = Some hc')"
    by (rule record_result_shape)
  have "hc_stats hc' = hc_stats hc1" using p(2) set_health_of_fields by metis
  then show ?thesis using p(1) assms(2) health_failed_gauges by auto
next
  case (Act_admin reads)
  then have "hc_stats hc' = hc_stats hc" using process_admin_fifo_same_stats assms(1) by simp
  then show ?thesis using assms(2) by simp
qed

lemma gauges_exact_same: "gauges_exact ct s \<Longrightarrow> same_gauges s s' \<Longrightarrow> gauges_exact ct s'"
  by (simp add: gauges_exact_def same_gauges_def)

context tracking
begin

lemma set_health_of_tracks:
  assumes "bm_inv (hc_bm hc)" "bm_cb (hc_bm hc) = Some cb" "ok (hc_world hc)"
    "current (bm_slots.truncate (hc_bm hc)) (hc_world hc)" "set_health_of hc bid h = Some hc'"
  shows "current (bm_slots.truncate (hc_bm hc')) (hc_world hc')"
  using assms(5) set_health_tracks [OF assms(1-4)] by (auto simp: set_health_of_def bind_eq_Some_conv)

lemma set_admin_of_tracks:
  assumes "bm_inv (hc_bm hc)" "bm_cb (hc_bm hc) = Some cb" "ok (hc_world hc)"
    "current (bm_slots.truncate (hc_bm hc)) (hc_world hc)" "set_admin_of hc bid a = Some hc'"
  shows "current (bm_slots.truncate (hc_bm hc')) (hc_world hc')"
  using assms(5) set_admin_tracks [OF assms(1-4)] by (auto simp: set_admin_of_def bind_eq_Some_conv)

lemma process_admin_char_tracks:
  assumes K: "checker_ok cb ok hc" and T: "current (bm_slots.truncate (hc_bm hc)) (hc_world hc)"
    and r: "process_admin_char c hc = Some hc'"
  shows "current (bm_slots.truncate (hc_bm hc')) (hc_world hc')" "hc_stats hc' = hc_stats hc"
proof -
  obtain hc1 hc2 where p: "hc_bm hc1 = hc_bm hc" "hc_world hc1 = hc_world hc" "hc_stats hc1 = hc_stats hc"
      "hc2 = hc1 \<or> (\<exists>bid a. set_admin_of hc1 bid a = Some hc2)"
      "hc_bm hc' = hc_bm hc2" "hc_world hc' = hc_world hc2" "hc_stats hc' = hc_stats hc2"
    by (rule process_admin_char_shape [OF r])
  have ok1: "bm_inv (hc_bm hc1)" "bm_cb (hc_bm hc1) = Some cb" "ok (hc_world hc1)"
      "current (bm_slots.truncate (hc_bm hc1)) (hc_world hc1)"
    using K T by (simp_all add: p(1,2) checker_ok_def hc_inv_def)
  show "current (bm_slots.truncate (hc_bm hc')) (hc_world hc')"
    unfolding p(5,6) using p(4) set_admin_of_tracks [OF ok1] ok1(4) by blast
  show "hc_stats hc' = hc_stats hc" by (rule process_admin_char_same_stats [OF r])
qed

lemma process_admin_fifo_tracks:
  assumes "checker_ok cb ok hc" "current (bm_slots.truncate (hc_bm hc)) (hc_world hc)"
  shows "\<exists>hc'. process_admin_fifo reads hc = Some hc' \<and> checker_ok cb ok hc' \<and>
    current (bm_slots.truncate (hc_bm hc')) (hc_world hc') \<and> hc_stats hc' = hc_stats hc"
proof -
  let ?P = "\<lambda>h. checker_ok cb ok h \<and> current (bm_slots.truncate (hc_bm h)) (hc_world h) \<and> hc_stats h = hc_stats hc"
  have "\<exists>hc'. mfold process_admin_char (concat reads) hc = Some hc' \<and> ?P hc'"
  proof (rule mfold_inv)
    show "?P hc" using assms by simp
    fix c h
    assume h: "?P h"
    then obtain h' where h': "process_admin_char c h = Some h'" "checker_ok cb ok h'"
      using process_admin_char_ok [of h c] by blast
    then show "\<exists>h'. process_admin_char c h = Some h' \<and> ?P h'"
      using process_admin_char_tracks [OF _ _ h'(1)] h by simp
  qed
  then show ?thesis by (simp add: process_admin_fifo_def mfold_concat)
qed

lemma record_result_tracks:
  assumes K: "checker_ok cb ok hc" and T: "current (bm_slots.truncate (hc_bm hc)) (hc_world hc)"
    and s: "hc_stats hc = Some s"
  shows "\<exists>hc' s'. record_result bid r hc = Some hc' \<and> checker_ok cb ok hc' \<and>
    current (bm_slots.truncate (hc_bm hc')) (hc_world hc') \<and> hc_stats hc' = Some s' \<and> same_gauges s s'"
proof -
  obtain hc' where r: "record_result bid r hc = Some hc'" "checker_ok cb ok hc'"
    using hc_act_ok [OF K, of "Act_result bid r"] by auto
  obtain hc1 where p: "hc_bm hc1 = hc_bm hc" "hc_world hc1 = hc_world hc"
      "hc_stats hc1 = hc_stats hc \<or>
       \<not> r \<and> (\<exists>s s1. hc_stats hc = Some s \<and> stats_backend_health_check_failed s bid = Some s1 \<and> hc_stats hc1 = Some s1)"
      "hc' = hc1 \<or> (\<exists>h. set_health_of hc1 bid h = Some hc')"
    by (rule record_result_shape [OF r(1)])
  have ok1: "bm_inv (hc_bm hc1)" "bm_cb (hc_bm hc1) = Some cb" "ok (hc_world hc1)"
      "current (bm_slots.truncate (hc_bm hc1)) (hc_world hc1)"
    using K T by (simp_all add: p(1,2) checker_ok_def hc_inv_def)
  have t: "current (bm_slots.truncate (hc_bm hc')) (hc_world hc')"
    using p(4) set_health_of_tracks [OF ok1] ok1(4) by blast
  obtain s1 where "hc_stats hc' = Some s1" "same_gauges s s1"
    using hc_act_gauges [of "Act_result bid r" hc hc' s] r(1) s by auto
  then show ?thesis using r t by simp
qed

lemma hc_act_tracks:
  assumes "checker_ok cb ok hc" "current (bm_slots.truncate (hc_bm hc)) (hc_world hc)" "hc_stats hc = Some s"
  shows "\<exists>hc' s'. hc_act a hc = Some hc' \<and> checker_ok cb ok hc' \<and>
    current (bm_slots.truncate (hc_bm hc')) (hc_world hc') \<and> hc_stats hc' = Some s' \<and> same_gauges s s'"
proof (cases a)
  case (Act_result bid r)
  then show ?thesis using record_result_tracks [OF assms, of bid r] by simp
next
  case (Act_admin reads)
  then show ?thesis using process_admin_fifo_tracks [OF assms(1,2), of reads] assms(3) by auto
qed

end

lemma tg_world_current_truncate [simp]:
  "tg_world_current (bm_slots.truncate bm) w = tg_world_current bm w"
proof -
  have "bm_map (bm_slots.truncate bm) = bm_map bm"
    by (simp add: bm_map_def find_slot_def bm_slots.defs fun_eq_iff)
  moreover have "snapshot_for (bm_slots.truncate bm) = snapshot_for bm"
    by (simp add: snapshot_for_def backend_manager_snapshot_routable_def
        backend_manager_snapshot_eligible_def fun_eq_iff)
  ultimately show ?thesis by (simp only: tg_world_current_def)
qed

text \<open>The generator keeps up as long as its allocations succeed.\<close>

interpretation tg_tracking:
  tracking "on_backend_change xxh envs" serving "\<lambda>s w. (\<forall>k a. te_alloc (envs k) a) \<longrightarrow> tg_world_current s w"
  for xxh envs
proof (unfold_locales, rule impI)
  fix s w w'
  assume a: "bm_inv s" "serving w" "on_backend_change xxh envs s w = Some w'" "\<forall>k a. te_alloc (envs k) a"
  show "tg_world_current s w'"
    using on_backend_change_serving [OF a(1,2), of xxh envs] a(3,4) by simp
qed

section \<open>The health checker keeps the invariant\<close>

lemma lb_health_ok:
  assumes I: "lb_inv xxh envs lb" and C: "(\<forall>k a. te_alloc (envs k) a) \<longrightarrow> lb_current lb"
  shows "\<exists>lb'. lb_health a lb = Some lb' \<and> lb_inv xxh envs lb' \<and>
    ((\<forall>k a. te_alloc (envs k) a) \<longrightarrow> lb_current lb') \<and> lb_mh lb' = lb_mh lb"
proof (cases "\<exists>hc. lb_hc lb = Some hc \<and> hc_running hc")
  case False
  then have "lb_health a lb = Some lb" by (auto simp: lb_health_def split: option.splits)
  then show ?thesis using I C by simp
next
  case True
  then obtain hc where hc: "lb_hc lb = Some hc" "hc_running hc" by blast
  obtain tg k leaked dp where w: "lb_tg lb = Some (tg, k, leaked)" "dp_on lb = Some dp" "dp_inv xxh leaked dp"
    and core: "lb_core xxh envs lb"
    using I unfolding lb_inv_def by blast
  obtain bm where bm: "lb_bm lb = Some bm" "bm_inv bm" "bm_cb bm = Some (on_backend_change xxh envs)"
    and serv: "serving (tg, k, leaked)" and hf: "hc_fields_ok hc"
    using core w(1) hc(1) by (auto simp: lb_core_def)
  obtain s where s: "lb_counters lb = Some s" "stats_inv s" using core hc(1) by (auto simp: lb_core_def)
  obtain ct dp0 where d: "lb_ct lb = Some ct" "lb_dp lb = Some dp0" "dp = dp0\<lparr>dp_tg := tg, dp_ct := ct, dp_stats := s\<rparr>"
    using w(1,2) s(1) by (auto simp: dp_on_def bind_eq_Some_conv)
  let ?hc = "hc\<lparr>hc_bm := bm, hc_world := (tg, k, leaked), hc_stats := Some s\<rparr>"
  have K: "checker_ok (on_backend_change xxh envs) serving ?hc"
    using bm serv hf s(2) by (simp add: checker_ok_def hc_inv_def hc_fields_ok_def)
  have T: "(\<forall>k a. te_alloc (envs k) a) \<longrightarrow> tg_world_current (bm_slots.truncate (hc_bm ?hc)) (hc_world ?hc)"
    using C bm(1) w(1) by (simp add: lb_current_def)
  obtain hc' s' where r: "hc_act a ?hc = Some hc'" "checker_ok (on_backend_change xxh envs) serving hc'"
      "(\<forall>k a. te_alloc (envs k) a) \<longrightarrow> tg_world_current (bm_slots.truncate (hc_bm hc')) (hc_world hc')"
      "hc_stats hc' = Some s'" "same_gauges s s'"
    using tg_tracking.hc_act_tracks [OF K T, of s a] by auto
  obtain tg' k' leaked' where w': "hc_world hc' = (tg', k', leaked')" by (cases "hc_world hc'")
  let ?lb = "lb\<lparr>lb_hc := Some hc', lb_bm := Some (hc_bm hc'), lb_tg := Some (hc_world hc'), lb_counters := hc_stats hc'\<rparr>"
  have e: "lb_health a lb = Some ?lb" using hc bm(1) w(1) s(1) r(1) by (simp add: lb_health_def)
  have ok': "bm_inv (hc_bm hc')" "bm_cb (hc_bm hc') = Some (on_backend_change xxh envs)" "serving (tg', k', leaked')"
      "hc_fields_ok hc'" "stats_inv s'"
    using r(2,4) w' by (simp_all add: checker_ok_def hc_inv_def hc_fields_ok_def)
  have core': "lb_core xxh envs ?lb" using ok' r(4) w' by (simp add: lb_core_def)
  have g: "st_max_backends s' = st_max_backends s" using r(5) by (simp add: same_gauges_def)
  have "dp_inv xxh leaked' (dp0\<lparr>dp_tg := tg', dp_ct := ct, dp_stats := s'\<rparr>)"
    using w(3) d(3) ok'(3,5) r(5) g gauges_exact_same [of ct s s']
    by (simp add: dp_inv_def serving_def tg_world_ok_def)
  then have "lb_inv xxh envs ?lb"
    using core' d(1,2) w' r(4) by (simp add: lb_inv_def dp_on_def)
  moreover have "(\<forall>k a. te_alloc (envs k) a) \<longrightarrow> lb_current ?lb" using r(3) by (simp add: lb_current_def)
  ultimately show ?thesis using e by simp
qed

text \<open>The same for a program that did not get to its datapath.\<close>

lemma lb_health_core:
  assumes core: "lb_core xxh envs lb"
  shows "\<exists>lb'. lb_health a lb = Some lb' \<and> lb_core xxh envs lb' \<and>
    lb_ct lb' = lb_ct lb \<and> lb_mh lb' = lb_mh lb \<and> lb_dp lb' = lb_dp lb \<and> lb_ui lb' = lb_ui lb \<and>
    (lb_tg lb' = None \<longleftrightarrow> lb_tg lb = None) \<and> (lb_counters lb' = None \<longleftrightarrow> lb_counters lb = None)"
proof (cases "\<exists>hc. lb_hc lb = Some hc \<and> hc_running hc")
  case False
  then have "lb_health a lb = Some lb" by (auto simp: lb_health_def split: option.splits)
  then show ?thesis using core by simp
next
  case True
  then obtain hc where hc: "lb_hc lb = Some hc" "hc_running hc" by blast
  then obtain w where w: "lb_tg lb = Some w" using core by (cases "lb_tg lb") (auto simp: lb_core_def)
  obtain bm where bm: "lb_bm lb = Some bm" "bm_inv bm" "bm_cb bm = Some (on_backend_change xxh envs)"
    and serv: "serving w" and hf: "hc_fields_ok hc"
    using core w hc(1) by (auto simp: lb_core_def)
  obtain s where s: "lb_counters lb = Some s" "stats_inv s" using core hc(1) by (auto simp: lb_core_def)
  let ?hc = "hc\<lparr>hc_bm := bm, hc_world := w, hc_stats := Some s\<rparr>"
  have K: "checker_ok (on_backend_change xxh envs) serving ?hc"
    using bm serv hf s(2) by (simp add: checker_ok_def hc_inv_def hc_fields_ok_def)
  obtain hc' where r: "hc_act a ?hc = Some hc'" "checker_ok (on_backend_change xxh envs) serving hc'"
    using tg_serving.hc_act_ok [OF K, of a] by blast
  obtain s' where s': "hc_stats hc' = Some s'" using hc_act_gauges [OF r(1), of s] by auto
  have "lb_health a lb = Some (lb\<lparr>lb_hc := Some hc', lb_bm := Some (hc_bm hc'), lb_tg := Some (hc_world hc'),
      lb_counters := hc_stats hc'\<rparr>)"
    using hc bm(1) w s(1) r(1) by (simp add: lb_health_def)
  moreover have "lb_core xxh envs (lb\<lparr>lb_hc := Some hc', lb_bm := Some (hc_bm hc'), lb_tg := Some (hc_world hc'),
      lb_counters := hc_stats hc'\<rparr>)"
    using r(2) s' by (simp add: lb_core_def checker_ok_def hc_inv_def hc_fields_ok_def)
  ultimately show ?thesis using w s(1) s' by (cases "hc_world hc'") simp
qed

section \<open>The exporter and the dashboard read well-formed objects\<close>

text \<open>While the exporter or the dashboard is there, so is what they read.\<close>

definition watch_ok :: "lb \<Rightarrow> bool" where
  "watch_ok lb \<longleftrightarrow> (\<forall>mh. lb_mh lb = Some mh \<longrightarrow> time_ok (mh_start_time mh)) \<and>
     (lb_mh lb \<noteq> None \<or> lb_ui lb \<noteq> None \<longrightarrow> lb_tg lb \<noteq> None \<and> lb_ct lb \<noteq> None \<and> lb_counters lb \<noteq> None) \<and>
     (lb_ui lb \<noteq> None \<longrightarrow> lb_dp lb \<noteq> None)"

text \<open>The datapath's flag is clear.\<close>

definition idle :: "lb \<Rightarrow> bool" where
  "idle lb \<longleftrightarrow> (\<forall>dp. lb_dp lb = Some dp \<longrightarrow> \<not> datapath_is_running dp)"

lemma lb_world_ok:
  assumes "lb_core xxh envs lb" "lb_tg lb \<noteq> None" "lb_ct lb \<noteq> None" "lb_counters lb \<noteq> None"
  shows "\<exists>w. lb_world lb = Some w \<and> metrics_world_ok w"
proof -
  obtain tg k leaked ct s where o: "lb_tg lb = Some (tg, k, leaked)" "lb_ct lb = Some ct" "lb_counters lb = Some s"
    using assms(2-4) by (cases "lb_tg lb") auto
  obtain bm where "lb_bm lb = Some bm" "bm_inv bm" "stats_inv s" using assms(1) o by (auto simp: lb_core_def)
  then show ?thesis using o by (simp add: lb_world_def metrics_world_ok_def)
qed

lemma lb_scrape_ok:
  assumes "lb_core xxh envs lb" "watch_ok lb"
  shows "\<exists>rs. lb_scrape conn_ok malloc_ok garbage lb = Some rs"
proof (cases "lb_mh lb")
  case None
  then show ?thesis by (simp add: lb_scrape_def)
next
  case (Some mh)
  have o: "lb_tg lb \<noteq> None" "lb_ct lb \<noteq> None" "lb_counters lb \<noteq> None" and t: "time_ok (mh_start_time mh)"
    using assms(2) Some by (simp_all add: watch_ok_def)
  obtain w where w: "lb_world lb = Some w" "metrics_world_ok w" using lb_world_ok [OF assms(1) o] by blast
  have "\<exists>rs. mh_serve (Some (conn_ok, malloc_ok, map garbage [0..<METRICS_BODY_CAP], w)) mh = Some rs"
    by (rule mh_serve_total [of False]) (use w t in simp_all)
  then show ?thesis using w(1) Some by (auto simp: lb_scrape_def)
qed

lemma lb_turn_ok:
  assumes "lb_core xxh envs lb" "watch_ok lb"
  shows "\<exists>u os. lb_turn p lb = Some (lb\<lparr>lb_ui := u\<rparr>, os) \<and> (lb_ui lb = None \<longrightarrow> u = None) \<and>
    (idle lb \<longrightarrow> u = None \<or> u = Some None) \<and> (lb_ui lb = Some None \<longrightarrow> u = None)"
proof (cases "lb_ui lb")
  case None
  then show ?thesis by (intro exI [of _ None]) (cases lb, simp add: lb_turn_def)
next
  case (Some d)
  have o: "lb_tg lb \<noteq> None" "lb_ct lb \<noteq> None" "lb_counters lb \<noteq> None" "lb_dp lb \<noteq> None"
    using assms(2) Some by (simp_all add: watch_ok_def)
  obtain w where w: "lb_world lb = Some w" "metrics_world_ok w" using lb_world_ok [OF assms(1) o(1-3)] by blast
  obtain dp where dp: "lb_dp lb = Some dp" using o(4) by auto
  show ?thesis
  proof (cases d)
    case None
    then show ?thesis using Some dp by (intro exI [of _ None]) (simp add: lb_turn_def)
  next
    case (Some t)
    let ?w = "\<lparr>tw_tg = mw_tg w, tw_bm = mw_bm w, tw_reading = mw_reading w 0\<rparr>"
    have "\<And>k. stats_inv (tw_reading ?w k)" using w(2) by (simp add: metrics_world_ok_def)
    then obtain s where s: "draw t ?w = Some s" using draw_ok [of ?w t] by blast
    let ?go = "if joined t p then False else if quit_key p then False else datapath_is_running dp"
    have "lb\<lparr>lb_ui := lb_ui lb\<rparr> = lb" by simp
    then have "lb_turn p lb = Some (lb\<lparr>lb_ui := if ?go then lb_ui lb else Some None\<rparr>, [Out_screen s])"
      using \<open>lb_ui lb = Some d\<close> Some w(1) dp s by (simp add: lb_turn_def tui_step_def)
    then show ?thesis using \<open>lb_ui lb = Some d\<close> Some dp by (auto simp: idle_def)
  qed
qed

lemma lb_ui_irrelevant [simp]:
  "lb_core xxh envs (lb\<lparr>lb_ui := u\<rparr>) = lb_core xxh envs lb" "lb_inv xxh envs (lb\<lparr>lb_ui := u\<rparr>) = lb_inv xxh envs lb"
  "lb_current (lb\<lparr>lb_ui := u\<rparr>) = lb_current lb" "idle (lb\<lparr>lb_ui := u\<rparr>) = idle lb"
  by (simp_all add: lb_core_def lb_inv_def dp_on_def lb_current_def idle_def cong: option.case_cong)

lemma watch_ok_turn: "watch_ok lb \<Longrightarrow> lb_ui lb = None \<longrightarrow> u = None \<Longrightarrow> watch_ok (lb\<lparr>lb_ui := u\<rparr>)"
  by (auto simp: watch_ok_def)

text \<open>What every event leaves as it is, and the invariant with what the other threads rely on.\<close>

definition steady :: "lb \<Rightarrow> lb \<Rightarrow> bool" where
  "steady lb lb' \<longleftrightarrow> lb_mh lb' = lb_mh lb \<and> (lb_ui lb = None \<longrightarrow> lb_ui lb' = None)"

definition lb_ok :: "xxh64 \<Rightarrow> (nat \<Rightarrow> tg_env) \<Rightarrow> lb \<Rightarrow> bool" where
  "lb_ok xxh envs lb \<longleftrightarrow> lb_inv xxh envs lb \<and> ((\<forall>k a. te_alloc (envs k) a) \<longrightarrow> lb_current lb) \<and> watch_ok lb"

lemma steady_refl [simp]: "steady lb lb"
  by (simp add: steady_def)

lemma steady_trans: "steady lb lb' \<Longrightarrow> steady lb' lb'' \<Longrightarrow> steady lb lb''"
  by (simp add: steady_def)

lemma lb_bg_core:
  assumes "lb_core xxh envs lb" "watch_ok lb"
  shows "\<exists>lb' out'. lb_bg b (lb, out) = Some (lb', out') \<and> lb_core xxh envs lb' \<and> watch_ok lb' \<and>
    lb_dp lb' = lb_dp lb \<and> steady lb lb'"
proof (cases b)
  case (Bg_health a)
  obtain lb' where h: "lb_health a lb = Some lb'" "lb_core xxh envs lb'" "lb_ct lb' = lb_ct lb" "lb_mh lb' = lb_mh lb"
      "lb_dp lb' = lb_dp lb" "lb_ui lb' = lb_ui lb" "lb_tg lb' = None \<longleftrightarrow> lb_tg lb = None"
      "lb_counters lb' = None \<longleftrightarrow> lb_counters lb = None"
    using lb_health_core [OF assms(1), of a] by (elim exE conjE) (rule that)
  have "watch_ok lb'" using assms(2) h(3-8) by (simp add: watch_ok_def)
  then show ?thesis using h Bg_health by (simp add: steady_def)
next
  case (Bg_scrape acc ok g)
  then show ?thesis using lb_scrape_ok [OF assms, of acc ok g] assms by auto
next
  case (Bg_turn p)
  obtain u os where t: "lb_turn p lb = Some (lb\<lparr>lb_ui := u\<rparr>, os)" "lb_ui lb = None \<longrightarrow> u = None"
    using lb_turn_ok [OF assms, of p] by (elim exE conjE) (rule that)
  then show ?thesis using Bg_turn assms watch_ok_turn [of lb u] by (simp add: steady_def)
qed

lemma lb_bg_inv:
  assumes ok: "lb_ok xxh envs lb"
  shows "\<exists>lb' out'. lb_bg b (lb, out) = Some (lb', out') \<and> lb_ok xxh envs lb' \<and> lb_dp lb' = lb_dp lb \<and> steady lb lb'"
proof -
  have I: "lb_inv xxh envs lb" and C: "(\<forall>k a. te_alloc (envs k) a) \<longrightarrow> lb_current lb" and W: "watch_ok lb"
    using ok by (simp_all add: lb_ok_def)
  have core: "lb_core xxh envs lb" using I by (simp add: lb_inv_def)
  obtain lb' out' where b: "lb_bg b (lb, out) = Some (lb', out')" "watch_ok lb'" "lb_dp lb' = lb_dp lb" "steady lb lb'"
    using lb_bg_core [OF core W, of b out] by blast
  have "lb_inv xxh envs lb' \<and> ((\<forall>k a. te_alloc (envs k) a) \<longrightarrow> lb_current lb')"
  proof (cases b)
    case (Bg_health a)
    then have "lb_health a lb = Some lb'" using b(1) by (auto simp: bind_eq_Some_conv)
    then show ?thesis using lb_health_ok [OF I C, of a] by simp
  next
    case (Bg_scrape acc ok g)
    then have "lb' = lb" using b(1) by (auto simp: bind_eq_Some_conv)
    then show ?thesis using I C by simp
  next
    case (Bg_turn p)
    obtain u os where "lb_turn p lb = Some (lb\<lparr>lb_ui := u\<rparr>, os)"
      using lb_turn_ok [OF core W, of p] by blast
    then have "lb' = lb\<lparr>lb_ui := u\<rparr>" using b(1) Bg_turn by simp
    then show ?thesis using I C by simp
  qed
  then show ?thesis using b by (simp add: lb_ok_def)
qed

text \<open>For a list of events.\<close>

lemma lb_bgs:
  assumes step: "\<And>b lb out. P lb \<Longrightarrow> \<exists>lb' out'. lb_bg b (lb, out) = Some (lb', out') \<and> P lb' \<and> lb_dp lb' = lb_dp lb \<and> steady lb lb'"
    and P: "P lb"
  shows "\<exists>lb' out'. mfold lb_bg bs (lb, out) = Some (lb', out') \<and> P lb' \<and> lb_dp lb' = lb_dp lb \<and> steady lb lb'"
  using P
proof (induction bs arbitrary: lb out)
  case (Cons b bs)
  obtain lb1 out1 where b: "lb_bg b (lb, out) = Some (lb1, out1)" "P lb1" "lb_dp lb1 = lb_dp lb" "steady lb lb1"
    using step [OF Cons.prems, of b out] by blast
  obtain lb2 out2 where "mfold lb_bg bs (lb1, out1) = Some (lb2, out2)" "P lb2" "lb_dp lb2 = lb_dp lb1" "steady lb1 lb2"
    using Cons.IH [OF b(2), of out1] by blast
  then show ?case using b(1,3) steady_trans [OF b(4)] by simp
qed simp

lemma lb_bgs_inv:
  assumes "lb_ok xxh envs lb"
  shows "\<exists>lb' out'. mfold lb_bg bs (lb, out) = Some (lb', out') \<and> lb_ok xxh envs lb' \<and> lb_dp lb' = lb_dp lb \<and> steady lb lb'"
  by (rule lb_bgs [OF lb_bg_inv assms])

lemma lb_bgs_core:
  assumes "lb_core xxh envs lb" "watch_ok lb"
  shows "\<exists>lb' out'. mfold lb_bg bs (lb, out) = Some (lb', out') \<and> (lb_core xxh envs lb' \<and> watch_ok lb') \<and>
    lb_dp lb' = lb_dp lb \<and> steady lb lb'"
  by (rule lb_bgs) (use lb_bg_core assms in auto)

section \<open>The datapath keeps the invariant\<close>

lemma handle_packet_inv:
  assumes "dp_inv xxh leaked dp"
  shows "\<exists>dp' tx. handle_packet xxh rx now send dp = Some (dp', tx) \<and> dp_inv xxh leaked dp' \<and> dp_same dp dp'"
  using handle_packet_accepted [OF assms, of rx now send] handle_packet_other [OF assms, of rx now send] by blast

lemma timer_tick_inv:
  assumes "dp_inv xxh leaked dp"
  shows "\<exists>dp'. timer_tick now dp = Some dp' \<and> dp_inv xxh leaked dp' \<and>
    active_snapshot (dp_tg dp') = active_snapshot (dp_tg dp) \<and> tg_m (dp_tg dp') = tg_m (dp_tg dp)"
proof -
  obtain dp' where d: "timer_tick now dp = Some dp'" "dp_inv xxh leaked dp'"
      "active_snapshot (dp_tg dp') = active_snapshot (dp_tg dp)"
    using timer_tick_ok [OF assms, of now] by blast
  have "table_generator_reclaim (dp_tg dp) = Some (dp_tg dp')"
    using d(1) by (auto simp: timer_tick_def bind_eq_Some_conv Let_def count_stat_def)
  moreover have "tg_conf_inv (quiescent (dp_tg dp) leaked)" using assms by (simp add: dp_inv_def)
  ultimately have "tg_m (dp_tg dp') = tg_m (dp_tg dp)" using reclaim_ok by fastforce
  then show ?thesis using d by blast
qed

lemma dp_events_loop_inv:
  assumes "dp_inv xxh leaked dp"
  shows "\<exists>dp' txs. dp_events_loop xxh evs dp = Some (dp', txs, \<not> batch_stops evs) \<and> dp_inv xxh leaked dp' \<and>
    active_snapshot (dp_tg dp') = active_snapshot (dp_tg dp) \<and> tg_m (dp_tg dp') = tg_m (dp_tg dp)"
  using assms
proof (induction evs arbitrary: dp)
  case (Cons ev evs)
  show ?case
  proof (cases ev)
    case (Dp_signal full)
    then show ?thesis using Cons.prems by simp
  next
    case (Dp_timer now)
    obtain dp1 where d: "timer_tick now dp = Some dp1" "dp_inv xxh leaked dp1"
        "active_snapshot (dp_tg dp1) = active_snapshot (dp_tg dp)" "tg_m (dp_tg dp1) = tg_m (dp_tg dp)"
      using timer_tick_inv [OF Cons.prems] by blast
    show ?thesis using Cons.IH [OF d(2)] d Dp_timer by simp
  next
    case (Dp_packet rx now send)
    obtain dp1 tx where d: "handle_packet xxh rx now send dp = Some (dp1, tx)" "dp_inv xxh leaked dp1" "dp_same dp dp1"
      using handle_packet_inv [OF Cons.prems] by blast
    obtain dp2 txs where "dp_events_loop xxh evs dp1 = Some (dp2, txs, \<not> batch_stops evs)" "dp_inv xxh leaked dp2"
        "active_snapshot (dp_tg dp2) = active_snapshot (dp_tg dp1)" "tg_m (dp_tg dp2) = tg_m (dp_tg dp1)"
      using Cons.IH [OF d(2)] by blast
    then show ?thesis using d Dp_packet by (simp add: dp_same_def)
  qed
qed simp

lemma store_dp_ok:
  assumes ok: "lb_ok xxh envs lb" and w: "lb_tg lb = Some (tg, k, leaked)"
    and d: "dp_inv xxh leaked dp" "active_snapshot (dp_tg dp) = active_snapshot tg" "tg_m (dp_tg dp) = tg_m tg"
  shows "lb_ok xxh envs (store_dp dp lb) \<and> steady lb (store_dp dp lb)"
proof -
  have core: "lb_core xxh envs lb" using ok by (simp add: lb_ok_def lb_inv_def)
  have serv: "serving (dp_tg dp, k, leaked)"
    using core w d by (simp add: lb_core_def serving_def tg_world_ok_def dp_inv_def)
  have "lb_core xxh envs (store_dp dp lb)"
    using core w serv d(1) by (cases "lb_hc lb") (simp_all add: lb_core_def store_dp_def dp_inv_def)
  then have "lb_inv xxh envs (store_dp dp lb)"
    using w d(1) by (simp add: lb_inv_def dp_on_def store_dp_def)
  moreover have "lb_current (store_dp dp lb) = lb_current lb"
    using w d(2) by (simp add: lb_current_def store_dp_def tg_world_current_def split: option.splits)
  moreover have "watch_ok (store_dp dp lb)" using ok w by (simp add: lb_ok_def watch_ok_def store_dp_def)
  ultimately show ?thesis using ok by (simp add: lb_ok_def steady_def store_dp_def)
qed

text \<open>The events that end the loop.\<close>

fun event_stops :: "lb_event \<Rightarrow> bool" where
  "event_stops (Ev_wait w) \<longleftrightarrow> wait_stops w"
| "event_stops (Ev_bg b) \<longleftrightarrow> False"

lemma lb_inv_dpE:
  assumes "lb_inv xxh envs lb"
  obtains tg k leaked dp dp0 where "lb_tg lb = Some (tg, k, leaked)" "dp_on lb = Some dp" "dp_inv xxh leaked dp" "dp_tg dp = tg"
    "lb_dp lb = Some dp0" "dp_is_running dp = dp_is_running dp0"
  using assms by (auto simp: lb_inv_def dp_on_def bind_eq_Some_conv)

lemma dp_inv_running [simp]: "dp_inv xxh leaked (dp\<lparr>dp_is_running := r\<rparr>) = dp_inv xxh leaked dp"
  by (simp add: dp_inv_def)

lemma idle_store [simp]: "idle (store_dp dp lb) \<longleftrightarrow> \<not> dp_is_running dp"
  by (simp add: idle_def store_dp_def datapath_is_running_def)

lemma lb_loop_ok:
  assumes "lb_ok xxh envs lb" "list_ex event_stops evs"
  shows "\<exists>lb' out'. lb_loop xxh evs (lb, out) =
      Some ((lb', out'), if hd (filter event_stops evs) = Ev_wait Dp_error then - 1 else 0) \<and>
    lb_ok xxh envs lb' \<and> idle lb' \<and> steady lb lb'"
  using assms
proof (induction evs arbitrary: lb out)
  case (Cons ev evs)
  show ?case
  proof (cases ev)
    case (Ev_bg b)
    obtain lb1 out1 where b: "lb_bg b (lb, out) = Some (lb1, out1)" "lb_ok xxh envs lb1" "steady lb lb1"
      using lb_bg_inv [OF Cons.prems(1), of b out] by blast
    have "list_ex event_stops evs" using Cons.prems(2) Ev_bg by simp
    then show ?thesis using Cons.IH [OF b(2), of out1] b(1) Ev_bg steady_trans [OF b(3)] by auto
  next
    case (Ev_wait w)
    have I: "lb_inv xxh envs lb" using Cons.prems(1) by (simp add: lb_ok_def)
    obtain tg k leaked dp where v: "lb_tg lb = Some (tg, k, leaked)" "dp_on lb = Some dp" "dp_inv xxh leaked dp" "dp_tg dp = tg"
      using lb_inv_dpE [OF I] by metis
    show ?thesis
    proof (cases w)
      case Dp_eintr
      then show ?thesis using Cons Ev_wait by simp
    next
      case Dp_error
      have "lb_ok xxh envs (store_dp (dp\<lparr>dp_is_running := False\<rparr>) lb) \<and> steady lb (store_dp (dp\<lparr>dp_is_running := False\<rparr>) lb)"
        by (rule store_dp_ok [OF Cons.prems(1) v(1)]; use v in simp)
      then show ?thesis using v Dp_error Ev_wait by simp
    next
      case (Dp_events es)
      obtain dp1 txs where e: "dp_events_loop xxh es dp = Some (dp1, txs, \<not> batch_stops es)" "dp_inv xxh leaked dp1"
          "active_snapshot (dp_tg dp1) = active_snapshot tg" "tg_m (dp_tg dp1) = tg_m tg"
        using dp_events_loop_inv [OF v(3), of es] v(4) by blast
      show ?thesis
      proof (cases "batch_stops es")
        case True
        have "lb_ok xxh envs (store_dp (dp1\<lparr>dp_is_running := False\<rparr>) lb) \<and> steady lb (store_dp (dp1\<lparr>dp_is_running := False\<rparr>) lb)"
          by (rule store_dp_ok [OF Cons.prems(1) v(1)]; use e in simp)
        then show ?thesis using True e(1) v(2) Dp_events Ev_wait by simp
      next
        case False
        have s: "lb_ok xxh envs (store_dp dp1 lb) \<and> steady lb (store_dp dp1 lb)"
          by (rule store_dp_ok [OF Cons.prems(1) v(1)]; use e in simp)
        have le: "list_ex event_stops evs" using Cons.prems(2) False Dp_events Ev_wait by simp
        show ?thesis
          using Cons.IH [OF conjunct1 [OF s] le, of "out @ map Out_frame txs"] e(1) v(2) False Dp_events Ev_wait
            steady_trans [OF conjunct2 [OF s]] by auto
      qed
    qed
  qed
qed simp

lemma lb_run_ok:
  assumes ok: "lb_ok xxh envs lb" and idle: "idle lb"
    and e: "list_ex event_stops evs" and mac: "\<And>mac. ds_mac setup = Some mac \<Longrightarrow> length mac = ETH_ADDR_LEN"
  shows "\<exists>lb' out'. lb_run xxh setup early evs (lb, out) =
      Some ((lb', out'), if setup_ok setup \<and> hd (filter event_stops evs) \<noteq> Ev_wait Dp_error then 0 else - 1) \<and>
    lb_ok xxh envs lb' \<and> idle lb' \<and> steady lb lb'"
proof -
  obtain lb1 out1 where b: "mfold lb_bg early (lb, out) = Some (lb1, out1)" "lb_ok xxh envs lb1" "lb_dp lb1 = lb_dp lb" "steady lb lb1"
    using lb_bgs_inv [OF ok, of early out] by blast
  have I: "lb_inv xxh envs lb1" using b(2) by (simp add: lb_ok_def)
  obtain tg k leaked dp dp0 where v: "lb_tg lb1 = Some (tg, k, leaked)" "dp_on lb1 = Some dp" "dp_inv xxh leaked dp" "dp_tg dp = tg"
      "lb_dp lb1 = Some dp0" "dp_is_running dp = dp_is_running dp0"
    using lb_inv_dpE [OF I] by metis
  have nr: "\<not> dp_is_running dp" using idle b(3) v(5,6) by (simp add: idle_def datapath_is_running_def)
  obtain dp1 opened where o: "datapath_open setup dp = (dp1, opened)" by (cases "datapath_open setup dp")
  have o1: "opened \<longleftrightarrow> setup_ok setup" "dp_inv xxh leaked dp1" "dp_tg dp1 = tg" "\<not> opened \<longrightarrow> \<not> dp_is_running dp1"
    using o v(3,4) mac nr
    by (auto simp: datapath_open_def setup_ok_def Let_def dp_inv_def split: option.splits if_splits)
  have s: "lb_ok xxh envs (store_dp dp1 lb1) \<and> steady lb1 (store_dp dp1 lb1)"
    by (rule store_dp_ok [OF b(2) v(1)]; use o1 in simp)
  have st: "steady lb (store_dp dp1 lb1)" using steady_trans [OF b(4)] s by blast
  show ?thesis
  proof (cases opened)
    case False
    then show ?thesis using b(1) v(2) o o1 s st by (simp add: lb_run_def)
  next
    case True
    obtain lb2 out2 where l: "lb_loop xxh evs (store_dp dp1 lb1, out1) =
          Some ((lb2, out2), if hd (filter event_stops evs) = Ev_wait Dp_error then - 1 else 0)"
        "lb_ok xxh envs lb2" "idle lb2" "steady (store_dp dp1 lb1) lb2"
      using lb_loop_ok [OF conjunct1 [OF s] e, of out1] by (elim exE conjE) (rule that)
    then show ?thesis using True b(1) v(2) o o1(1) steady_trans [OF st l(4)] by (simp add: lb_run_def)
  qed
qed

section \<open>The clean-up\<close>

lemma table_generator_destroy_ok:
  assumes "tg_conf_inv (quiescent tg leaked)"
  shows "\<exists>tg'. table_generator_destroy tg = Some tg' \<and> dom (tg_heap tg') = set leaked"
proof -
  note I = assms [unfolded quiescent_inv_iff]
  have d: "distinct (active_list tg @ tg_retired tg)" "(set (active_list tg) \<union> set (tg_retired tg)) \<inter> set leaked = {}"
    using I by auto
  have h: "dom (tg_heap tg) = set (active_list tg) \<union> set (tg_retired tg) \<union> set leaked"
    using I by (metis set_append Un_assoc)
  have "table_generator_destroy tg = routing_snapshot_free_all tg (active_list tg @ tg_retired tg)"
    by (cases "tg_active tg")
      (simp_all add: table_generator_destroy_def active_list_def routing_snapshot_free_def)
  also have "\<dots> = Some (tg\<lparr>tg_heap := (tg_heap tg) |` (- set (active_list tg @ tg_retired tg))\<rparr>)"
    by (rule free_all_ok [OF d(1)]) (use h in auto)
  finally show ?thesis using d(2) h by auto
qed

text \<open>After the counters are gone only actions that do not count a failed probe are harmless.\<close>

fun quiet :: "hc_action \<Rightarrow> bool" where
  "quiet (Act_result bid r) \<longleftrightarrow> r"
| "quiet (Act_admin reads) \<longleftrightarrow> True"

lemma set_health_of_stats:
  "set_health_of (hc\<lparr>hc_stats := x\<rparr>) bid h = map_option (\<lambda>hc. hc\<lparr>hc_stats := x\<rparr>) (set_health_of hc bid h)"
  by (cases "backend_manager_set_health (hc_bm hc) bid h (hc_world hc)") (auto simp: set_health_of_def)

lemma set_admin_of_stats:
  "set_admin_of (hc\<lparr>hc_stats := x\<rparr>) bid a = map_option (\<lambda>hc. hc\<lparr>hc_stats := x\<rparr>) (set_admin_of hc bid a)"
  by (cases "backend_manager_set_admin_state (hc_bm hc) bid a (hc_world hc)") (auto simp: set_admin_of_def)

lemma record_success_stats:
  "record_result bid True (hc\<lparr>hc_stats := x\<rparr>) = map_option (\<lambda>hc. hc\<lparr>hc_stats := x\<rparr>) (record_result bid True hc)"
proof -
  obtain hc0 oi where f: "find_or_create_state hc bid = (hc0, oi)" by (cases "find_or_create_state hc bid")
  have "find_or_create_state (hc\<lparr>hc_stats := x\<rparr>) bid = apfst (\<lambda>hc. hc\<lparr>hc_stats := x\<rparr>) (find_or_create_state hc bid)"
    by (cases "find (\<lambda>i. in_use (hc_states hc ! i) \<and> ps_backend_id (hc_states hc ! i) = bid) [0..<BACKEND_MAX]";
        cases "find (\<lambda>i. \<not> in_use (hc_states hc ! i)) [0..<BACKEND_MAX]")
      (simp_all add: find_or_create_state_def)
  then have f': "find_or_create_state (hc\<lparr>hc_stats := x\<rparr>) bid = (hc0\<lparr>hc_stats := x\<rparr>, oi)" using f by simp
  have upd: "hc0\<lparr>hc_stats := x, hc_states := ss\<rparr> = hc0\<lparr>hc_states := ss\<rparr>\<lparr>hc_stats := x\<rparr>" for ss by simp
  show ?thesis
    by (cases oi) (simp_all add: record_result_def f f' Let_def upd set_health_of_stats)
qed

lemma process_admin_char_stats:
  "process_admin_char c (hc\<lparr>hc_stats := x\<rparr>) = map_option (\<lambda>hc. hc\<lparr>hc_stats := x\<rparr>) (process_admin_char c hc)"
proof -
  have h: "handle_admin_line line (hc\<lparr>hc_stats := x\<rparr>) = map_option (\<lambda>hc. hc\<lparr>hc_stats := x\<rparr>) (handle_admin_line line hc)"
    for line and hc :: "'a health_checker"
    by (simp add: handle_admin_line_def set_admin_of_stats split: option.splits prod.splits)
  let ?hc = "hc\<lparr>admin_buf := (admin_buf hc)[admin_buf_len hc := CHR 0x00]\<rparr>"
  have "handle_admin_line line (hc\<lparr>hc_stats := x, admin_buf := b\<rparr>) =
      map_option (\<lambda>hc. hc\<lparr>hc_stats := x\<rparr>) (handle_admin_line line (hc\<lparr>admin_buf := b\<rparr>))" for line b
  proof -
    have "hc\<lparr>hc_stats := x, admin_buf := b\<rparr> = hc\<lparr>admin_buf := b\<rparr>\<lparr>hc_stats := x\<rparr>" by (cases hc) simp
    then show ?thesis by (simp only: h)
  qed
  note frame = this
  have swap: "(\<lambda>h :: 'a health_checker. h\<lparr>hc_stats := x, admin_buf_len := n\<rparr>) =
      (\<lambda>h. h\<lparr>admin_buf_len := n, hc_stats := x\<rparr>)" for n
  proof
    fix h :: "'a health_checker"
    show "h\<lparr>hc_stats := x, admin_buf_len := n\<rparr> = h\<lparr>admin_buf_len := n, hc_stats := x\<rparr>" by (cases h) simp
  qed
  show ?thesis
    by (simp add: process_admin_char_def put_admin_char_def bind_Some_map option.map_comp comp_def frame swap)
qed

lemma mfold_frame:
  assumes "\<And>x s. f x (g s) = map_option g (f x s)"
  shows "mfold f xs (g s) = map_option g (mfold f xs s)"
proof (induction xs arbitrary: s)
  case (Cons x xs)
  then show ?case by (cases "f x s") (simp_all add: assms)
qed simp

lemma hc_act_stats:
  assumes "quiet a"
  shows "hc_act a (hc\<lparr>hc_stats := x\<rparr>) = map_option (\<lambda>hc. hc\<lparr>hc_stats := x\<rparr>) (hc_act a hc)"
proof (cases a)
  case (Act_result bid r)
  then show ?thesis using assms by (simp add: record_success_stats)
next
  case (Act_admin reads)
  have "mfold process_admin_char (concat reads) (hc\<lparr>hc_stats := x\<rparr>) =
      map_option (\<lambda>hc. hc\<lparr>hc_stats := x\<rparr>) (mfold process_admin_char (concat reads) hc)"
    by (rule mfold_frame) (rule process_admin_char_stats)
  then show ?thesis using Act_admin by (simp add: process_admin_fifo_def mfold_concat)
qed

text \<open>The invariant without the counters.\<close>

definition lb_stopping :: "xxh64 \<Rightarrow> (nat \<Rightarrow> tg_env) \<Rightarrow> lb \<Rightarrow> bool" where
  "lb_stopping xxh envs lb \<longleftrightarrow> lb_core xxh envs (lb\<lparr>lb_counters := Some zero_stats\<rparr>)"

lemma zero_stats_inv [simp]: "stats_inv zero_stats"
  by (simp add: stats_inv_def zero_stats_def)

lemma lb_core_stopping: "lb_core xxh envs lb \<Longrightarrow> lb_stopping xxh envs lb"
  by (cases "lb_tg lb"; cases "lb_hc lb") (auto simp: lb_core_def lb_stopping_def)

lemma lb_stopping_cong:
  assumes "lb_bm lb' = lb_bm lb" "lb_tg lb' = lb_tg lb" "lb_hc lb' = lb_hc lb"
  shows "lb_stopping xxh envs lb' = lb_stopping xxh envs lb"
  unfolding lb_stopping_def by (rule lb_core_cong) (use assms in simp_all)

lemma lb_health_quiet:
  assumes J: "lb_stopping xxh envs lb" and q: "quiet a"
  shows "\<exists>lb'. lb_health a lb = Some lb' \<and> lb_stopping xxh envs lb'"
proof (cases "\<exists>hc. lb_hc lb = Some hc \<and> hc_running hc")
  case False
  then have "lb_health a lb = Some lb" by (auto simp: lb_health_def split: option.splits)
  then show ?thesis using J by simp
next
  case True
  then obtain hc where hc: "lb_hc lb = Some hc" "hc_running hc" by blast
  then obtain w where w: "lb_tg lb = Some w" using J by (cases "lb_tg lb") (auto simp: lb_stopping_def lb_core_def)
  obtain bm where bm: "lb_bm lb = Some bm" "bm_inv bm" "bm_cb bm = Some (on_backend_change xxh envs)"
    and serv: "serving w" and hf: "hc_fields_ok hc"
    using J w hc(1) by (auto simp: lb_stopping_def lb_core_def)
  let ?hc = "hc\<lparr>hc_bm := bm, hc_world := w, hc_stats := None\<rparr>"
  have K: "checker_ok (on_backend_change xxh envs) serving ?hc"
    using bm serv hf by (simp add: checker_ok_def hc_inv_def hc_fields_ok_def)
  obtain hc' where r: "hc_act a ?hc = Some hc'" "checker_ok (on_backend_change xxh envs) serving hc'"
    using tg_serving.hc_act_ok [OF K, of a] by blast
  have "hc_act a (?hc\<lparr>hc_stats := lb_counters lb\<rparr>) = Some (hc'\<lparr>hc_stats := lb_counters lb\<rparr>)"
    using hc_act_stats [OF q, of "lb_counters lb" ?hc] unfolding r(1) by simp
  then have e: "lb_health a lb = Some (lb\<lparr>lb_hc := Some (hc'\<lparr>hc_stats := lb_counters lb\<rparr>), lb_bm := Some (hc_bm hc'),
      lb_tg := Some (hc_world hc'), lb_counters := lb_counters lb\<rparr>)"
    using hc bm(1) w by (simp add: lb_health_def)
  have "lb_stopping xxh envs (lb\<lparr>lb_hc := Some (hc'\<lparr>hc_stats := lb_counters lb\<rparr>), lb_bm := Some (hc_bm hc'),
      lb_tg := Some (hc_world hc'), lb_counters := lb_counters lb\<rparr>)"
    using r(2) by (simp add: lb_stopping_def lb_core_def checker_ok_def hc_inv_def hc_fields_ok_def)
  then show ?thesis using e by blast
qed

text \<open>Every snapshot was freed but those that a failed allocation had leaked before.\<close>

definition snapshots_freed :: "lb \<Rightarrow> bool" where
  "snapshots_freed lb \<longleftrightarrow>
     (case lb_tg lb of None \<Rightarrow> True | Some (tg, k, leaked) \<Rightarrow> dom (tg_heap tg) = set leaked)"

lemma stop_metrics_ok: "\<exists>mh. stop_metrics lb = Some (lb\<lparr>lb_mh := mh\<rparr>)"
proof (cases "lb_mh lb")
  case None
  then show ?thesis by (intro exI [of _ None]) (cases lb, simp add: stop_metrics_def)
next
  case (Some mh)
  then show ?thesis by (auto simp: stop_metrics_def metrics_http_stop_def)
qed

lemma cleanup_ok:
  assumes core: "lb_core xxh envs lb" and m: "watch_ok lb" "lb_ui lb = None" and q: "list_all quiet acts"
  shows "\<exists>lb' out'. cleanup_lb stopping acts (lb, out) = Some (lb', out') \<and> snapshots_freed lb'"
proof -
  let ?lb = "lb\<lparr>lb_dp := None\<rparr>"
  have "lb_core xxh envs ?lb" using core lb_core_cong [of ?lb lb] by simp
  moreover have "watch_ok ?lb" using m by (simp add: watch_ok_def)
  ultimately obtain lb1 out1 where 0: "mfold lb_bg stopping (?lb, out) = Some (lb1, out1)" "lb_core xxh envs lb1"
    using lb_bgs_core [of xxh envs ?lb stopping out] by blast
  obtain mh where 1: "stop_metrics lb1 = Some (lb1\<lparr>lb_mh := mh\<rparr>)" using stop_metrics_ok [of lb1] by blast
  let ?lb1 = "stop_flows (lb1\<lparr>lb_mh := mh\<rparr>)"
  have st: "lb_stopping xxh envs ?lb1"
    using lb_core_stopping [OF 0(2)] lb_stopping_cong [of ?lb1 lb1] by (simp add: stop_flows_def)
  obtain lb2 where 2: "mfold lb_health acts ?lb1 = Some lb2" "lb_stopping xxh envs lb2"
    using mfold_inv [of "lb_stopping xxh envs" ?lb1 acts lb_health] st lb_health_quiet q
    unfolding list_all_iff by blast
  let ?lb2 = "lb2\<lparr>lb_hc := None\<rparr>"
  have "\<exists>lb3. stop_table ?lb2 = Some lb3 \<and> snapshots_freed lb3"
  proof (cases "lb_tg lb2")
    case None
    then show ?thesis by (simp add: stop_table_def snapshots_freed_def)
  next
    case (Some w)
    obtain tg k leaked where w: "w = (tg, k, leaked)" by (cases w)
    then have "tg_conf_inv (quiescent tg leaked)"
      using 2(2) Some by (simp add: lb_stopping_def lb_core_def serving_def tg_world_ok_def)
    then obtain tg' where "table_generator_destroy tg = Some tg'" "dom (tg_heap tg') = set leaked"
      using table_generator_destroy_ok by blast
    then show ?thesis using Some w by (simp add: stop_table_def snapshots_freed_def)
  qed
  then show ?thesis using 0(1) 1 2(1) by (auto simp: cleanup_lb_def stop_health_def snapshots_freed_def)
qed

text \<open>The start leaves the datapath idle and the dashboard closed, and the exporter with what it reads.\<close>

definition unwatched :: "lb \<Rightarrow> bool" where
  "unwatched lb \<longleftrightarrow> lb_mh lb = None \<and> lb_ui lb = None \<and> lb_dp lb = None"

lemma start_registry_unwatched: "start_registry env cfg mac lb = Some (lb', ok) \<Longrightarrow> unwatched lb \<Longrightarrow> unwatched lb'"
  by (auto simp: start_registry_def unwatched_def bind_eq_Some_conv split: option.splits)

lemma start_table_unwatched: "start_table xxh env cfg lb = Some (lb', ok) \<Longrightarrow> unwatched lb \<Longrightarrow> unwatched lb'"
  by (auto simp: start_table_def unwatched_def bind_eq_Some_conv Let_def split: option.splits)

lemma start_flows_unwatched: "start_flows env cfg lb = Some (lb', ok) \<Longrightarrow> unwatched lb \<Longrightarrow> unwatched lb'"
  by (cases "stats_registry_init (me_stats_alloc env) (cf_n_backends cfg)")
    (auto simp: start_flows_def unwatched_def bind_eq_Some_conv Let_def split: option.splits if_splits)

lemma start_health_unwatched: "start_health env cfg lb = Some lb' \<Longrightarrow> unwatched lb \<Longrightarrow> unwatched lb'"
  by (auto simp: start_health_def unwatched_def bind_eq_Some_conv Let_def)

lemma start_metrics_time:
  assumes "lb_mh lb = None" "time_ok (me_mh_now env)" "lb_mh (start_metrics env cfg lb) = Some mh"
  shows "time_ok (mh_start_time mh)"
  using assms
  by (auto simp: start_metrics_def metrics_http_create_def metrics_http_start_def Let_def split: if_splits)

definition start_watch :: "lb \<Rightarrow> bool" where
  "start_watch lb \<longleftrightarrow> watch_ok lb \<and> lb_ui lb = None \<and> idle lb"

lemma unwatched_start: "unwatched lb \<Longrightarrow> start_watch lb"
  by (simp add: unwatched_def start_watch_def watch_ok_def idle_def)

lemma start_last_watch:
  assumes "unwatched lb" "start_datapath env cfg (start_metrics env cfg lb) = Some (lb', ok)" "time_ok (me_mh_now env)"
  shows "start_watch lb'"
  using assms start_metrics_time [of lb env cfg]
  by (auto simp: start_datapath_def start_watch_def unwatched_def watch_ok_def idle_def datapath_create_def
      datapath_is_running_def Let_def bind_eq_Some_conv split: if_splits)

lemma start_lb_watch:
  assumes s: "start_lb xxh env cfg mac = Some (lb, ok)" and t: "time_ok (me_mh_now env)"
  shows "start_watch lb"
proof -
  have n: "unwatched lb_null" by (simp add: unwatched_def lb_null_def)
  obtain lb1 ok1 where 1: "start_registry env cfg mac lb_null = Some (lb1, ok1)"
    using s by (auto simp: start_lb_def and_then_def bind_eq_Some_conv)
  note m1 = start_registry_unwatched [OF 1 n]
  show ?thesis
  proof (cases ok1)
    case False
    then show ?thesis using s 1 unwatched_start [OF m1] by (simp add: start_lb_def and_then_def)
  next
    case k1: True
    then obtain lb2 ok2 where 2: "start_table xxh env cfg lb1 = Some (lb2, ok2)"
      using s 1 by (auto simp: start_lb_def and_then_def bind_eq_Some_conv)
    note m2 = start_table_unwatched [OF 2 m1]
    show ?thesis
    proof (cases ok2)
      case False
      then show ?thesis using s 1 2 k1 unwatched_start [OF m2] by (simp add: start_lb_def and_then_def)
    next
      case k2: True
      then obtain lb3 ok3 where 3: "start_flows env cfg lb2 = Some (lb3, ok3)"
        using s 1 2 k1 by (auto simp: start_lb_def and_then_def bind_eq_Some_conv)
      note m3 = start_flows_unwatched [OF 3 m2]
      show ?thesis
      proof (cases ok3)
        case False
        then show ?thesis using s 1 2 3 k1 k2 unwatched_start [OF m3] by (simp add: start_lb_def and_then_def)
      next
        case True
        then obtain lb4 where 4: "start_health env cfg lb3 = Some lb4"
            "start_datapath env cfg (start_metrics env cfg lb4) = Some (lb, ok)"
          using s 1 2 3 k1 k2 by (auto simp: start_lb_def and_then_def bind_eq_Some_conv)
        show ?thesis by (rule start_last_watch [OF start_health_unwatched [OF 4(1) m3] 4(2) t])
      qed
    qed
  qed
qed

text \<open>The order of the clean-up: the counters are released before the health checker is stopped. A
  failed probe that its thread records in between writes through the pointer that was just set to
  null.\<close>

lemma cleanup_health_race:
  assumes hc: "lb_hc lb = Some hc" "hc_running hc" "hc_fields_ok hc" "probe_map hc bid = None \<Longrightarrow> card (dom (probe_map hc)) \<noteq> BACKEND_MAX"
    and s: "lb_counters lb = Some s" "unat bid < st_max_backends s"
  shows "stop_health [Act_result bid False] (stop_flows lb) = None"
proof -
  let ?s = "stats_registry_destroy s"
  have "hc_act (Act_result bid False) (hc\<lparr>hc_bm := bm, hc_world := w, hc_stats := Some ?s\<rparr>) = None" for bm w
  proof -
    let ?hc = "hc\<lparr>hc_bm := bm, hc_world := w, hc_stats := Some ?s\<rparr>"
    have I: "states_inv (hc_states ?hc)" using hc(3) by (simp add: hc_fields_ok_def)
    have pm: "probe_map ?hc = probe_map hc" by (rule probe_map_cong) simp
    from I show ?thesis
    proof (cases rule: find_or_create_state_cases [of ?hc bid])
      case full
      then show ?thesis using hc(4) pm by simp
    next
      case (slot ss i)
      have "count_failure (?hc\<lparr>hc_states := ss\<rparr>) bid = None"
        using s(2) by (simp add: count_failure_def stats_backend_health_check_failed_def update_backend_def
            stats_registry_destroy_def)
      then show ?thesis using slot(1) by (simp add: record_result_def)
    qed
  qed
  then show ?thesis
    using hc(1,2) s(1)
    by (cases "lb_bm lb"; cases "lb_tg lb") (simp_all add: stop_health_def stop_flows_def lb_health_def)
qed

section \<open>The program\<close>

lemma last_turns_ok:
  assumes "lb_ok xxh envs lb" "idle lb"
  shows "\<exists>out'. mfold lb_bg (replicate 2 (Bg_turn p)) (lb, out) = Some (lb\<lparr>lb_ui := None\<rparr>, out')"
proof -
  have 1: "lb_core xxh envs lb" "watch_ok lb" using assms(1) by (simp_all add: lb_ok_def lb_inv_def)
  obtain u os where u: "lb_turn p lb = Some (lb\<lparr>lb_ui := u\<rparr>, os)" "u = None \<or> u = Some None" "lb_ui lb = None \<longrightarrow> u = None"
    using lb_turn_ok [OF 1, of p] assms(2) by (elim exE conjE) (rule that, assumption, elim mp)
  let ?lb = "lb\<lparr>lb_ui := u\<rparr>"
  have 2: "lb_core xxh envs ?lb" "watch_ok ?lb" using 1 watch_ok_turn [OF 1(2) u(3)] by simp_all
  obtain v os' where v: "lb_turn p ?lb = Some (?lb\<lparr>lb_ui := v\<rparr>, os')" "lb_ui ?lb = None \<longrightarrow> v = None"
      "lb_ui ?lb = Some None \<longrightarrow> v = None"
    using lb_turn_ok [OF 2, of p] by (elim exE conjE) (rule that)
  have "v = None" using u(2) v(2,3) by auto
  then show ?thesis using u(1) v(1) by (simp add: numeral_2_eq_2)
qed

lemma run_with_tui_ok:
  assumes ok: "lb_ok xxh envs lb" and idle: "idle lb" and t: "re_dp_thread run"
    and e: "list_ex event_stops (re_events run)"
    and mac: "\<And>mac. ds_mac (re_setup run) = Some mac \<Longrightarrow> length mac = ETH_ADDR_LEN"
  shows "\<exists>lb' out'. run_with_tui xxh run vip lb = Some ((lb', out'),
      if setup_ok (re_setup run) \<and> hd (filter event_stops (re_events run)) \<noteq> Ev_wait Dp_error then 0 else - 1) \<and>
    lb_ok xxh envs lb' \<and> lb_ui lb' = None"
proof -
  let ?lb = "lb\<lparr>lb_ui := Some (tui_create (re_tui_alloc run) (tui_config run vip))\<rparr>"
  have "lb_ok xxh envs ?lb"
    using ok lb_inv_dpE [of xxh envs lb]
    by (auto simp: lb_ok_def watch_ok_def lb_inv_def dp_on_def bind_eq_Some_conv)
  moreover have "idle ?lb" using idle by simp
  ultimately obtain lb1 out1 where 1: "lb_run xxh (re_setup run) (re_early run) (re_events run) (?lb, []) = Some ((lb1, out1),
      if setup_ok (re_setup run) \<and> hd (filter event_stops (re_events run)) \<noteq> Ev_wait Dp_error then 0 else - 1)"
      "lb_ok xxh envs lb1" "idle lb1"
    using lb_run_ok [of xxh envs ?lb "re_events run" "re_setup run" "re_early run" "[]"] e mac by blast
  obtain lb2 out2 where 2: "mfold lb_bg (re_late run) (lb1, out1) = Some (lb2, out2)" "lb_ok xxh envs lb2" "lb_dp lb2 = lb_dp lb1"
    using lb_bgs_inv [OF 1(2), of "re_late run" out1] by blast
  have "idle lb2" using 1(3) 2(3) by (simp add: idle_def)
  then obtain out3 where 3: "mfold lb_bg (replicate 2 (Bg_turn (re_last_poll run))) (lb2, out2) = Some (lb2\<lparr>lb_ui := None\<rparr>, out3)"
    using last_turns_ok [OF 2(2)] by blast
  have "lb_ok xxh envs (lb2\<lparr>lb_ui := None\<rparr>)" using 2(2) watch_ok_turn [of lb2 None] by (simp add: lb_ok_def)
  then show ?thesis using t 1(1) 2(1) 3 by (simp add: run_with_tui_def del: mfold.simps)
qed

lemma main_run_ok:
  assumes ok: "lb_ok xxh envs lb" and idle: "idle lb" and ui: "lb_ui lb = None"
    and e: "list_ex event_stops (re_events run)"
    and mac: "\<And>mac. ds_mac (re_setup run) = Some mac \<Longrightarrow> length mac = ETH_ADDR_LEN"
  shows "\<exists>lb' out' rc. main_run xxh run cfg lb = Some ((lb', out'), rc) \<and> lb_ok xxh envs lb' \<and> lb_ui lb' = None \<and>
    (rc = 0 \<longleftrightarrow> (cf_tui_enabled cfg \<longrightarrow> re_dp_thread run) \<and> setup_ok (re_setup run) \<and>
       hd (filter event_stops (re_events run)) \<noteq> Ev_wait Dp_error)"
proof (cases "cf_tui_enabled cfg")
  case False
  then show ?thesis
    using lb_run_ok [OF ok idle e, of "re_setup run" "re_early run" "[]"] mac ui by (auto simp: main_run_def steady_def)
next
  case True
  show ?thesis
  proof (cases "re_dp_thread run")
    case False
    then show ?thesis using True ok ui by (simp add: main_run_def run_with_tui_def)
  next
    case t: True
    then show ?thesis using True run_with_tui_ok [OF ok idle t e, of "cf_vip cfg"] mac by (auto simp: main_run_def)
  qed
qed

section \<open>Properties\<close>

text \<open>The start of the witnesses: one backend, whose host answers the ARP request at once.\<close>

definition demo_main_env :: main_env where
  "demo_main_env = \<lparr>me_sigmask = True, me_mac = Some [2, 0, 0, 0, 0, 9], me_bm_alloc = True,
     me_arp = (\<lambda>j. (\<lparr>as_socket = True, as_ifindex = True, as_bind = True, as_send = True, as_now_ms = 100,
         as_req = replicate ARP_FRAME_LEN 0\<rparr>,
       [(101, Arp_frame (arp_reply [2, 0, 0, 0, 0, 1] 0x0B00000A [2, 0, 0, 0, 0, 9] 0x0100000A))])),
     me_tg_alloc = True, me_rebuilds = (\<lambda>k. demo_env), me_ct_alloc = (\<lambda>s. True),
     me_ct_garbage = (\<lambda>i. hd (slab demo_ct)), me_stats_alloc = True, me_hc_calloc = True, me_hc_eventfd = True,
     me_hc_open = False, me_hc_thread = True, me_mh_calloc = True, me_mh_eventfd = True, me_mh_now = 1700000000,
     me_mh_setup = \<lparr>ms_socket = True, ms_bind = True, ms_listen = True, ms_thread = True\<rparr>,
     me_dp_calloc = True, me_tx_garbage = replicate TX_BUF_LEN 0\<rparr>"

definition demo_run_env :: run_env where
  "demo_run_env = \<lparr>re_dp_thread = True, re_eventfd = True, re_joiner = True, re_tui_alloc = True,
     re_setup = \<lparr>ds_raw_socket = True, ds_mac = Some [2, 0, 0, 0, 0, 9],
       ds_timerfd = True, ds_sigmask = True, ds_signalfd = True, ds_epoll_create = True, ds_epoll_add = (\<lambda>i. True)\<rparr>,
     re_early = [Bg_scrape True True (\<lambda>i. CHR ''?'')],
     re_events = [Ev_wait (Dp_events [Dp_packet demo_frame 120 (\<lambda>f. 78)]), Ev_bg (Bg_health (Act_result 0 False)),
       Ev_bg (Bg_scrape True True (\<lambda>i. CHR ''?'')), Ev_wait Dp_eintr,
       Ev_bg (Bg_health (Act_admin [''DRAIN 0'', [CHR 0x0A]])), Ev_wait (Dp_events [Dp_timer 130, Dp_signal True])],
     re_late = [], re_last_poll = Poll_none, re_stopping = [Bg_health (Act_result 0 False), Bg_scrape True False (\<lambda>i. CHR ''?'')],
     re_last_acts = [Act_result 0 True]\<rparr>"

lemma demo_main_cfg:
  "\<exists>c. config_parse_args demo_argv = Inr c \<and> cf_n_backends c = 1 \<and> cf_backends c ! 0 = \<lparr>cb_addr = 0x0B00000A, cb_port = 80\<rparr> \<and>
     cf_director_ip c = 0x0100000A \<and> cf_max_flows c = 1000000 \<and> cf_table_size c = 65537 \<and> \<not> cf_tui_enabled c"
proof -
  have v: "parse_ip ''10.0.0.100'' = Some 0x6400000A" "parse_ip ''10.0.0.1'' = Some 0x0100000A"
    "parse_backend_spec ''10.0.0.11:80'' = Some \<lparr>cb_addr = 0x0B00000A, cb_port = 80\<rparr>"
    by code_simp+
  have n: "strtol ''4294967296'' = (4294967296, [])" "strtol ''1000'' = (1000, [])"
    by (simp_all add: strtol_def split_number_def isspace_def isdigit_def dec_value_def digit_value_def
        LONG_MIN_def LONG_MAX_def)
  show ?thesis
    unfolding config_parse_args_def demo_argv_options
    by (simp add: config_option_def opt_codes v n backend_option_def num_option_def timeout_option_def
        CT_TIMEOUT_MAX_MS_def config_defaults_def CONFIG_MAX_BACKENDS_def)
qed

lemma demo_arp:
  assumes "cf_director_ip c = 0x0100000A" "b = \<lparr>cb_addr = 0x0B00000A, cb_port = 80\<rparr>"
  shows "\<exists>req. arp_for demo_main_env c [2, 0, 0, 0, 0, 9] j b = Some (req, Some [2, 0, 0, 0, 0, 1])"
proof -
  have m: "mem_of_u32 0x0B00000A = [10, 0, 0, 11]" "mem_of_u32 0x0100000A = [10, 0, 0, 1]" by code_simp+
  have f: "build_arp_frame (replicate ARP_FRAME_LEN 0) [2, 0, 0, 0, 0, 9] 0x0100000A 0x0B00000A =
      Some (arp_request [2, 0, 0, 0, 0, 9] 0x0100000A 0x0B00000A)"
    by (rule build_arp_frame_eq) (simp_all add: ETH_ADDR_LEN_def)
  show ?thesis
    by (simp add: assms arp_for_def demo_main_env_def arp_resolve_def f arp_loop_eq ARP_TIMEOUT_MS_def
        arp_matches_def arp_reply_def m)
qed

lemma demo_prime: "maglev_is_prime 65537"
  by code_simp

lemma demo_start_ok:
  assumes "cf_n_backends c = 1" "cf_backends c ! 0 = \<lparr>cb_addr = 0x0B00000A, cb_port = 80\<rparr>" "cf_director_ip c = 0x0100000A"
  shows "\<forall>j < cf_n_backends c. arp_for demo_main_env c [2, 0, 0, 0, 0, 9] j (cf_backends c ! j) \<noteq> None"
    and "configured demo_main_env c [2, 0, 0, 0, 0, 9] 0 =
      Some \<lparr>be_id = 0, be_addr = 0x0B00000A, be_port = 80, be_mac = [2, 0, 0, 0, 0, 1], mac_resolved = True,
        healthy = True, admin_state = BACKEND_ENABLED\<rparr>"
    and "start_ok demo_main_env c [2, 0, 0, 0, 0, 9]"
proof -
  obtain req where a: "arp_for demo_main_env c [2, 0, 0, 0, 0, 9] 0 (cf_backends c ! 0) = Some (req, Some [2, 0, 0, 0, 0, 1])"
    using demo_arp [OF assms(3,2)] by blast
  then show "\<forall>j < cf_n_backends c. arp_for demo_main_env c [2, 0, 0, 0, 0, 9] j (cf_backends c ! j) \<noteq> None"
    using assms(1) by simp
  show c: "configured demo_main_env c [2, 0, 0, 0, 0, 9] 0 =
      Some \<lparr>be_id = 0, be_addr = 0x0B00000A, be_port = 80, be_mac = [2, 0, 0, 0, 0, 1], mac_resolved = True,
        healthy = True, admin_state = BACKEND_ENABLED\<rparr>"
    using a assms(1,2) by (simp add: configured_def new_backend_def)
  then show "start_ok demo_main_env c [2, 0, 0, 0, 0, 9]"
    using assms(1) by (simp add: start_ok_def demo_main_env_def demo_env_def alloc_ok_def)
qed

text \<open>C17. Start-up. For every accepted command line with a prime table size and a flow capacity
  below \<open>2 ^ 50\<close> (theory Conntrack_Inv shows larger ones for which it hangs) the start returns, whatever
  the allocations and system calls do, provided the waits for ARP replies end; it succeeds
  when nothing it needs fails. When it succeeds, the registry holds exactly the configured
  backends, each with the id of its position, its address and port and the MAC that the first
  matching reply gave, all healthy and enabled; the installed table is one for this registry; the
  connection table is empty and has the configured capacity; there is a counter slot for every
  backend; and the process invariant holds.\<close>

theorem startup_establishes:
  assumes "config_parse_args argv = Inr cfg" "maglev_is_prime (cf_table_size cfg)" "unat (cf_max_flows cfg) < 2 ^ 50"
    "\<forall>j < cf_n_backends cfg. arp_for env cfg mac j (cf_backends cfg ! j) \<noteq> None"
    "length (me_tx_garbage env) = TX_BUF_LEN"
  shows "\<exists>lb ok. start_lb xxh env cfg mac = Some (lb, ok) \<and> (start_ok env cfg mac \<longrightarrow> ok) \<and>
    (ok \<longrightarrow> lb_inv xxh (me_rebuilds env) lb \<and>
      (\<exists>bm tg k leaked snap ct s.
         lb_bm lb = Some bm \<and> bm_map bm = configured env cfg mac \<and>
         lb_tg lb = Some (tg, k, leaked) \<and> active_snapshot tg = Some snap \<and> snapshot_for bm snap \<and>
         lb_ct lb = Some ct \<and> ct_flows ct = [] \<and> length (slab ct) = unat (cf_max_flows cfg) \<and>
         lb_counters lb = Some s \<and> st_max_backends s = cf_n_backends cfg))"
proof -
  have c: "config_bounds cfg" "0 < cf_n_backends cfg" using config_parse_bounds [OF assms(1)] by simp_all
  obtain lb ok where s: "start_lb xxh env cfg mac = Some (lb, ok)" "start_ok env cfg mac \<longrightarrow> ok"
      "ok \<longrightarrow> lb_inv xxh (me_rebuilds env) lb \<and> lb_current lb \<and>
         bm_map (the (lb_bm lb)) = configured env cfg mac \<and>
         (\<forall>j < cf_n_backends cfg. configured env cfg mac (of_nat j) \<noteq> None) \<and> ct_flows (the (lb_ct lb)) = [] \<and>
         length (slab (the (lb_ct lb))) = unat (cf_max_flows cfg) \<and>
         st_max_backends (the (lb_counters lb)) = cf_n_backends cfg"
    using start_lb_ok [OF c(1) assms(2-5), of xxh] by (elim exE conjE) (rule that)
  have "\<exists>bm tg k leaked snap ct s.
         lb_bm lb = Some bm \<and> bm_map bm = configured env cfg mac \<and>
         lb_tg lb = Some (tg, k, leaked) \<and> active_snapshot tg = Some snap \<and> snapshot_for bm snap \<and>
         lb_ct lb = Some ct \<and> ct_flows ct = [] \<and> length (slab ct) = unat (cf_max_flows cfg) \<and>
         lb_counters lb = Some s \<and> st_max_backends s = cf_n_backends cfg" if ok
  proof -
    have I: "lb_inv xxh (me_rebuilds env) lb" and cur: "lb_current lb"
      and m: "bm_map (the (lb_bm lb)) = configured env cfg mac" and zero: "configured env cfg mac 0 \<noteq> None"
      and rest: "ct_flows (the (lb_ct lb)) = []" "length (slab (the (lb_ct lb))) = unat (cf_max_flows cfg)"
        "st_max_backends (the (lb_counters lb)) = cf_n_backends cfg"
      using s(3) that c(2) by force+
    obtain bm tg k leaked where b: "lb_bm lb = Some bm" "lb_tg lb = Some (tg, k, leaked)" "tg_world_current bm (tg, k, leaked)"
      using cur by (auto simp: lb_current_def split: option.splits)
    obtain ct st where f: "lb_ct lb = Some ct" "lb_counters lb = Some st"
      using I by (auto simp: lb_inv_def dp_on_def bind_eq_Some_conv)
    obtain snap where "active_snapshot tg = Some snap" "snapshot_for bm snap"
    proof (cases "active_snapshot tg")
      case None
      then have "bm_map bm = Map.empty" using b(3) by (simp add: tg_world_current_def)
      then have "configured env cfg mac 0 = None" using m b(1) by (metis option.sel)
      then show thesis using zero by contradiction
    next
      case (Some snap)
      then show thesis using that b(3) by (simp add: tg_world_current_def)
    qed
    then show ?thesis using b f m rest by simp
  qed
  then show ?thesis using s by blast
qed

theorem startup_establishes_witness:
  "\<exists>cfg lb bm. config_parse_args demo_argv = Inr cfg \<and>
    start_lb demo_xxh demo_main_env cfg [2, 0, 0, 0, 0, 9] = Some (lb, True) \<and> lb_bm lb = Some bm \<and>
    bm_map bm 0 = Some \<lparr>be_id = 0, be_addr = 0x0B00000A, be_port = 80, be_mac = [2, 0, 0, 0, 0, 1],
      mac_resolved = True, healthy = True, admin_state = BACKEND_ENABLED\<rparr>"
proof -
  obtain c where c: "config_parse_args demo_argv = Inr c" "cf_n_backends c = 1"
      "cf_backends c ! 0 = \<lparr>cb_addr = 0x0B00000A, cb_port = 80\<rparr>" "cf_director_ip c = 0x0100000A"
      "cf_max_flows c = 1000000" "cf_table_size c = 65537" "\<not> cf_tui_enabled c"
    using demo_main_cfg by blast
  note d = demo_start_ok [OF c(2-4)]
  have "maglev_is_prime (cf_table_size c)" "unat (cf_max_flows c) < 2 ^ 50" "length (me_tx_garbage demo_main_env) = TX_BUF_LEN"
    using demo_prime c(5,6) by (simp_all add: demo_main_env_def)
  then show ?thesis
    using startup_establishes [OF c(1) _ _ d(1), of demo_xxh] d(2,3) c(1) by metis
qed

text \<open>C2. The whole program. For every command line, every outcome of the system calls and
  allocations and every interleaving of packets, ticks, probe results, admin input, scrapes of the
  metrics and turns of the dashboard, the program returns with exit code 0 or 1 and no bad access,
  provided that (1) the flow capacity is below \<open>2 ^ 50\<close>, (2) the waits for ARP replies end, (3) the loop
  receives a signal or fails, and (4) no failed probe is recorded between the release of the counters
  and the join of the health checker's thread, where the order of the clean-up would make it write
  through a null pointer. The other hypotheses are the sizes of the transmit buffer and of a MAC
  address and the range of the clock. The program has then freed every snapshot it allocated, but
  those it leaked when an array could not grow. The exit code is 0 when the start succeeds and the
  loop is ended by a signal.\<close>

theorem program_runs:
  assumes "\<And>cfg. config_parse_args argv = Inr cfg \<Longrightarrow> unat (cf_max_flows cfg) < 2 ^ 50"
    "\<And>cfg mac j. config_parse_args argv = Inr cfg \<Longrightarrow> me_mac env = Some mac \<Longrightarrow> j < cf_n_backends cfg \<Longrightarrow>
       arp_for env cfg mac j (cf_backends cfg ! j) \<noteq> None"
    "length (me_tx_garbage env) = TX_BUF_LEN" "time_ok (me_mh_now env)"
    "\<And>mac. ds_mac (re_setup run) = Some mac \<Longrightarrow> length mac = ETH_ADDR_LEN"
    "list_ex event_stops (re_events run)" "list_all quiet (re_last_acts run)"
  shows "\<exists>lb out code. main_lb xxh env run argv = Some (lb, out, code) \<and> snapshots_freed lb \<and> code \<in> {0, 1} \<and>
    (\<forall>cfg mac. config_parse_args argv = Inr cfg \<and> maglev_is_prime (cf_table_size cfg) \<and> me_sigmask env \<and>
       me_mac env = Some mac \<and> start_ok env cfg mac \<and> (cf_tui_enabled cfg \<longrightarrow> re_dp_thread run) \<and>
       setup_ok (re_setup run) \<and> hd (filter event_stops (re_events run)) \<noteq> Ev_wait Dp_error \<longrightarrow> code = 0)"
proof (cases "\<exists>cfg mac. config_parse_args argv = Inr cfg \<and> maglev_is_prime (cf_table_size cfg) \<and> me_sigmask env \<and> me_mac env = Some mac")
  case False
  have "snapshots_freed lb_null" by (simp add: snapshots_freed_def lb_null_def)
  then show ?thesis
    using False by (auto simp: main_lb_def split: sum.splits config_stop.splits option.splits)
next
  case True
  then obtain cfg mac where c: "config_parse_args argv = Inr cfg" "maglev_is_prime (cf_table_size cfg)" "me_sigmask env"
      "me_mac env = Some mac" by blast
  have b: "config_bounds cfg" using config_parse_bounds [OF c(1)] by simp
  have arp: "\<forall>j < cf_n_backends cfg. arp_for env cfg mac j (cf_backends cfg ! j) \<noteq> None"
    using assms(2) [OF c(1,4)] by blast
  obtain lb ok where s: "start_lb xxh env cfg mac = Some (lb, ok)" "lb_core xxh (me_rebuilds env) lb"
      "start_ok env cfg mac \<longrightarrow> ok" "ok \<longrightarrow> lb_inv xxh (me_rebuilds env) lb \<and> lb_current lb"
    using start_lb_ok [OF b c(2) assms(1) [OF c(1)] arp assms(3), of xxh] by blast
  have w: "watch_ok lb" "lb_ui lb = None" "idle lb"
    using start_lb_watch [OF s(1) assms(4)] by (simp_all add: start_watch_def)
  let ?good = "(cf_tui_enabled cfg \<longrightarrow> re_dp_thread run) \<and> setup_ok (re_setup run) \<and>
     hd (filter event_stops (re_events run)) \<noteq> Ev_wait Dp_error"
  obtain lb1 out rc where r: "(if ok then main_run xxh run cfg lb else Some ((lb, []), 1)) = Some ((lb1, out), rc)"
      "lb_core xxh (me_rebuilds env) lb1" "watch_ok lb1" "lb_ui lb1 = None" "rc = 0 \<longleftrightarrow> ok \<and> ?good"
  proof (cases ok)
    case False
    then show thesis using that [of lb "[]" 1] s(2) w by simp
  next
    case True
    then have ok: "lb_ok xxh (me_rebuilds env) lb" using s(4) w(1) by (simp add: lb_ok_def)
    obtain lb1 out rc where "main_run xxh run cfg lb = Some ((lb1, out), rc)" "lb_ok xxh (me_rebuilds env) lb1"
        "lb_ui lb1 = None" "rc = 0 \<longleftrightarrow> ?good"
      using main_run_ok [OF ok w(3,2) assms(6,5), of cfg] by blast
    then show thesis using that [of lb1 out rc] True by (simp add: lb_ok_def lb_inv_def)
  qed
  obtain lb2 out2 where f: "cleanup_lb (re_stopping run) (re_last_acts run) (lb1, out) = Some (lb2, out2)" "snapshots_freed lb2"
    using cleanup_ok [OF r(2-4) assms(7)] by blast
  have "main_lb xxh env run argv = Some (lb2, out2, if rc = 0 then 0 else 1)"
    using c s(1) r(1) f(1) by (simp add: main_lb_def)
  then show ?thesis
    using f(2) r(5) s(3) c by (intro exI [of _ lb2] exI [of _ out2] exI [of _ "if rc = 0 then 0 else 1"]) auto
qed

theorem program_runs_witness:
  "\<exists>lb out. main_lb demo_xxh demo_main_env demo_run_env demo_argv = Some (lb, out, 0) \<and> snapshots_freed lb"
proof -
  obtain c where c: "config_parse_args demo_argv = Inr c" "cf_n_backends c = 1"
      "cf_backends c ! 0 = \<lparr>cb_addr = 0x0B00000A, cb_port = 80\<rparr>" "cf_director_ip c = 0x0100000A"
      "cf_max_flows c = 1000000" "cf_table_size c = 65537" "\<not> cf_tui_enabled c"
    using demo_main_cfg by blast
  note d = demo_start_ok [OF c(2-4)]
  have mac: "me_mac demo_main_env = Some [2, 0, 0, 0, 0, 9]" by (simp add: demo_main_env_def)
  have pre: "length (me_tx_garbage demo_main_env) = TX_BUF_LEN" "time_ok (me_mh_now demo_main_env)" "me_sigmask demo_main_env"
      "list_ex event_stops (re_events demo_run_env)"
      "list_all quiet (re_last_acts demo_run_env)" "setup_ok (re_setup demo_run_env)"
      "hd (filter event_stops (re_events demo_run_env)) \<noteq> Ev_wait Dp_error"
    by (simp_all add: demo_main_env_def demo_run_env_def time_ok_def setup_ok_def setup_epoll_def)
  have ds: "length m = ETH_ADDR_LEN" if "ds_mac (re_setup demo_run_env) = Some m" for m
    using that by (auto simp: demo_run_env_def ETH_ADDR_LEN_def)
  have cap: "unat (cf_max_flows c') < 2 ^ 50" if "config_parse_args demo_argv = Inr c'" for c'
    using that c(1,5) by auto
  have arp: "arp_for demo_main_env c' m j (cf_backends c' ! j) \<noteq> None"
    if "config_parse_args demo_argv = Inr c'" "me_mac demo_main_env = Some m" "j < cf_n_backends c'" for c' m j
    using that c(1) mac d(1) by auto
  have p: "maglev_is_prime (cf_table_size c)" using demo_prime c(6) by simp
  have "\<exists>lb out code. main_lb demo_xxh demo_main_env demo_run_env demo_argv = Some (lb, out, code) \<and> snapshots_freed lb \<and>
    code \<in> {0, 1} \<and>
    (\<forall>cfg mac. config_parse_args demo_argv = Inr cfg \<and> maglev_is_prime (cf_table_size cfg) \<and> me_sigmask demo_main_env \<and>
       me_mac demo_main_env = Some mac \<and> start_ok demo_main_env cfg mac \<and> (cf_tui_enabled cfg \<longrightarrow> re_dp_thread demo_run_env) \<and>
       setup_ok (re_setup demo_run_env) \<and> hd (filter event_stops (re_events demo_run_env)) \<noteq> Ev_wait Dp_error \<longrightarrow> code = 0)"
    by (rule program_runs [OF _ _ pre(1,2) _ pre(4,5)]) (use cap arp ds in auto)
  then show ?thesis using c(1,7) p mac d(3) pre(3,6,7) by metis
qed

end
