(* ===== verification/Remap_Report.thy ===== *)
theory Remap_Report
  imports Maglev_Table C_String
begin

text \<open>
  \<open>tools/maglev_remap_report.c\<close>: the tool that compares the table for one number of backends with the
  table for another, slot by slot, and with plain modulo hashing. The formatting of the rows is
  left out; a row is the pair of backend counts with the three counters. The shift of an octet
  into the top byte is taken as the bit operation the compilers in use make of it.

  The lemmas show that the counters are the numbers of slots they are named after, and how many
  slots a report considers.
\<close>

unbundle bit_operations_syntax

definition MAGLEV_DEFAULT_M :: u32 where "MAGLEV_DEFAULT_M = 65537"

section \<open>Comparing two tables\<close>

text \<open>The MAC addresses are zero; \<open>calloc\<close> may fail.\<close>

definition synthetic_backend :: "nat \<Rightarrow> backend_view" where
  "synthetic_backend i =
     (let o3 = of_nat ((i div 256) mod 256) :: u8; o4 = of_nat (i mod 256) :: u8 in
      \<lparr>bv_id = of_nat i, bv_addr = 10 OR push_bit 16 (ucast o3) OR push_bit 24 (ucast o4),
       bv_port = 9000, bv_mac = replicate ETH_ADDR_LEN 0\<rparr>)"

definition make_backends :: "bool \<Rightarrow> u64 \<Rightarrow> backend_view list option" where
  "make_backends calloc_ok n = (if \<not> calloc_ok then None else Some (map synthetic_backend [0..<unat n]))"

record remap_result =
  considered :: u64
  maglev_unchanged :: u64
  naive_unchanged :: u64

text \<open>The outcomes of the allocations of one comparison.\<close>

record remap_env =
  rp_before :: bool
  rp_after :: bool
  rp_alloc_before :: allocator
  rp_alloc_after :: allocator

text \<open>One turn of the loop: \<open>None\<close> is a read behind the table or a remainder by zero.\<close>

definition remap_slot ::
  "i32 list \<Rightarrow> i32 list \<Rightarrow> u64 \<Rightarrow> u64 \<Rightarrow> nat \<Rightarrow> remap_result \<Rightarrow> remap_result option" where
  "remap_slot t_before t_after n_before n_after i out =
     (if length t_before \<le> i \<or> n_before = 0 then None
      else
        let mag_before = t_before ! i; naive_before = ucast (of_nat i mod n_before) :: i32 in
        if scast mag_before < n_after then
          if length t_after \<le> i then None
          else
            let out = out\<lparr>considered := considered out + 1\<rparr>;
                out = (if t_after ! i = mag_before
                       then out\<lparr>maglev_unchanged := maglev_unchanged out + 1\<rparr> else out);
                naive_after = ucast (of_nat i mod n_after) :: i32 in
            Some (if naive_after = naive_before
                  then out\<lparr>naive_unchanged := naive_unchanged out + 1\<rparr> else out)
        else Some out)"

definition compute_remap ::
  "xxh64 \<Rightarrow> remap_env \<Rightarrow> u32 \<Rightarrow> u64 \<Rightarrow> u64 \<Rightarrow> remap_result option option" where
  "compute_remap xxh env m n_before n_after =
     (case (make_backends (rp_before env) n_before, make_backends (rp_after env) n_after) of
        (Some before, Some after) \<Rightarrow>
          do {
            t_before \<leftarrow> maglev_table_generate xxh (rp_alloc_before env) before m;
            t_after \<leftarrow> maglev_table_generate xxh (rp_alloc_after env) after m;
            case (t_before, t_after) of
              (Some t_before, Some t_after) \<Rightarrow>
                map_option Some (mfold (remap_slot (mt_lookup t_before) (mt_lookup t_after) n_before n_after)
                  [0..<unat m] \<lparr>considered = 0, maglev_unchanged = 0, naive_unchanged = 0\<rparr>)
            | _ \<Rightarrow> Some None
          }
      | _ \<Rightarrow> Some None)"

section \<open>The command\<close>

record remap_opts =
  ro_m :: u32
  ro_before :: int
  ro_after :: int
  ro_sweep_min :: int
  ro_sweep_max :: int

function remap_args :: "string list \<Rightarrow> remap_opts \<Rightarrow> remap_opts option" where
  "remap_args [] opts = Some opts"
| "remap_args (a # args) opts =
     (if a = ''--before'' \<and> 1 \<le> length args then
        remap_args (drop 1 args) (opts\<lparr>ro_before := fst (strtol (args ! 0))\<rparr>)
      else if a = ''--after'' \<and> 1 \<le> length args then
        remap_args (drop 1 args) (opts\<lparr>ro_after := fst (strtol (args ! 0))\<rparr>)
      else if a = ''--sweep'' \<and> 2 \<le> length args then
        remap_args (drop 2 args) (opts\<lparr>ro_sweep_min := fst (strtol (args ! 0)), ro_sweep_max := fst (strtol (args ! 1))\<rparr>)
      else if a = ''--m'' \<and> 1 \<le> length args then
        remap_args (drop 1 args) (opts\<lparr>ro_m := ucast (fst (strtoul (args ! 0)))\<rparr>)
      else None)"
  by pat_completeness auto
termination by (relation "measure (\<lambda>(args, _). length args)") auto

type_synonym remap_row = "u64 \<times> u64 \<times> remap_result"

text \<open>The rows printed and whether all comparisons worked; the environments are those of the
  successive comparisons.\<close>

fun remap_sweep :: "xxh64 \<Rightarrow> u32 \<Rightarrow> (int \<times> remap_env) list \<Rightarrow> (remap_row list \<times> bool) option" where
  "remap_sweep xxh m [] = Some ([], True)"
| "remap_sweep xxh m ((n, env) # ns) =
     do {
       r \<leftarrow> compute_remap xxh env m (of_int n) (of_int (n - 1));
       case r of
         None \<Rightarrow> Some ([], False)
       | Some r \<Rightarrow> do { (rows, ok) \<leftarrow> remap_sweep xxh m ns; Some ((of_int n, of_int (n - 1), r) # rows, ok) }
     }"

text \<open>The loop variable of a sweep up to the largest \<open>long\<close> overflows.\<close>

definition remap_main :: "xxh64 \<Rightarrow> (nat \<Rightarrow> remap_env) \<Rightarrow> string list \<Rightarrow> (remap_row list \<times> int) option" where
  "remap_main xxh envs argv =
     (case remap_args (drop 1 argv) \<lparr>ro_m = MAGLEV_DEFAULT_M, ro_before = - 1, ro_after = - 1, ro_sweep_min = - 1, ro_sweep_max = - 1\<rparr> of
        None \<Rightarrow> Some ([], 1)
      | Some opts \<Rightarrow>
        let m = ro_m opts; before = ro_before opts; after = ro_after opts;
            sweep_min = ro_sweep_min opts; sweep_max = ro_sweep_max opts in
        if before > 1 \<and> after > 0 then
          do {
            r \<leftarrow> compute_remap xxh (envs 0) m (of_int before) (of_int after);
            Some (case r of None \<Rightarrow> ([], 1) | Some r \<Rightarrow> ([(of_int before, of_int after, r)], 0))
          }
        else if sweep_min \<ge> 2 \<and> sweep_max \<ge> sweep_min then
          do {
            (rows, ok) \<leftarrow> remap_sweep xxh m (zip [sweep_min..sweep_max] (map envs [0..<nat (sweep_max - sweep_min + 1)]));
            if \<not> ok then Some (rows, 1)
            else if sweep_max = LONG_MAX then None
            else Some (rows, 0)
          }
        else Some ([], 1))"

section \<open>The counters\<close>

lemma remap_fold:
  assumes "\<forall>i \<in> set xs. i < length tb \<and> i < length ta" "nb \<noteq> 0"
  shows "mfold (remap_slot tb ta nb na) xs \<lparr>considered = a, maglev_unchanged = b, naive_unchanged = c\<rparr> =
    Some \<lparr>considered = a + of_nat (length (filter (\<lambda>i. scast (tb ! i) < na) xs)),
      maglev_unchanged = b + of_nat (length (filter (\<lambda>i. scast (tb ! i) < na \<and> ta ! i = tb ! i) xs)),
      naive_unchanged = c + of_nat (length (filter (\<lambda>i. scast (tb ! i) < na \<and>
        (ucast (of_nat i mod na) :: i32) = ucast (of_nat i mod nb)) xs))\<rparr>"
  using assms
proof (induction xs arbitrary: a b c)
  case (Cons i xs)
  have IH: "mfold (remap_slot tb ta nb na) xs \<lparr>considered = a, maglev_unchanged = b, naive_unchanged = c\<rparr> =
    Some \<lparr>considered = a + of_nat (length (filter (\<lambda>i. scast (tb ! i) < na) xs)),
      maglev_unchanged = b + of_nat (length (filter (\<lambda>i. scast (tb ! i) < na \<and> ta ! i = tb ! i) xs)),
      naive_unchanged = c + of_nat (length (filter (\<lambda>i. scast (tb ! i) < na \<and>
        (ucast (of_nat i mod na) :: i32) = ucast (of_nat i mod nb)) xs))\<rparr>" for a b c
    using Cons by simp
  have "remap_slot tb ta nb na i \<lparr>considered = a, maglev_unchanged = b, naive_unchanged = c\<rparr> =
    Some \<lparr>considered = a + (if scast (tb ! i) < na then 1 else 0),
      maglev_unchanged = b + (if scast (tb ! i) < na \<and> ta ! i = tb ! i then 1 else 0),
      naive_unchanged = c + (if scast (tb ! i) < na \<and> (ucast (of_nat i mod na) :: i32) = ucast (of_nat i mod nb) then 1 else 0)\<rparr>"
    using Cons.prems by (simp add: remap_slot_def Let_def)
  then show ?case by (simp add: IH algebra_simps)
qed simp

lemma bv_id_synthetic [simp]: "bv_id (synthetic_backend i) = of_nat i"
  by (simp add: synthetic_backend_def Let_def)

lemma of_nat_u32_eq: "i < 2 ^ 32 \<Longrightarrow> j < 2 ^ 32 \<Longrightarrow> (of_nat i :: u32) = of_nat j \<longleftrightarrow> i = j"
  by (simp add: word_unat_eq_iff unat_of_nat)

text \<open>The ids of the synthetic backends.\<close>

lemma synthetic_ids:
  assumes "n < 2 ^ 31"
  shows "distinct (map bv_id (map synthetic_backend [0..<n]))" "- 1 \<notin> bv_id ` set (map synthetic_backend [0..<n])"
proof -
  have "inj_on (\<lambda>i. of_nat i :: u32) {0..<n}"
    using assms by (intro inj_onI) (simp add: of_nat_u32_eq)
  then show "distinct (map bv_id (map synthetic_backend [0..<n]))"
    by (simp add: comp_def distinct_map)
  have "(of_nat i :: u32) \<noteq> - 1" if "i < n" for i
  proof
    assume "(of_nat i :: u32) = - 1"
    then have "unat (of_nat i :: u32) = unat (- 1 :: u32)" by simp
    moreover have "unat (- 1 :: u32) = 2 ^ 32 - 1" by (simp add: unsigned_minus_1_eq_mask mask_eq_exp_minus_1)
    ultimately show False using that assms by (simp add: unat_of_nat)
  qed
  then show "- 1 \<notin> bv_id ` set (map synthetic_backend [0..<n])"
    by (metis (no_types, lifting) atLeastLessThan_iff bv_id_synthetic imageE list.set_map set_upt)
qed

lemma scast_small:
  assumes "k < 2 ^ 31"
  shows "scast (of_nat k :: i32) = (of_nat k :: u64)"
proof -
  have "sint (of_nat k :: i32) = int k"
    using assms by (simp add: sint_uint unat_of_nat uint_nat signed_take_bit_int_eq_self)
  then show ?thesis by (simp add: scast_eq)
qed

lemma naive_same:
  assumes "0 < nb" "nb < 2 ^ 31" "0 < na" "na < 2 ^ 31" "i < 2 ^ 32"
  shows "(ucast (of_nat i mod of_nat na :: u64) :: i32) = ucast (of_nat i mod of_nat nb :: u64) \<longleftrightarrow> i mod na = i mod nb"
proof -
  have "unat (ucast (of_nat i mod of_nat n :: u64) :: i32) = i mod n" if "0 < n" "n < 2 ^ 31" for n
  proof -
    have "unat (of_nat i mod of_nat n :: u64) = i mod n"
      using that assms(5) by (simp add: unat_mod_distrib unat_of_nat)
    moreover have "i mod n < 2 ^ 32" using mod_less_divisor [OF that(1), of i] that(2) by simp
    ultimately show ?thesis by (simp add: unsigned_ucast_eq take_bit_nat_eq_self)
  qed
  then show ?thesis using assms by (simp add: word_unat_eq_iff)
qed

lemma filter_nth_length: "length (filter (\<lambda>i. P (xs ! i)) [0..<length xs]) = length (filter P xs)"
proof -
  have "filter P xs = map (\<lambda>i. xs ! i) (filter (\<lambda>i. P (xs ! i)) [0..<length xs])"
    using filter_map [of P "\<lambda>i. xs ! i" "[0..<length xs]"] by (simp add: map_nth comp_def)
  then show ?thesis by simp
qed

text \<open>The table of the tool: every slot holds one of the ids, and each id has its share.\<close>

lemma synthetic_table:
  assumes p: "maglev_is_prime m" and al: "\<forall>s. alloc s" and n: "0 < n" "n < 2 ^ 31"
  obtains t where "maglev_table_generate xxh alloc (map synthetic_backend [0..<n]) m = Some (Some \<lparr>mt_m = m, mt_lookup = t\<rparr>)"
    "length t = unat m" "\<And>i. i < unat m \<Longrightarrow> \<exists>k < n. t ! i = of_nat k"
    "\<And>k. k < n \<Longrightarrow> count_list t (of_nat k) \<in> {unat m div n, unat m div n + 1}"
proof -
  let ?bs = "map synthetic_backend [0..<n]"
  let ?qs = "qsort backend_view_cmp_by_id ?bs"
  have p': "prime_nat (unat m)" using p by (simp add: maglev_is_prime_iff)
  have ne: "?bs \<noteq> []" using n(1) by simp
  note ids = synthetic_ids [OF n(2)]
  show thesis
  proof (rule that)
    show "maglev_table_generate xxh alloc ?bs m = Some (Some \<lparr>mt_m = m, mt_lookup = maglev_spec xxh ?qs m\<rparr>)"
      by (rule maglev_table_generate_eq [OF p' al ne ids(2)])
    show "length (maglev_spec xxh ?qs m) = unat m" by simp
    fix i
    assume "i < unat m"
    then obtain v where v: "v \<in> set ?qs" "maglev_spec xxh ?qs m ! i = bv_id v"
      using maglev_spec_nth [OF p', of ?qs i xxh] ne by (metis qsort_eq_Nil_iff)
    then show "\<exists>k < n. maglev_spec xxh ?qs m ! i = of_nat k" by (auto simp only: set_qsort set_map set_upt bv_id_synthetic atLeastLessThan_iff)
  next
    fix k
    assume k: "k < n"
    have "synthetic_backend k \<in> set ?qs" using k by simp
    then obtain b where b: "b < length ?qs" "?qs ! b = synthetic_backend k" by (metis in_set_conv_nth)
    have "distinct (map bv_id ?qs)" using ids(1) by (simp only: distinct_map_qsort)
    from maglev_spec_count [OF p' this b(1), of xxh] show "count_list (maglev_spec xxh ?qs m) (of_nat k) \<in> {unat m div n, unat m div n + 1}"
      unfolding b(2) by simp
  qed
qed

lemma compute_remap_exact:
  assumes "maglev_is_prime m" "rp_before env" "rp_after env" "\<forall>s. rp_alloc_before env s" "\<forall>s. rp_alloc_after env s"
    "0 < nb" "nb < 2 ^ 31" "0 < na" "na < 2 ^ 31"
  shows "\<exists>before after r.
    maglev_table_generate xxh (rp_alloc_before env) (map synthetic_backend [0..<nb]) m = Some (Some \<lparr>mt_m = m, mt_lookup = before\<rparr>) \<and>
    maglev_table_generate xxh (rp_alloc_after env) (map synthetic_backend [0..<na]) m = Some (Some \<lparr>mt_m = m, mt_lookup = after\<rparr>) \<and>
    compute_remap xxh env m (of_nat nb) (of_nat na) = Some (Some r) \<and>
    unat (considered r) = length (filter (\<lambda>i. unat (before ! i) < na) [0..<unat m]) \<and>
    unat (maglev_unchanged r) = length (filter (\<lambda>i. unat (before ! i) < na \<and> after ! i = before ! i) [0..<unat m]) \<and>
    unat (naive_unchanged r) = length (filter (\<lambda>i. unat (before ! i) < na \<and> i mod na = i mod nb) [0..<unat m]) \<and>
    (nb \<le> na \<longrightarrow> unat (considered r) = unat m) \<and>
    (nb = na + 1 \<longrightarrow> unat m - unat (considered r) \<in> {unat m div nb, unat m div nb + 1})"
proof -
  obtain tb where b: "maglev_table_generate xxh (rp_alloc_before env) (map synthetic_backend [0..<nb]) m = Some (Some \<lparr>mt_m = m, mt_lookup = tb\<rparr>)"
      "length tb = unat m" "\<And>i. i < unat m \<Longrightarrow> \<exists>k < nb. tb ! i = of_nat k"
      "\<And>k. k < nb \<Longrightarrow> count_list tb (of_nat k) \<in> {unat m div nb, unat m div nb + 1}"
    using synthetic_table [OF assms(1,4,6,7)] by metis
  obtain ta where a: "maglev_table_generate xxh (rp_alloc_after env) (map synthetic_backend [0..<na]) m = Some (Some \<lparr>mt_m = m, mt_lookup = ta\<rparr>)"
      "length ta = unat m"
    using synthetic_table [OF assms(1,5,8,9)] by metis
  have un: "unat (of_nat nb :: u64) = nb" "unat (of_nat na :: u64) = na" using assms(7,9) by (simp_all add: unat_of_nat)
  have nz: "(of_nat nb :: u64) \<noteq> 0" using un(1) assms(6) by (metis unat_0 less_irrefl)
  have kept: "scast (tb ! i) < (of_nat na :: u64) \<longleftrightarrow> unat (tb ! i) < na" if i: "i < unat m" for i
  proof -
    obtain k where k: "k < nb" "tb ! i = of_nat k" using b(3) [OF i] by blast
    have k31: "k < 2 ^ 31" using k(1) assms(7) by simp
    have "unat (of_nat k :: i32) = k" "unat (of_nat k :: u64) = k" using k31 by (simp_all add: unat_of_nat)
    then show ?thesis unfolding k(2) scast_small [OF k31] by (simp add: word_less_nat_alt un)
  qed
  have m32: "i < 2 ^ 32" if "i < unat m" for i using that unsigned_less [of m, where ?'a = nat] by simp
  define P Q R where "P = filter (\<lambda>i. unat (tb ! i) < na) [0..<unat m]"
    and "Q = filter (\<lambda>i. unat (tb ! i) < na \<and> ta ! i = tb ! i) [0..<unat m]"
    and "R = filter (\<lambda>i. unat (tb ! i) < na \<and> i mod na = i mod nb) [0..<unat m]"
  have eqs: "filter (\<lambda>i. scast (tb ! i) < (of_nat na :: u64)) [0..<unat m] = P"
      "filter (\<lambda>i. scast (tb ! i) < (of_nat na :: u64) \<and> ta ! i = tb ! i) [0..<unat m] = Q"
      "filter (\<lambda>i. scast (tb ! i) < (of_nat na :: u64) \<and>
         (ucast (of_nat i mod of_nat na :: u64) :: i32) = ucast (of_nat i mod of_nat nb :: u64)) [0..<unat m] = R"
    unfolding P_def Q_def R_def
    using kept naive_same [OF assms(6,7,8,9) m32] by (auto intro!: filter_cong)
  let ?r = "\<lparr>considered = of_nat (length P), maglev_unchanged = of_nat (length Q), naive_unchanged = of_nat (length R)\<rparr> :: remap_result"
  have fold: "mfold (remap_slot tb ta (of_nat nb) (of_nat na)) [0..<unat m]
      \<lparr>considered = 0, maglev_unchanged = 0, naive_unchanged = 0\<rparr> = Some ?r"
    using remap_fold [of "[0..<unat m]" tb ta "of_nat nb" "of_nat na" 0 0 0] b(2) a(2) nz unfolding eqs by simp
  have c: "compute_remap xxh env m (of_nat nb) (of_nat na) = Some (Some ?r)"
  proof -
    have "make_backends (rp_before env) (of_nat nb) = Some (map synthetic_backend [0..<nb])"
        "make_backends (rp_after env) (of_nat na) = Some (map synthetic_backend [0..<na])"
      unfolding make_backends_def un using assms(2,3) by simp_all
    then show ?thesis
      unfolding compute_remap_def using b(1) a(1) fold
      by (simp only: option.case prod.case bind.bind_lunit maglev_table.simps option.map)
  qed
  have len: "length P \<le> unat m" "length Q \<le> unat m" "length R \<le> unat m"
    using length_filter_le [of _ "[0..<unat m]"] unfolding P_def Q_def R_def by simp_all
  then have small: "unat (of_nat (length P) :: u64) = length P" "unat (of_nat (length Q) :: u64) = length Q"
      "unat (of_nat (length R) :: u64) = length R"
    using unsigned_less [of m, where ?'a = nat] by (simp_all add: unat_of_nat)
  have all: "length P = unat m" if "nb \<le> na"
  proof -
    have "unat (tb ! i) < na" if i: "i < unat m" for i
      using b(3) [OF i] \<open>nb \<le> na\<close> assms(7) by (auto simp: unat_of_nat)
    then have "P = [0..<unat m]" unfolding P_def by (simp add: filter_id_conv)
    then show ?thesis by simp
  qed
  have last: "unat m - length P \<in> {unat m div nb, unat m div nb + 1}" if nb: "nb = na + 1"
  proof -
    have "unat (tb ! i) < na \<longleftrightarrow> \<not> tb ! i = of_nat na" if i: "i < unat m" for i
      using b(3) [OF i] nb assms(7,9) by (auto simp: unat_of_nat of_nat_u32_eq)
    then have "P = filter (\<lambda>i. \<not> tb ! i = of_nat na) [0..<unat m]" unfolding P_def by (intro filter_cong) simp_all
    then have "unat m - length P = length (filter (\<lambda>i. tb ! i = of_nat na) [0..<length tb])"
      using sum_length_filter_compl [of "\<lambda>i. tb ! i = of_nat na" "[0..<unat m]"] b(2) by simp
    also have "\<dots> = length (filter (\<lambda>x. x = of_nat na) tb)" by (rule filter_nth_length)
    also have "\<dots> = count_list tb (of_nat na)" by (induction tb) simp_all
    finally show ?thesis using b(4) [of na] nb by simp
  qed
  have r: "unat (considered ?r) = length P" "unat (maglev_unchanged ?r) = length Q" "unat (naive_unchanged ?r) = length R"
    using small by simp_all
  show ?thesis
  proof (intro exI conjI impI)
    show "unat (considered ?r) = unat m" if "nb \<le> na" using r(1) all [OF that] by simp
    show "unat m - unat (considered ?r) \<in> {unat m div nb, unat m div nb + 1}" if "nb = na + 1"
      unfolding r(1) by (rule last [OF that])
  qed (fact b(1) a(1) c | unfold r | simp only: P_def Q_def R_def)+
qed

text \<open>A sweep prints a row for every number of backends.\<close>

lemma remap_sweep_rows:
  assumes p: "maglev_is_prime m"
    and ns: "\<forall>(n, env) \<in> set ns. 2 \<le> n \<and> n < 2 ^ 31 \<and> rp_before env \<and> rp_after env \<and>
      (\<forall>s. rp_alloc_before env s) \<and> (\<forall>s. rp_alloc_after env s)"
  shows "\<exists>rows. remap_sweep xxh m ns = Some (rows, True) \<and>
    map (\<lambda>(b, a, r). (b, a)) rows = map (\<lambda>(n, env). (of_int n, of_int (n - 1))) ns"
  using ns
proof (induction ns)
  case (Cons x ns)
  obtain n env where x: "x = (n, env)" by (cases x)
  have e: "2 \<le> n" "n < 2 ^ 31" "rp_before env" "rp_after env" "\<forall>s. rp_alloc_before env s" "\<forall>s. rp_alloc_after env s"
    using Cons.prems x by auto
  have "of_int n = (of_nat (nat n) :: u64)" "of_int (n - 1) = (of_nat (nat (n - 1)) :: u64)"
    using e(1) by simp_all
  moreover have "\<exists>r. compute_remap xxh env m (of_nat (nat n)) (of_nat (nat (n - 1))) = Some (Some r)"
  proof -
    have "0 < nat n" "nat n < 2 ^ 31" "0 < nat (n - 1)" "nat (n - 1) < 2 ^ 31" using e(1,2) by auto
    from compute_remap_exact [OF p e(3-6) this, of xxh] show ?thesis by (elim exE conjE) (rule exI)
  qed
  ultimately obtain r where "compute_remap xxh env m (of_int n) (of_int (n - 1)) = Some (Some r)" by metis
  moreover obtain rows where "remap_sweep xxh m ns = Some (rows, True)"
      "map (\<lambda>(b, a, r). (b, a)) rows = map (\<lambda>(n, env). (of_int n, of_int (n - 1))) ns"
    using Cons by auto
  ultimately show ?case using x by simp
qed simp

section \<open>Property\<close>

text \<open>C40. The report is exact. For a prime table size and any numbers of backends below \<open>2 ^ 31\<close> the
  comparison ends, and its counters are the numbers of the slots whose first owner still exists, of
  those among them that keep their owner, and of those that modulo hashing would not move. When no
  backend is removed every slot is considered; when the last of \<open>n\<close> is removed, all but its
  \<open>m div n\<close> slots, or one more, are.\<close>

theorem remap_report_exact:
  assumes "maglev_is_prime m" "rp_before env" "rp_after env" "\<forall>s. rp_alloc_before env s" "\<forall>s. rp_alloc_after env s"
    "0 < nb" "nb < 2 ^ 31" "0 < na" "na < 2 ^ 31"
  shows "\<exists>before after r.
    maglev_table_generate xxh (rp_alloc_before env) (map synthetic_backend [0..<nb]) m = Some (Some \<lparr>mt_m = m, mt_lookup = before\<rparr>) \<and>
    maglev_table_generate xxh (rp_alloc_after env) (map synthetic_backend [0..<na]) m = Some (Some \<lparr>mt_m = m, mt_lookup = after\<rparr>) \<and>
    compute_remap xxh env m (of_nat nb) (of_nat na) = Some (Some r) \<and>
    unat (considered r) = length (filter (\<lambda>i. unat (before ! i) < na) [0..<unat m]) \<and>
    unat (maglev_unchanged r) = length (filter (\<lambda>i. unat (before ! i) < na \<and> after ! i = before ! i) [0..<unat m]) \<and>
    unat (naive_unchanged r) = length (filter (\<lambda>i. unat (before ! i) < na \<and> i mod na = i mod nb) [0..<unat m]) \<and>
    (nb \<le> na \<longrightarrow> unat (considered r) = unat m) \<and>
    (nb = na + 1 \<longrightarrow> unat m - unat (considered r) \<in> {unat m div nb, unat m div nb + 1})"
  using assms by (rule compute_remap_exact)

theorem remap_report_exact_witness:
  "\<exists>r. compute_remap demo_xxh \<lparr>rp_before = True, rp_after = True, rp_alloc_before = alloc_ok, rp_alloc_after = alloc_ok\<rparr> 65537 5 4 =
      Some (Some r) \<and> 65537 - unat (considered r) \<in> {13107, 13108}"
proof -
  have p: "maglev_is_prime 65537" by code_simp
  show ?thesis
    using remap_report_exact [OF p, of "\<lparr>rp_before = True, rp_after = True, rp_alloc_before = alloc_ok, rp_alloc_after = alloc_ok\<rparr>" 5 4 demo_xxh]
    by (auto simp: alloc_ok_def)
qed

end
