(* ===== verification/Metrics_Reader.thy ===== *)
theory Metrics_Reader
  imports Metrics_Http
begin

text \<open>
  What the response of \<open>src/ui/metrics_http.c\<close> means to its reader: a parser of the text format,
  independent of the exporter, and the list of all series with their values. The lemmas show for
  each group of lines what the parser finds in it; together, that a scrape returns every series with
  the value it stands for.
\<close>

section \<open>Reading the body\<close>

text \<open>A reader of the text format, written from the format and not from the exporter: lines end with a
  newline; a line that starts with a hash is a comment, of which those that declare the type of a
  family are read; every other line is a series, a name with optional labels in braces, and its
  value.\<close>

type_synonym series = "string \<times> (string \<times> string) list \<times> int"

definition read_int :: "string \<Rightarrow> int" where
  "read_int v = (case v of [] \<Rightarrow> 0 | c # ds \<Rightarrow> if c = CHR ''-'' then - int (dec_value ds) else int (dec_value v))"

definition read_label :: "string \<Rightarrow> string \<times> string" where
  "read_label p = (takeWhile (\<lambda>c. c \<noteq> CHR ''='') p, butlast (drop 2 (dropWhile (\<lambda>c. c \<noteq> CHR ''='') p)))"

definition read_series :: "string \<Rightarrow> series" where
  "read_series l =
     (let name = takeWhile (\<lambda>c. c \<noteq> CHR ''{'' \<and> c \<noteq> CHR '' '') l; rest = drop (length name) l;
          labels = (if rest \<noteq> [] \<and> hd rest = CHR ''{''
                    then map read_label (split_at (CHR '','') (takeWhile (\<lambda>c. c \<noteq> CHR ''}'') (tl rest))) else []) in
      (name, labels, read_int (tl (dropWhile (\<lambda>c. c \<noteq> CHR '' '') l))))"

definition is_comment :: "string \<Rightarrow> bool" where
  "is_comment l \<longleftrightarrow> (case l of [] \<Rightarrow> False | c # _ \<Rightarrow> c = CHR ''#'')"

definition body_lines :: "string \<Rightarrow> string list" where
  "body_lines body = butlast (split_at NL body)"

definition body_series :: "string \<Rightarrow> series list" where
  "body_series body = map read_series (filter (\<lambda>l. \<not> is_comment l) (body_lines body))"

fun read_type :: "string list \<Rightarrow> (string \<times> string) list" where
  "read_type [h, t, name, kind] = (if h = ''#'' \<and> t = ''TYPE'' then [(name, kind)] else [])"
| "read_type _ = []"

definition body_types :: "string \<Rightarrow> (string \<times> string) list" where
  "body_types body = concat (map (\<lambda>l. read_type (split_at (CHR '' '') l)) (body_lines body))"

text \<open>What a reader should find: the families with their types, and the series with the values they
  stand for.\<close>

definition metric_types :: "(string \<times> string) list" where
  "metric_types = map (apfst (\<lambda>n. ''maglev_lb_'' @ n))
     [(''start_time_seconds'', ''gauge''), (''table_size'', ''gauge''),
      (''rx_packets_total'', ''counter''), (''rx_bytes_total'', ''counter''),
      (''tx_packets_total'', ''counter''), (''tx_bytes_total'', ''counter''),
      (''drops_total'', ''counter''), (''conntrack_lookups_total'', ''counter''),
      (''conntrack_evictions_total'', ''counter''), (''conntrack_active_flows'', ''gauge''),
      (''table_generation'', ''counter''), (''table_regen_last_microseconds'', ''gauge''),
      (''backends_configured'', ''gauge''), (''backends_eligible'', ''gauge''),
      (''backend_up'', ''gauge''), (''backend_admin_enabled'', ''gauge''), (''backend_draining'', ''gauge''),
      (''backend_packets_total'', ''counter''), (''backend_bytes_total'', ''counter''),
      (''backend_active_flows'', ''gauge''), (''backend_flows_assigned_total'', ''counter''),
      (''backend_health_check_failures_total'', ''counter'')]"

definition global_series :: "metrics_http \<Rightarrow> metrics_world \<Rightarrow> series list" where
  "global_series m w =
     (let s = mw_reading w 0 0 in
      [(''maglev_lb_start_time_seconds'', [], mh_start_time m),
       (''maglev_lb_table_size'', [], uint (mc_table_size (mh_cfg m))),
       (''maglev_lb_rx_packets_total'', [], uint (rx_packets s)),
       (''maglev_lb_rx_bytes_total'', [], uint (rx_bytes s)),
       (''maglev_lb_tx_packets_total'', [], uint (tx_packets s)),
       (''maglev_lb_tx_bytes_total'', [], uint (tx_bytes s)),
       (''maglev_lb_drops_total'', [(''reason'', ''parse_error'')], uint (drops_parse_error s)),
       (''maglev_lb_drops_total'', [(''reason'', ''no_backend'')], uint (drops_no_backend s)),
       (''maglev_lb_drops_total'', [(''reason'', ''backend_unhealthy'')], uint (drops_backend_unhealthy s)),
       (''maglev_lb_drops_total'', [(''reason'', ''conntrack_full'')], uint (drops_conntrack_full s)),
       (''maglev_lb_conntrack_lookups_total'', [(''result'', ''hit'')], uint (conntrack_hits s)),
       (''maglev_lb_conntrack_lookups_total'', [(''result'', ''miss'')], uint (conntrack_misses s)),
       (''maglev_lb_conntrack_evictions_total'', [], uint (conntrack_evictions s)),
       (''maglev_lb_conntrack_active_flows'', [], uint (active (mw_ct w))),
       (''maglev_lb_table_generation'', [], uint (tg_generation (mw_tg w))),
       (''maglev_lb_table_regen_last_microseconds'', [], uint (tg_last_regen_us (mw_tg w))),
       (''maglev_lb_backends_configured'', [], uint (mc_configured_backends (mh_cfg m))),
       (''maglev_lb_backends_eligible'', [],
          int (length (backend_manager_snapshot_eligible (mw_bm w) BACKEND_MAX)))])"

definition of_backend :: "string \<Rightarrow> backend \<Rightarrow> int \<Rightarrow> series" where
  "of_backend name b v =
     (''maglev_lb_backend_'' @ name,
      [(''backend_id'', dec (unat (be_id b))), (''backend_addr'', ipv4_dotted (be_addr b) @ '':'' @ dec (unat (be_port b)))], v)"

text \<open>The counters of the \<open>i\<close>-th backend at the moment they are read for the \<open>k\<close>-th family.\<close>

definition counters_at :: "metrics_world \<Rightarrow> nat \<Rightarrow> nat \<Rightarrow> backend \<Rightarrow> per_backend_stats" where
  "counters_at w k i b = the (stats_registry_snapshot_backend (mw_reading w k i) (be_id b))"

definition backend_series :: "metrics_world \<Rightarrow> series list" where
  "backend_series w =
     (let bs = backend_manager_snapshot_all (mw_bm w) BACKEND_MAX; ibs = enumerate 0 bs in
      map (\<lambda>b. of_backend ''up'' b (if healthy b then 1 else 0)) bs @
      map (\<lambda>b. of_backend ''admin_enabled'' b (if admin_state b = BACKEND_ENABLED then 1 else 0)) bs @
      map (\<lambda>b. of_backend ''draining'' b (if admin_state b = BACKEND_DRAINING then 1 else 0)) bs @
      map (\<lambda>(i, b). of_backend ''packets_total'' b (uint (pb_packets (counters_at w 1 i b)))) ibs @
      map (\<lambda>(i, b). of_backend ''bytes_total'' b (uint (pb_bytes (counters_at w 2 i b)))) ibs @
      map (\<lambda>(i, b). of_backend ''active_flows'' b (uint (pb_active_flows (counters_at w 3 i b)))) ibs @
      map (\<lambda>(i, b). of_backend ''flows_assigned_total'' b (uint (pb_flows_assigned (counters_at w 4 i b)))) ibs @
      map (\<lambda>(i, b). of_backend ''health_check_failures_total'' b
             (uint (pb_health_check_failures (counters_at w 5 i b)))) ibs)"

subsection \<open>Lines\<close>

definition plain :: "string \<Rightarrow> bool" where
  "plain s \<longleftrightarrow> (\<forall>c \<in> set s. c \<notin> {NL, CHR '' '', CHR ''{'', CHR ''}'', CHR '','', CHR ''='', CHR ''\"''})"

lemma plain_Nil [simp]: "plain []"
  by (simp add: plain_def)

lemma plain_Cons [simp]:
  "plain (c # s) \<longleftrightarrow> c \<notin> {CHR 0x0A, CHR '' '', CHR ''{'', CHR ''}'', CHR '','', CHR ''='', CHR ''\"''} \<and> plain s"
  by (auto simp: plain_def NL_def)

lemma plain_append [simp]: "plain (a @ b) \<longleftrightarrow> plain a \<and> plain b"
  by (auto simp: plain_def)

lemma plain_dec [simp]: "plain (dec n)"
  using dec_digits [of n] by (auto simp: plain_def list_all_iff isdigit_def NL_def)

lemma plain_dotted [simp]: "plain (ipv4_dotted a)"
  by (simp add: ipv4_dotted_def Let_def)

lemma plain_dec_int [simp]: "plain (dec_int i)"
  by (simp add: dec_int_def)

lemma read_int_dec [simp]: "read_int (dec n) = int n"
proof -
  have "dec n \<noteq> []" using dec.simps [of n] by (auto split: if_splits)
  then obtain c ds where d: "dec n = c # ds" by (cases "dec n") simp_all
  then have "c \<noteq> CHR ''-''" using hd_dec_isdigit [of n] by (auto simp: isdigit_def)
  moreover have "dec_value (c # ds) = n" using dec_value_dec [of n] d by simp
  ultimately show ?thesis using d by (simp add: read_int_def)
qed

lemma read_int_dec_int [simp]: "read_int (dec_int i) = i"
  by (cases "i < 0") (simp_all add: dec_int_def read_int_def [of "CHR ''-'' # _"])

lemma split_at_lines:
  assumes "\<forall>l \<in> set ls. NL \<notin> set l"
  shows "body_lines (concat (map (\<lambda>l. l @ [NL]) ls)) = ls"
proof -
  have "split_at NL (concat (map (\<lambda>l. l @ [NL]) ls)) = ls @ [[]]"
    using assms by (induction ls) (simp_all add: split_at_word)
  then show ?thesis by (simp add: body_lines_def)
qed

lemma read_label_eq:
  assumes "plain k"
  shows "read_label (k @ ''=\"'' @ v @ ''\"'') = (k, v)"
proof -
  have "\<forall>c \<in> set k. c \<noteq> CHR ''=''" using assms by (auto simp: plain_def)
  then show ?thesis by (simp add: read_label_def takeWhile_append2 dropWhile_append2)
qed

lemma plain_not_in: "plain s \<Longrightarrow> c \<in> {NL, CHR '' '', CHR ''{'', CHR ''}'', CHR '','', CHR ''='', CHR ''\"''} \<Longrightarrow> c \<notin> set s"
  by (auto simp: plain_def)

lemma read_series_plain:
  assumes "plain name"
  shows "read_series (name @ '' '' @ v) = (name, [], read_int v)"
proof -
  have n: "\<forall>c \<in> set name. c \<noteq> CHR ''{'' \<and> c \<noteq> CHR '' ''" using assms by (auto simp: plain_def)
  then have "takeWhile (\<lambda>c. c \<noteq> CHR ''{'' \<and> c \<noteq> CHR '' '') (name @ '' '' @ v) = name"
    "dropWhile (\<lambda>c. c \<noteq> CHR '' '') (name @ '' '' @ v) = '' '' @ v"
    by (simp_all add: takeWhile_append2 dropWhile_append2)
  then show ?thesis by (simp add: read_series_def Let_def)
qed

lemma read_series_labels:
  assumes "plain name" "CHR ''}'' \<notin> set ls" "CHR '' '' \<notin> set ls"
  shows "read_series (name @ ''{'' @ ls @ ''} '' @ v) = (name, map read_label (split_at (CHR '','') ls), read_int v)"
proof -
  have n: "\<forall>c \<in> set name. c \<noteq> CHR ''{'' \<and> c \<noteq> CHR '' ''" using assms by (auto simp: plain_def)
  have l: "\<forall>c \<in> set ls. c \<noteq> CHR ''}''" "\<forall>c \<in> set (name @ ''{'' @ ls @ ''}''). c \<noteq> CHR '' ''"
    using assms(2,3) n by auto
  have "takeWhile (\<lambda>c. c \<noteq> CHR ''{'' \<and> c \<noteq> CHR '' '') (name @ ''{'' @ ls @ ''} '' @ v) = name"
    using n by (simp add: takeWhile_append2)
  moreover have "takeWhile (\<lambda>c. c \<noteq> CHR ''}'') (ls @ ''} '' @ v) = ls"
    using l(1) by (simp add: takeWhile_append2)
  moreover have "dropWhile (\<lambda>c. c \<noteq> CHR '' '') ((name @ ''{'' @ ls @ ''}'') @ '' '' @ v) =
      dropWhile (\<lambda>c. c \<noteq> CHR '' '') ('' '' @ v)"
    by (rule dropWhile_append2) (rule l(2) [rule_format])
  ultimately show ?thesis by (simp add: read_series_def Let_def)
qed

lemma read_backend_series:
  assumes "plain name"
  shows "read_series (name @ backend_labels b @ '' '' @ v) =
    (name, [(''backend_id'', dec (unat (be_id b))), (''backend_addr'', ipv4_dotted (be_addr b) @ '':'' @ dec (unat (be_port b)))],
     read_int v)"
proof -
  let ?i = "''backend_id'' @ ''=\"'' @ dec (unat (be_id b)) @ ''\"''"
  let ?a = "''backend_addr'' @ ''=\"'' @ (ipv4_dotted (be_addr b) @ '':'' @ dec (unat (be_port b))) @ ''\"''"
  have e: "name @ backend_labels b @ '' '' @ v = name @ ''{'' @ (?i @ CHR '','' # ?a) @ ''} '' @ v"
    by (simp add: backend_labels_def ipv4_format_complete)
  have c: "CHR '','' \<notin> set ?i" "CHR '','' \<notin> set ?a" "CHR ''}'' \<notin> set (?i @ CHR '','' # ?a)" "CHR '' '' \<notin> set (?i @ CHR '','' # ?a)"
    using plain_not_in [OF plain_dec, of _ "unat (be_id b)"] plain_not_in [OF plain_dec, of _ "unat (be_port b)"]
      plain_not_in [OF plain_dotted, of _ "be_addr b"] by auto
  have k: "plain ''backend_id''" "plain ''backend_addr''" by simp_all
  show ?thesis
    unfolding e read_series_labels [OF assms c(3,4)] split_at_word(1) [OF c(1)] split_at_word(2) [OF c(2)]
    by (simp only: list.map read_label_eq [OF k(1)] read_label_eq [OF k(2)])
qed


lemma butlast_sample: "butlast (sample name labels v) = ''maglev_lb_'' @ name @ labels @ '' '' @ v"
proof -
  have "sample name labels v = (''maglev_lb_'' @ name @ labels @ '' '' @ v) @ [NL]" by (simp add: sample_def)
  then show ?thesis by (simp only: butlast_snoc)
qed

lemma map_butlast_family:
  "map butlast (family name kind about) =
     [''# HELP maglev_lb_'' @ name @ '' '' @ about, ''# TYPE maglev_lb_'' @ name @ '' '' @ kind]"
proof -
  have "''# HELP maglev_lb_'' @ name @ '' '' @ about @ [NL] = (''# HELP maglev_lb_'' @ name @ '' '' @ about) @ [NL]"
    "''# TYPE maglev_lb_'' @ name @ '' '' @ kind @ [NL] = (''# TYPE maglev_lb_'' @ name @ '' '' @ kind) @ [NL]" by simp_all
  then show ?thesis unfolding family_def by (simp only: list.map butlast_snoc)
qed

subsection \<open>What is read from a list of lines\<close>

definition line_ok :: "string \<Rightarrow> bool" where
  "line_ok l \<longleftrightarrow> l = butlast l @ [NL] \<and> NL \<notin> set (butlast l)"

definition series_of :: "string list \<Rightarrow> series list" where
  "series_of ls = map read_series (filter (\<lambda>l. \<not> is_comment l) (map butlast ls))"

definition types_of :: "string list \<Rightarrow> (string \<times> string) list" where
  "types_of ls = concat (map (\<lambda>l. read_type (split_at (CHR '' '') l)) (map butlast ls))"

lemma body_of_lines:
  assumes "list_all line_ok ls"
  shows "body_series (concat ls) = series_of ls" "body_types (concat ls) = types_of ls"
proof -
  have "map (\<lambda>l. l @ [NL]) (map butlast ls) = ls"
    using assms by (induction ls) (auto simp: line_ok_def)
  then have "body_lines (concat ls) = map butlast ls"
    using split_at_lines [of "map butlast ls"] assms by (auto simp: list_all_iff line_ok_def)
  then show "body_series (concat ls) = series_of ls" "body_types (concat ls) = types_of ls"
    by (simp_all add: body_series_def body_types_def series_of_def types_of_def)
qed

lemma read_lines_simps [simp]:
  "series_of [] = []" "series_of (a @ b) = series_of a @ series_of b"
  "types_of [] = []" "types_of (a @ b) = types_of a @ types_of b"
  by (simp_all add: series_of_def types_of_def)

lemma read_lines_Cons:
  "ls \<noteq> [] \<Longrightarrow> series_of (l # ls) = series_of [l] @ series_of ls"
  "ls \<noteq> [] \<Longrightarrow> types_of (l # ls) = types_of [l] @ types_of ls"
  by (simp_all add: series_of_def types_of_def)

lemma series_of_family [simp]: "series_of (family name kind about) = []"
  unfolding series_of_def map_butlast_family by (simp add: is_comment_def)

lemma types_of_family [simp]:
  assumes "plain name" "plain kind"
  shows "types_of (family name kind about) = [(''maglev_lb_'' @ name, kind)]"
proof -
  let ?sp = "CHR '' ''"
  have n: "?sp \<notin> set (''maglev_lb_'' @ name)" "?sp \<notin> set kind" "?sp \<notin> set ''#''" "?sp \<notin> set ''TYPE''" "?sp \<notin> set ''HELP''"
    using assms by (auto simp: plain_def)
  have t: "''# TYPE maglev_lb_'' @ name @ '' '' @ kind = ''#'' @ ?sp # ''TYPE'' @ ?sp # (''maglev_lb_'' @ name) @ ?sp # kind"
    "''# HELP maglev_lb_'' @ name @ '' '' @ about = ''#'' @ ?sp # ''HELP'' @ ?sp # (''maglev_lb_'' @ name) @ ?sp # about"
    by simp_all
  have none: "read_type (h # ''HELP'' # ws) = []" for h ws
    by (cases "(h # ''HELP'' # ws)" rule: read_type.cases) simp_all
  show ?thesis
    unfolding types_of_def map_butlast_family t list.map split_at_word(1) [OF n(3)] split_at_word(1) [OF n(4)]
      split_at_word(1) [OF n(5)] split_at_word(1) [OF n(1)] split_at_word(2) [OF n(2)]
    by (simp add: none)
qed

lemma is_comment_sample [simp]: "\<not> is_comment (''maglev_lb_'' @ s)"
  by (simp add: is_comment_def)

lemma types_of_sample [simp]:
  assumes "plain name" "CHR '' '' \<notin> set labels" "plain v"
  shows "types_of [sample name labels v] = []"
proof -
  have n: "CHR '' '' \<notin> set (''maglev_lb_'' @ name @ labels)" "CHR '' '' \<notin> set v" using assms by (auto simp: plain_def)
  have e: "''maglev_lb_'' @ name @ labels @ '' '' @ v = (''maglev_lb_'' @ name @ labels) @ CHR '' '' # v" by simp
  show ?thesis
    unfolding types_of_def list.map butlast_sample e split_at_word(1) [OF n(1)] split_at_word(2) [OF n(2)] by simp
qed

lemma series_of_sample [simp]:
  assumes "plain name"
  shows "series_of [sample name [] v] = [(''maglev_lb_'' @ name, [], read_int v)]"
proof -
  have p: "plain (''maglev_lb_'' @ name)" using assms by simp
  have e: "''maglev_lb_'' @ name @ [] @ '' '' @ v = (''maglev_lb_'' @ name) @ '' '' @ v" by simp
  show ?thesis
    unfolding series_of_def list.map butlast_sample filter.simps e
    using is_comment_sample [of "name @ '' '' @ v"] read_series_plain [OF p, of v] by simp
qed

lemma series_of_label:
  assumes "plain name" "plain k" "plain x"
  shows "series_of [sample name (''{'' @ k @ ''=\"'' @ x @ ''\"}'') v] = [(''maglev_lb_'' @ name, [(k, x)], read_int v)]"
proof -
  let ?l = "k @ ''=\"'' @ x @ ''\"''"
  have p: "plain (''maglev_lb_'' @ name)" using assms by simp
  have c: "CHR '','' \<notin> set ?l" "CHR ''}'' \<notin> set ?l" "CHR '' '' \<notin> set ?l"
    using plain_not_in [OF assms(2)] plain_not_in [OF assms(3)] by auto
  have e: "''maglev_lb_'' @ name @ (''{'' @ k @ ''=\"'' @ x @ ''\"}'') @ '' '' @ v =
      (''maglev_lb_'' @ name) @ ''{'' @ ?l @ ''} '' @ v" by simp
  have r: "read_series ((''maglev_lb_'' @ name) @ ''{'' @ ?l @ ''} '' @ v) = (''maglev_lb_'' @ name, [(k, x)], read_int v)"
    unfolding read_series_labels [OF p c(2,3)] split_at_word(2) [OF c(1)] list.map read_label_eq [OF assms(2)] ..
  have nc: "\<not> is_comment ((''maglev_lb_'' @ name) @ s)" for s by (simp add: is_comment_def)
  show ?thesis unfolding series_of_def list.map butlast_sample e filter.simps if_P [OF nc] list.map r ..
qed

lemma backend_labels_no_space: "CHR '' '' \<notin> set (backend_labels b)" "NL \<notin> set (backend_labels b)"
proof -
  have "c \<notin> set (backend_labels b)" if "c = CHR '' '' \<or> c = NL" for c
    using that plain_not_in [OF plain_dec, of c "unat (be_id b)"] plain_not_in [OF plain_dec, of c "unat (be_port b)"]
      plain_not_in [OF plain_dotted, of c "be_addr b"] by (auto simp: backend_labels_def ipv4_format_complete NL_def)
  then show "CHR '' '' \<notin> set (backend_labels b)" "NL \<notin> set (backend_labels b)" by simp_all
qed

lemma series_of_backend:
  assumes "plain name"
  shows "series_of [sample (''backend_'' @ name) (backend_labels b) v] = [of_backend name b (read_int v)]"
proof -
  have p: "plain (''maglev_lb_backend_'' @ name)" using assms by simp
  have e: "''maglev_lb_'' @ (''backend_'' @ name) @ backend_labels b @ '' '' @ v =
      (''maglev_lb_backend_'' @ name) @ backend_labels b @ '' '' @ v" by simp
  have nc: "\<not> is_comment ((''maglev_lb_backend_'' @ name) @ s)" for s by (simp add: is_comment_def)
  show ?thesis
    unfolding series_of_def list.map butlast_sample e filter.simps if_P [OF nc] list.map read_backend_series [OF p] of_backend_def ..
qed

lemma read_backend_samples:
  assumes "plain name" "\<And>x. x \<in> set xs \<Longrightarrow> plain (v x)"
  shows "series_of (map (\<lambda>x. sample (''backend_'' @ name) (backend_labels (b x)) (v x)) xs) =
      map (\<lambda>x. of_backend name (b x) (read_int (v x))) xs \<and>
    types_of (map (\<lambda>x. sample (''backend_'' @ name) (backend_labels (b x)) (v x)) xs) = []"
  using assms(2)
proof (induction xs)
  case (Cons x xs)
  have "types_of [sample (''backend_'' @ name) (backend_labels (b x)) (v x)] = []"
    by (rule types_of_sample) (use assms(1) Cons.prems backend_labels_no_space in simp_all)
  moreover have "series_of [sample (''backend_'' @ name) (backend_labels (b x)) (v x)] = [of_backend name (b x) (read_int (v x))]"
    by (rule series_of_backend [OF assms(1)])
  ultimately show ?case using Cons
    by (cases "xs = []") (simp_all add: read_lines_Cons)
qed simp

lemma line_ok_snoc: "line_ok (s @ [NL]) \<longleftrightarrow> NL \<notin> set s"
  by (simp add: line_ok_def)

lemma plain_no_NL: "plain s \<Longrightarrow> NL \<notin> set s"
  using plain_not_in [of s NL] by simp

lemma NL_literals: "NL \<notin> set ''maglev_lb_''" "NL \<notin> set ''# HELP maglev_lb_''" "NL \<notin> set ''# TYPE maglev_lb_''" "NL \<notin> set '' ''"
  by (simp_all add: NL_def)

lemma line_ok_sample [simp]:
  assumes "plain name" "NL \<notin> set labels" "plain v"
  shows "line_ok (sample name labels v)"
proof -
  have "sample name labels v = (''maglev_lb_'' @ name @ labels @ '' '' @ v) @ [NL]" by (simp add: sample_def)
  then show ?thesis
    unfolding line_ok_snoc set_append Un_iff
    using assms plain_no_NL [of name] plain_no_NL [of v] NL_literals(1,4) by (simp only: line_ok_snoc set_append Un_iff simp_thms)
qed

lemma line_ok_family [simp]:
  assumes "plain name" "plain kind" "NL \<notin> set about"
  shows "list_all line_ok (family name kind about)"
proof -
  have "family name kind about =
     [(''# HELP maglev_lb_'' @ name @ '' '' @ about) @ [NL], (''# TYPE maglev_lb_'' @ name @ '' '' @ kind) @ [NL]]"
    by (simp add: family_def)
  then show ?thesis
    using assms plain_no_NL [of name] plain_no_NL [of kind] NL_literals
    by (simp only: list.pred_inject line_ok_snoc set_append Un_iff simp_thms)
qed


text \<open>The lines of one group, read.\<close>

definition reads :: "string list \<Rightarrow> series list \<Rightarrow> (string \<times> string) list \<Rightarrow> bool" where
  "reads ls ss ts \<longleftrightarrow> list_all line_ok ls \<and> series_of ls = ss \<and> types_of ls = ts"

lemma reads_append: "reads a s t \<Longrightarrow> reads b s' t' \<Longrightarrow> reads (a @ b) (s @ s') (t @ t')"
  by (simp add: reads_def)

lemma reads_family:
  "plain name \<Longrightarrow> plain kind \<Longrightarrow> NL \<notin> set about \<Longrightarrow>
   reads (family name kind about) [] [(''maglev_lb_'' @ name, kind)]"
  by (simp add: reads_def)

lemma reads_sample: "plain name \<Longrightarrow> plain v \<Longrightarrow> reads [sample name [] v] [(''maglev_lb_'' @ name, [], read_int v)] []"
  by (simp add: reads_def)

lemma reads_metric:
  "plain name \<Longrightarrow> plain kind \<Longrightarrow> NL \<notin> set about \<Longrightarrow> plain v \<Longrightarrow>
   reads (family name kind about @ [sample name [] v]) [(''maglev_lb_'' @ name, [], read_int v)] [(''maglev_lb_'' @ name, kind)]"
  using reads_append [OF reads_family reads_sample] by simp

lemma reads_label:
  assumes "plain name" "plain k" "plain x" "plain v"
  shows "reads [sample name (''{'' @ k @ ''=\"'' @ x @ ''\"}'') v] [(''maglev_lb_'' @ name, [(k, x)], read_int v)] []"
proof -
  let ?l = "''{'' @ k @ ''=\"'' @ x @ ''\"}''"
  have "CHR '' '' \<notin> set ?l" "NL \<notin> set ?l"
    using plain_not_in [OF assms(2)] plain_not_in [OF assms(3)] by (auto simp: NL_def)
  then show ?thesis using assms series_of_label [OF assms(1-3)] by (simp only: reads_def list.pred_inject line_ok_sample types_of_sample simp_thms)
qed

lemma reads_backends:
  assumes "plain name" "plain kind" "NL \<notin> set about" "\<And>x. x \<in> set xs \<Longrightarrow> plain (v x)"
  shows "reads (family (''backend_'' @ name) kind about @
      map (\<lambda>x. sample (''backend_'' @ name) (backend_labels (b x)) (v x)) xs)
    (map (\<lambda>x. of_backend name (b x) (read_int (v x))) xs) [(''maglev_lb_backend_'' @ name, kind)]"
proof -
  have p: "plain (''backend_'' @ name)" using assms(1) by simp
  have "list_all line_ok (map (\<lambda>x. sample (''backend_'' @ name) (backend_labels (b x)) (v x)) xs)"
    using line_ok_sample [OF p backend_labels_no_space(2)] assms(4) by (simp add: list_all_iff)
  then have "reads (map (\<lambda>x. sample (''backend_'' @ name) (backend_labels (b x)) (v x)) xs)
      (map (\<lambda>x. of_backend name (b x) (read_int (v x))) xs) []"
    using read_backend_samples [OF assms(1,4)] by (simp add: reads_def)
  from reads_append [OF reads_family [OF p assms(2,3)] this] show ?thesis by simp
qed

lemma start_reads:
  "reads (start_lines t cfg)
     [(''maglev_lb_start_time_seconds'', [], t), (''maglev_lb_table_size'', [], uint (mc_table_size cfg))]
     [(''maglev_lb_start_time_seconds'', ''gauge''), (''maglev_lb_table_size'', ''gauge'')]"
  using reads_append [OF
      reads_metric [of "''start_time_seconds''" "''gauge''" "''Unix time the process started.''" "dec_int t"]
      reads_metric [of "''table_size''" "''gauge''" "''Configured Maglev lookup table size (M).''" "dec (unat (mc_table_size cfg))"]]
  by (simp add: start_lines_def NL_def)


lemma traffic_reads:
  "reads (traffic_lines (stats_registry_snapshot s))
     [(''maglev_lb_rx_packets_total'', [], uint (rx_packets s)), (''maglev_lb_rx_bytes_total'', [], uint (rx_bytes s)),
      (''maglev_lb_tx_packets_total'', [], uint (tx_packets s)), (''maglev_lb_tx_bytes_total'', [], uint (tx_bytes s))]
     [(''maglev_lb_rx_packets_total'', ''counter''), (''maglev_lb_rx_bytes_total'', ''counter''),
      (''maglev_lb_tx_packets_total'', ''counter''), (''maglev_lb_tx_bytes_total'', ''counter'')]"
  using reads_append [OF
      reads_metric [of "''rx_packets_total''" "''counter''" "''Packets received on the ingestion raw socket (clients -> LB).''"
        "dec (unat (rx_packets s))"] reads_append [OF
      reads_metric [of "''rx_bytes_total''" "''counter''" "''Bytes received on the ingestion raw socket.''"
        "dec (unat (rx_bytes s))"] reads_append [OF
      reads_metric [of "''tx_packets_total''" "''counter''"
        "''GRE-encapsulated packets forwarded to backends (LB -> backends).''" "dec (unat (tx_packets s))"]
      reads_metric [of "''tx_bytes_total''" "''counter''"
        "''Bytes forwarded to backends, including the GRE+IP+Ethernet wrapper.''" "dec (unat (tx_bytes s))"]]]]
  by (simp add: traffic_lines_def stats_registry_snapshot_def NL_def)

lemma drop_reads:
  "reads (drop_lines (stats_registry_snapshot s))
     [(''maglev_lb_drops_total'', [(''reason'', ''parse_error'')], uint (drops_parse_error s)),
      (''maglev_lb_drops_total'', [(''reason'', ''no_backend'')], uint (drops_no_backend s)),
      (''maglev_lb_drops_total'', [(''reason'', ''backend_unhealthy'')], uint (drops_backend_unhealthy s)),
      (''maglev_lb_drops_total'', [(''reason'', ''conntrack_full'')], uint (drops_conntrack_full s))]
     [(''maglev_lb_drops_total'', ''counter'')]"
  using reads_append [OF
      reads_family [of "''drops_total''" "''counter''" "''Packets the datapath dropped, by reason.''"] reads_append [OF
      reads_label [of "''drops_total''" "''reason''" "''parse_error''" "dec (unat (drops_parse_error s))"] reads_append [OF
      reads_label [of "''drops_total''" "''reason''" "''no_backend''" "dec (unat (drops_no_backend s))"] reads_append [OF
      reads_label [of "''drops_total''" "''reason''" "''backend_unhealthy''" "dec (unat (drops_backend_unhealthy s))"]
      reads_label [of "''drops_total''" "''reason''" "''conntrack_full''" "dec (unat (drops_conntrack_full s))"]]]]]
  by (simp add: drop_lines_def stats_registry_snapshot_def NL_def)

lemma conntrack_reads:
  "reads (conntrack_lines (stats_registry_snapshot s) ct)
     [(''maglev_lb_conntrack_lookups_total'', [(''result'', ''hit'')], uint (conntrack_hits s)),
      (''maglev_lb_conntrack_lookups_total'', [(''result'', ''miss'')], uint (conntrack_misses s)),
      (''maglev_lb_conntrack_evictions_total'', [], uint (conntrack_evictions s)),
      (''maglev_lb_conntrack_active_flows'', [], uint (active ct))]
     [(''maglev_lb_conntrack_lookups_total'', ''counter''), (''maglev_lb_conntrack_evictions_total'', ''counter''),
      (''maglev_lb_conntrack_active_flows'', ''gauge'')]"
  using reads_append [OF
      reads_family [of "''conntrack_lookups_total''" "''counter''" "''Conntrack lookups, by result.''"] reads_append [OF
      reads_label [of "''conntrack_lookups_total''" "''result''" "''hit''" "dec (unat (conntrack_hits s))"] reads_append [OF
      reads_label [of "''conntrack_lookups_total''" "''result''" "''miss''" "dec (unat (conntrack_misses s))"] reads_append [OF
      reads_metric [of "''conntrack_evictions_total''" "''counter''"
        "''Conntrack entries reaped for being idle past their timeout.''" "dec (unat (conntrack_evictions s))"]
      reads_metric [of "''conntrack_active_flows''" "''gauge''"
        "''Flows currently pinned in the conntrack table.''" "dec (unat (active ct))"]]]]]
  by (simp add: conntrack_lines_def stats_registry_snapshot_def conntrack_active_flows_def NL_def)

lemma table_reads:
  "reads (table_lines tg)
     [(''maglev_lb_table_generation'', [], uint (tg_generation tg)),
      (''maglev_lb_table_regen_last_microseconds'', [], uint (tg_last_regen_us tg))]
     [(''maglev_lb_table_generation'', ''counter''), (''maglev_lb_table_regen_last_microseconds'', ''gauge'')]"
  using reads_append [OF
      reads_metric [of "''table_generation''" "''counter''"
        "''Number of times the Maglev lookup table has been (re)generated, including the initial build.''"
        "dec (unat (tg_generation tg))"]
      reads_metric [of "''table_regen_last_microseconds''" "''gauge''"
        "''Wall-clock duration of the most recent table regeneration.''" "dec (unat (tg_last_regen_us tg))"]]
  by (simp add: table_lines_def table_generator_generation_def table_generator_last_regen_us_def NL_def)

lemma eligible_count:
  "length (filter (\<lambda>b. healthy b \<and> mac_resolved b \<and> admin_state b = BACKEND_ENABLED)
     (backend_manager_snapshot_all bm BACKEND_MAX)) = length (backend_manager_snapshot_eligible bm BACKEND_MAX)"
proof -
  let ?all = "map (\<lambda>i. bm_backends bm ! i) (filter (\<lambda>i. slot_used bm ! i) [0..<BACKEND_MAX])"
  have "length ?all \<le> BACKEND_MAX" using length_filter_le [of "\<lambda>i. slot_used bm ! i" "[0..<BACKEND_MAX]"] by simp
  then have "backend_manager_snapshot_all bm BACKEND_MAX = ?all"
    "backend_manager_snapshot_eligible bm BACKEND_MAX = filter backend_eligible ?all"
    using le_trans [OF length_filter_le [of backend_eligible ?all]]
    by (simp_all add: backend_manager_snapshot_all_def backend_manager_snapshot_eligible_def snapshot_where_def)
  moreover have "(\<lambda>b. healthy b \<and> mac_resolved b \<and> admin_state b = BACKEND_ENABLED) = backend_eligible"
    by (auto simp: backend_eligible_def)
  ultimately show ?thesis by simp
qed

lemma registry_reads:
  "reads (registry_lines cfg (backend_manager_snapshot_all bm BACKEND_MAX))
     [(''maglev_lb_backends_configured'', [], uint (mc_configured_backends cfg)),
      (''maglev_lb_backends_eligible'', [], int (length (backend_manager_snapshot_eligible bm BACKEND_MAX)))]
     [(''maglev_lb_backends_configured'', ''gauge''), (''maglev_lb_backends_eligible'', ''gauge'')]"
  using reads_append [OF
      reads_metric [of "''backends_configured''" "''gauge''" "''Backends configured at startup via --backend.''"
        "dec (unat (mc_configured_backends cfg))"]
      reads_metric [of "''backends_eligible''" "''gauge''"
        "''Backends currently eligible for new flows (healthy, admin-enabled, MAC resolved).''"
        "dec (length (backend_manager_snapshot_eligible bm BACKEND_MAX))"]]
  by (simp add: registry_lines_def eligible_count NL_def)

lemma state_reads:
  assumes "plain name" "NL \<notin> set about"
  shows "reads (state_lines (''backend_'' @ name) about P bs) (map (\<lambda>b. of_backend name b (if P b then 1 else 0)) bs)
    [(''maglev_lb_backend_'' @ name, ''gauge'')]"
proof -
  have "read_int (dec (if P b then 1 else 0)) = (if P b then 1 else 0)" for b by simp
  then show ?thesis
    using reads_backends [OF assms(1) _ assms(2), of "''gauge''" bs "\<lambda>b. dec (if P b then 1 else 0)" "\<lambda>b. b"]
    by (simp add: state_lines_def)
qed

lemma counter_reads:
  assumes "\<And>i. stats_inv (mw_reading w k i)" "plain name" "plain kind" "NL \<notin> set about"
  shows "\<exists>ls. counter_lines (''backend_'' @ name) kind about field (mw_reading w k) bs = Some ls \<and>
    reads ls (map (\<lambda>(i, b). of_backend name b (uint (field (counters_at w k i b)))) (enumerate 0 bs))
      [(''maglev_lb_backend_'' @ name, kind)]"
proof -
  have e: "map (\<lambda>ib. of_backend name (snd ib) (read_int (dec (unat (field (seen (mw_reading w k) ib)))))) (enumerate 0 bs) =
      map (\<lambda>(i, b). of_backend name b (uint (field (counters_at w k i b)))) (enumerate 0 bs)"
    by (auto simp: seen_def counters_at_def)
  have "reads (family (''backend_'' @ name) kind about @
      map (\<lambda>ib. sample (''backend_'' @ name) (backend_labels (snd ib)) (dec (unat (field (seen (mw_reading w k) ib)))))
        (enumerate 0 bs))
      (map (\<lambda>ib. of_backend name (snd ib) (read_int (dec (unat (field (seen (mw_reading w k) ib)))))) (enumerate 0 bs))
      [(''maglev_lb_backend_'' @ name, kind)]"
    by (rule reads_backends [OF assms(2-4)]) simp
  then show ?thesis unfolding counter_lines_eq [OF assms(1)] e by blast
qed

lemma all_state_reads:
  "reads (all_state_lines bs)
     (map (\<lambda>b. of_backend ''up'' b (if healthy b then 1 else 0)) bs @
      map (\<lambda>b. of_backend ''admin_enabled'' b (if admin_state b = BACKEND_ENABLED then 1 else 0)) bs @
      map (\<lambda>b. of_backend ''draining'' b (if admin_state b = BACKEND_DRAINING then 1 else 0)) bs)
     [(''maglev_lb_backend_up'', ''gauge''), (''maglev_lb_backend_admin_enabled'', ''gauge''),
      (''maglev_lb_backend_draining'', ''gauge'')]"
  using reads_append [OF
      state_reads [of "''up''" "''Whether the backend is currently healthy (1) or not (0), as last determined by the health checker.''"
        healthy bs] reads_append [OF
      state_reads [of "''admin_enabled''" "''Whether the backend's admin state is ENABLED (1) rather than DRAINING/DISABLED (0).''"
        "\<lambda>b. admin_state b = BACKEND_ENABLED" bs]
      state_reads [of "''draining''" "''Whether the backend is currently DRAINING (1): no new flows, but flows already pinned to it via '' @
        ''conntrack keep being forwarded until they finish naturally.''" "\<lambda>b. admin_state b = BACKEND_DRAINING" bs]]]
  by (simp add: all_state_lines_def NL_def)

lemma all_counter_reads:
  assumes "\<And>k i. stats_inv (mw_reading w k i)"
  defines "row \<equiv> \<lambda>name k field bs. map (\<lambda>(i, b). of_backend name b (uint (field (counters_at w k i b)))) (enumerate 0 bs)"
  shows "\<exists>ls. all_counter_lines (mw_reading w) bs = Some ls \<and>
    reads ls (row ''packets_total'' 1 pb_packets bs @ row ''bytes_total'' 2 pb_bytes bs @
      row ''active_flows'' 3 pb_active_flows bs @ row ''flows_assigned_total'' 4 pb_flows_assigned bs @
      row ''health_check_failures_total'' 5 pb_health_check_failures bs)
    [(''maglev_lb_backend_packets_total'', ''counter''), (''maglev_lb_backend_bytes_total'', ''counter''),
     (''maglev_lb_backend_active_flows'', ''gauge''), (''maglev_lb_backend_flows_assigned_total'', ''counter''),
     (''maglev_lb_backend_health_check_failures_total'', ''counter'')]"
proof -
  note c = counter_reads [OF assms(1)]
  obtain l1 where 1: "counter_lines ''backend_packets_total'' ''counter''
      ''GRE-encapsulated packets forwarded to this specific backend.'' pb_packets (mw_reading w 1) bs = Some l1"
      "reads l1 (row ''packets_total'' 1 pb_packets bs) [(''maglev_lb_backend_packets_total'', ''counter'')]"
    using c [of "''packets_total''" "''counter''" "''GRE-encapsulated packets forwarded to this specific backend.''" pb_packets 1 bs]
    by (auto simp: NL_def row_def)
  obtain l2 where 2: "counter_lines ''backend_bytes_total'' ''counter''
      ''Bytes forwarded to this specific backend (GRE-encapsulated, including the wrapper).'' pb_bytes (mw_reading w 2) bs = Some l2"
      "reads l2 (row ''bytes_total'' 2 pb_bytes bs) [(''maglev_lb_backend_bytes_total'', ''counter'')]"
    using c [of "''bytes_total''" "''counter''"
        "''Bytes forwarded to this specific backend (GRE-encapsulated, including the wrapper).''" pb_bytes 2 bs]
    by (auto simp: NL_def row_def)
  obtain l3 where 3: "counter_lines ''backend_active_flows'' ''gauge''
      ''Flows in the conntrack table currently pinned to this backend.'' pb_active_flows (mw_reading w 3) bs = Some l3"
      "reads l3 (row ''active_flows'' 3 pb_active_flows bs) [(''maglev_lb_backend_active_flows'', ''gauge'')]"
    using c [of "''active_flows''" "''gauge''"
        "''Flows in the conntrack table currently pinned to this backend.''" pb_active_flows 3 bs]
    by (auto simp: NL_def row_def)
  obtain l4 where 4: "counter_lines ''backend_flows_assigned_total'' ''counter''
      (''New flows the datapath has pinned to this backend (conntrack inserts). A packet reusing an '' @
       ''already-pinned 5-tuple is not counted.'') pb_flows_assigned (mw_reading w 4) bs = Some l4"
      "reads l4 (row ''flows_assigned_total'' 4 pb_flows_assigned bs) [(''maglev_lb_backend_flows_assigned_total'', ''counter'')]"
    using c [of "''flows_assigned_total''" "''counter''"
        "''New flows the datapath has pinned to this backend (conntrack inserts). A packet reusing an '' @
         ''already-pinned 5-tuple is not counted.''" pb_flows_assigned 4 bs]
    by (auto simp: NL_def row_def)
  obtain l5 where 5: "counter_lines ''backend_health_check_failures_total'' ''counter''
      (''Failed health-check probes against this backend (every failure, not just '' @ ''threshold-crossing ones).'')
      pb_health_check_failures (mw_reading w 5) bs = Some l5"
      "reads l5 (row ''health_check_failures_total'' 5 pb_health_check_failures bs)
        [(''maglev_lb_backend_health_check_failures_total'', ''counter'')]"
    using c [of "''health_check_failures_total''" "''counter''"
        "''Failed health-check probes against this backend (every failure, not just '' @ ''threshold-crossing ones).''"
        pb_health_check_failures 5 bs]
    by (auto simp: NL_def row_def)
  have "all_counter_lines (mw_reading w) bs = Some (l1 @ l2 @ l3 @ l4 @ l5)"
    unfolding all_counter_lines_def 1(1) 2(1) 3(1) 4(1) 5(1) by simp
  then show ?thesis
    using reads_append [OF 1(2) reads_append [OF 2(2) reads_append [OF 3(2) reads_append [OF 4(2) 5(2)]]]] by simp
qed

lemma metrics_lines_read:
  assumes "\<And>k i. stats_inv (mw_reading w k i)"
  shows "\<exists>ls. metrics_lines m w = Some ls \<and> reads ls (global_series m w @ backend_series w) metric_types"
proof -
  let ?s = "mw_reading w 0 0" and ?bs = "backend_manager_snapshot_all (mw_bm w) BACKEND_MAX"
  obtain cs ss where cs: "all_counter_lines (mw_reading w) ?bs = Some cs"
      "reads cs ss
        [(''maglev_lb_backend_packets_total'', ''counter''), (''maglev_lb_backend_bytes_total'', ''counter''),
         (''maglev_lb_backend_active_flows'', ''gauge''), (''maglev_lb_backend_flows_assigned_total'', ''counter''),
         (''maglev_lb_backend_health_check_failures_total'', ''counter'')]"
      "backend_series w =
        map (\<lambda>b. of_backend ''up'' b (if healthy b then 1 else 0)) ?bs @
        map (\<lambda>b. of_backend ''admin_enabled'' b (if admin_state b = BACKEND_ENABLED then 1 else 0)) ?bs @
        map (\<lambda>b. of_backend ''draining'' b (if admin_state b = BACKEND_DRAINING then 1 else 0)) ?bs @ ss"
    using all_counter_reads [OF assms, of ?bs] unfolding backend_series_def Let_def by blast
  have "reads (start_lines (mh_start_time m) (mh_cfg m) @ traffic_lines (stats_registry_snapshot ?s) @
      drop_lines (stats_registry_snapshot ?s) @ conntrack_lines (stats_registry_snapshot ?s) (mw_ct w) @
      table_lines (mw_tg w) @ registry_lines (mh_cfg m) ?bs @ all_state_lines ?bs @ cs)
      (global_series m w @ backend_series w) metric_types"
    using reads_append [OF start_reads [of "mh_start_time m" "mh_cfg m"] reads_append [OF traffic_reads [of ?s]
      reads_append [OF drop_reads [of ?s] reads_append [OF conntrack_reads [of ?s "mw_ct w"]
      reads_append [OF table_reads [of "mw_tg w"] reads_append [OF registry_reads [of "mh_cfg m" "mw_bm w"]
      reads_append [OF all_state_reads [of ?bs] cs(2)]]]]]]]
    unfolding cs(3) by (simp add: global_series_def metric_types_def Let_def)
  then show ?thesis using cs(1) by (simp add: metrics_lines_def Let_def)
qed

section \<open>Properties\<close>

text \<open>C38. The exporter's response. For well-formed registries, whatever the counters read and whenever
  they are read, and for any contents of the fresh buffer: when its allocation fails nothing is
  sent; otherwise the request is answered with exactly two sends, the header that announces the
  length of the body, and the complete body. A reader of the text format finds in it the type
  of each of the 22 families, and exactly the expected series in order: the start time, the
  table size, every total of the statistics snapshot, the number of flows, the generation and duration of the
  last rebuild, the numbers of configured and of eligible backends; and for each registered backend,
  under its id and address, its states and its five counters at the moment each was read.\<close>

theorem metrics_response_exact:
  assumes "metrics_world_ok w" "time_ok (mh_start_time m)" "length garbage = METRICS_BODY_CAP"
  shows "if malloc_ok
    then \<exists>body. handle_client malloc_ok garbage m w = Some [response_header (length body), body] \<and>
      length body < METRICS_BODY_CAP \<and> body_types body = metric_types \<and>
      body_series body = global_series m w @ backend_series w
    else handle_client malloc_ok garbage m w = Some []"
proof (cases malloc_ok)
  case True
  obtain ls where ls: "metrics_lines m w = Some ls" "length (concat ls) < METRICS_BODY_CAP"
      "handle_client True garbage m w = Some [response_header (length (concat ls)), concat ls]"
    using metrics_http_response [OF assms] by blast
  have "\<And>k i. stats_inv (mw_reading w k i)" using assms(1) by (simp add: metrics_world_ok_def)
  then have "reads ls (global_series m w @ backend_series w) metric_types"
    using metrics_lines_read [of w m] ls(1) by auto
  then show ?thesis using ls True body_of_lines [of ls] by (auto simp: reads_def)
next
  case False
  then show ?thesis by (simp add: handle_client_def)
qed

definition demo_metrics :: metrics_http where
  "demo_metrics = \<lparr>mh_cfg = \<lparr>mc_port = 9105, mc_table_size = 7, mc_configured_backends = 1\<rparr>, mh_start_time = 1700000000,
     mh_listening = True, mh_running = True\<rparr>"

definition demo_world :: metrics_world where
  "demo_world = \<lparr>mw_ct = \<lparr>buckets = [], bucket_count = 0, slab = [], free_list = None, sweep_cursor = 0, active = 0\<rparr>,
     mw_tg = demo_tg, mw_bm = demo_registry, mw_reading = (\<lambda>k i. (fst (stats_registry_init True 64))\<lparr>tx_packets := 5\<rparr>)\<rparr>"

theorem metrics_response_exact_witness:
  "\<exists>body. handle_client True (replicate METRICS_BODY_CAP CHR ''x'') demo_metrics demo_world =
      Some [response_header (length body), body] \<and> length body < METRICS_BODY_CAP \<and>
    (''maglev_lb_table_size'', [], 7) \<in> set (body_series body) \<and>
    (''maglev_lb_tx_packets_total'', [], 5) \<in> set (body_series body)"
proof -
  have "stats_inv ((fst (stats_registry_init True 64))\<lparr>tx_packets := 5\<rparr>)"
    by (simp add: stats_inv_def stats_registry_init_def zero_stats_def)
  then have w: "metrics_world_ok demo_world"
    using demo_registry_ok(1) by (simp add: metrics_world_ok_def demo_world_def)
  have t: "time_ok (mh_start_time demo_metrics)" by (simp add: time_ok_def demo_metrics_def)
  have g: "length (replicate METRICS_BODY_CAP CHR ''x'') = METRICS_BODY_CAP" by (rule length_replicate)
  have "(''maglev_lb_table_size'', [], 7) \<in> set (global_series demo_metrics demo_world)"
    "(''maglev_lb_tx_packets_total'', [], 5) \<in> set (global_series demo_metrics demo_world)"
    by (simp_all add: global_series_def Let_def demo_metrics_def demo_world_def)
  then show ?thesis using metrics_response_exact [OF w t g, of True] by auto
qed

end
