(* ===== verification/Spec2Isabelle.thy ===== *)
theory Spec2Isabelle
  imports Lb_Process Remap_Report Metrics_Reader
begin

text \<open>
  Verification of the layer-4 Maglev load balancer \<open>maglev-lb\<close>.

  \<^bold>\<open>The program.\<close> One thread, the datapath (\<open>src/forward/datapath.c\<close>), receives Ethernet frames on a
  raw socket, extracts the TCP or UDP flow, looks the flow up in a connection table
  (\<open>src/conntrack\<close>), sends a new flow to the backend that a Maglev table (\<open>src/maglev\<close>) names and
  pins it there, and forwards the packet in a GRE frame (\<open>src/net\<close>). A timer of the same loop sweeps
  idle flows out of the table. A second thread, the health checker
  (\<open>src/backend/health_checker.c\<close>), probes the backends and reads admin commands from a FIFO; each
  change of the registry (\<open>src/backend/backend_manager.c\<close>) makes the table generator
  (\<open>src/backend/table_generator.c\<close>) build a new snapshot, exchange the active pointer and retire the
  old one, which the datapath frees later. Counters (\<open>src/stats\<close>) are shown by a Prometheus exporter
  (\<open>src/ui/metrics_http.c\<close>) and by a terminal dashboard (\<open>src/ui/tui.c\<close>). \<open>src/config\<close> reads the
  command line and \<open>src/main.c\<close> starts, runs and stops all of it.

  \<^bold>\<open>Conventions.\<close> Machine integers are words of their width, byte buffers are lists of 8-bit words,
  C strings are lists of characters. A struct is a record; a pointer into a slab, or to a snapshot,
  is an index or an address of an explicit heap. The outermost option of an operation is \<open>None\<close> when
  the C code would access memory outside an object or freed memory, divide by zero or not return;
  an error the code reports is a value. The results of system calls, the clock and the outcomes of
  allocations are arguments, so each theorem holds for all of them. XXH64 is the parameter \<open>xxh\<close>,
  an arbitrary function of the seed and the bytes; nothing is assumed about it.

  \<^bold>\<open>Theories.\<close>
  \<^item> \<open>LB_Prelude\<close>: types, checked buffer access, memory images of integers, decimal printing, folds that
    may fail. \<open>C_String\<close>: the string functions of the C library that are used.
  \<^item> \<open>Net_Headers\<close>, \<open>Flow_Extract\<close>, \<open>Gre_Encap\<close>: \<open>eth.c\<close>, \<open>ipv4.c\<close>, \<open>tcp_udp.c\<close>, \<open>gre.c\<close>, \<open>flow.c\<close>. The
    extraction reads inside the frame only and accepts exactly the well-formed packets; an
    encapsulated packet parses back to the addresses given and the inner bytes, with a valid
    checksum.
  \<^item> \<open>Arp_Resolve\<close>: \<open>arp_resolve.c\<close>: the request frame and the wait for the first matching reply.
  \<^item> \<open>Maglev_Prime\<close>, \<open>Maglev_Fill\<close>, \<open>Maglev_Table\<close>: \<open>hash.c\<close>, \<open>maglev_table.c\<close>. \<open>Maglev_Fill\<close> is the abstract
    algorithm on preference lists, with the locale \<open>preference_lists\<close> that is interpreted on the
    strides of the code; for a prime size the generation terminates and refines it, the table is
    balanced to one slot and does not depend on the order of the backends.
  \<^item> \<open>Double_Arith\<close>, \<open>Conntrack\<close>, \<open>Flow_Store\<close>, \<open>Conntrack_Inv\<close>: \<open>conntrack.c\<close>, \<open>reaper.c\<close>. The bucket chains and
    the free list live in the slab as in C; the invariant \<open>ct_inv\<close> relates them to a finite map, and
    every operation refines the map. The locale \<open>flow_store\<close> states the contract that affinity needs;
    \<open>ct_store\<close> is its interpretation.
  \<^item> \<open>Backend_Manager\<close>, \<open>Stats_Registry\<close>: \<open>backend_manager.c\<close>, \<open>stats_registry.c\<close>. The registry refines a
    bounded finite map; the locale \<open>subscriber\<close> states what a change callback must keep.
  \<^item> \<open>Transition_System\<close>, \<open>Table_Generator\<close>: \<open>table_generator.c\<close>, as functions on a heap of snapshots and
    as an inductive step relation of the two threads; the locale \<open>safe_system\<close> gives invariants of all
    reachable states (interpretation \<open>tg_threads\<close>), and \<open>tg_subscriber\<close> interprets \<open>subscriber\<close>.
  \<^item> \<open>Health_Checker\<close>: \<open>health_checker.c\<close>: probe rounds, rise and fall counters, admin lines.
  \<^item> \<open>Datapath\<close>: \<open>datapath.c\<close>: the packet handler, the tick, the event loop, and histories of them with
    tables exchanged in between.
  \<^item> \<open>Config\<close>: \<open>config.c\<close>, over a model of \<open>getopt_long\<close>.
  \<^item> \<open>Metrics_Http\<close>, \<open>Metrics_Reader\<close>: \<open>metrics_http.c\<close>. The second is a reader of the text format, written
    apart from the printer, that finds in every response exactly the expected types and series.
  \<^item> \<open>Tui\<close>: \<open>tui.c\<close>: the strings of each drawing, and the turn in which the dashboard ends.
  \<^item> \<open>Startup\<close>: the blocks of \<open>main\<close> up to the datapath. A successful start leaves the configured registry,
    a table for it and the invariant \<open>lb_inv\<close> of the whole process.
  \<^item> \<open>Lb_Process\<close>: the rest of \<open>main\<close>: the waits of the datapath, the actions of the health checker, the
    scrapes of the exporter and the turns of the dashboard interleaved on the shared objects, and
    the clean-up. Under the conditions stated with the property a run returns; it keeps \<open>lb_inv\<close>
    and frees every snapshot that was not leaked. The locale \<open>tracking\<close> extends \<open>subscriber\<close> by the
    promise to keep up with the registry (interpretation \<open>tg_tracking\<close>).
  \<^item> \<open>Remap_Report\<close>: \<open>tools/maglev_remap_report.c\<close>: the comparison of two tables counts exactly.
  \<^item> This theory: what a packet meets after a table was rebuilt from the registry.

  \<^bold>\<open>Bounds and fuel.\<close> No definition uses fuel. The loops that may run forever (\<open>next_pow2\<close>, the Maglev
  probe and fill, walks along bucket chains) are partial functions in the option monad, and each
  theorem about them states that they return. Event loops recurse over the list of the waits that
  happen. Sizes are those of the code: 64 backends, 2048-byte buffers, a 128 KiB metrics body.

  \<^bold>\<open>Not modelled.\<close> \<open>raw_socket.c\<close> and the timer descriptor of \<open>reaper.c\<close> only wrap system calls.
  \<open>Tui\<close> leaves out the set-up of the terminal, and \<open>handle_client\<close> the request, which the code reads and
  ignores, and the results of its two sends, which it ignores too.
  The destroy functions only release memory and close descriptors, except where a proof depends on
  the order (the snapshots of the table generator, the counters of the statistics). Relaxed atomic
  counters are updated in one step each; the data race of the metrics thread on the number of
  active flows is outside the model. Log messages are left out.
\<close>

section \<open>A rebuilt table in service\<close>

text \<open>The address data of a backend as a snapshot holds it.\<close>

definition view_of :: "backend \<Rightarrow> backend_view" where
  "view_of be = \<lparr>bv_id = be_id be, bv_addr = be_addr be, bv_port = be_port be, bv_mac = be_mac be\<rparr>"

lemma copy_views_eq: "copy_views = map view_of"
  by (intro ext) (simp add: copy_views_def view_of_def)

lemma bv_id_view_of [simp]: "bv_id (view_of be) = be_id be"
  by (simp add: view_of_def)

lemma frame_to_table [simp]: "frame_to (dp\<lparr>dp_tg := tg\<rparr>) rx v = frame_to dp rx v"
  by (simp add: frame_to_def)

lemma accepted_table [simp]: "accepted (dp\<lparr>dp_tg := tg\<rparr>) rx = accepted dp rx"
  by (simp add: accepted_def)

lemma rebuilt_dp_inv:
  assumes I: "dp_inv xxh leaked dp" and bm: "bm_inv bm" and p: "maglev_is_prime (tg_m (dp_tg dp))"
    and r: "table_generator_rebuild_and_install xxh env bm (dp_tg dp) = Some (tg, 0, lost)"
  shows "\<exists>snap. active_snapshot tg = Some snap \<and> snapshot_for bm snap \<and>
    dp_inv xxh (leak lost leaked) (dp\<lparr>dp_tg := tg\<rparr>)"
proof -
  have t: "tg_conf_inv (quiescent (dp_tg dp) leaked)" using I by (simp add: dp_inv_def)
  have p': "prime_nat (unat (tg_m (dp_tg dp)))" using p by (simp add: maglev_is_prime_iff)
  obtain snap where s: "active_snapshot tg = Some snap" "snapshot_for bm snap"
    by (rule rebuild_cases [OF bm p' quiescent_retired_le [OF t], of xxh env])
      (use r in \<open>auto simp: active_snapshot_def\<close>)
  moreover have "dp_inv xxh (leak lost leaked) (dp\<lparr>dp_tg := tg\<rparr>)"
    using I rebuild_inv [OF t r] s by (simp add: dp_inv_def snapshot_for_def)
  ultimately show ?thesis by blast
qed

text \<open>What a snapshot of a registry says about an id.\<close>

lemma snapshot_for_find:
  assumes bm: "bm_inv bm" and s: "snapshot_for bm snap"
  shows "routing_snapshot_find_backend snap b =
    (case bm_map bm b of Some be \<Rightarrow> if backend_routable be then Some (view_of be) else None | None \<Rightarrow> None)"
proof -
  have vs: "rs_backends snap = map view_of (backend_manager_snapshot_routable bm BACKEND_MAX)"
    using s by (simp add: snapshot_for_def copy_views_eq)
  have rset: "set (backend_manager_snapshot_routable bm BACKEND_MAX) = {be \<in> ran (bm_map bm). backend_routable be}"
    using set_snapshot_where [OF bm] by (simp add: backend_manager_snapshot_routable_def)
  have ids: "be_id be = i" if "bm_map bm i = Some be" for be i
    using that by (simp add: bm_map_Some_iff [OF bm])
  show ?thesis
  proof (cases "routing_snapshot_find_backend snap b")
    case None
    then have nb: "b \<notin> be_id ` {be \<in> ran (bm_map bm). backend_routable be}"
      by (simp add: routing_snapshot_find_backend_def find_backend_scan_None_iff vs rset image_image)
    have "\<not> backend_routable be" if be: "bm_map bm b = Some be" for be
    proof
      assume "backend_routable be"
      then have "be \<in> {be \<in> ran (bm_map bm). backend_routable be}" using be by (auto intro: ranI)
      then show False using nb ids [OF be] by blast
    qed
    then show ?thesis using None by (cases "bm_map bm b") simp_all
  next
    case (Some v)
    then have v: "v \<in> set (rs_backends snap)" "bv_id v = b"
      using find_backend_scan_Some [of "rs_backends snap" b v] by (simp_all add: routing_snapshot_find_backend_def)
    have "v \<in> view_of ` {be \<in> ran (bm_map bm). backend_routable be}"
      using v(1) unfolding vs set_map rset .
    then obtain be where be: "v = view_of be" "be \<in> ran (bm_map bm)" "backend_routable be" by blast
    then have id: "be_id be = b" using v(2) by simp
    obtain i where i: "bm_map bm i = Some be" using be(2) by (auto simp: ran_def)
    then have "bm_map bm b = Some be" using ids [OF i] id by simp
    then show ?thesis using Some be by simp
  qed
qed

text \<open>A registry for the witnesses: backend 1 is draining, backend 2 takes new flows.\<close>

definition drain_registry :: bm_slots where
  "drain_registry = \<lparr>bm_backends =
      [zero_backend\<lparr>be_id := 1, be_addr := 0x0B00000A, be_port := 80, be_mac := [2, 0, 0, 0, 0, 1],
         admin_state := BACKEND_DRAINING, mac_resolved := True, healthy := True\<rparr>,
       zero_backend\<lparr>be_id := 2, be_addr := 0x0C00000A, be_port := 80, be_mac := [2, 0, 0, 0, 0, 2],
         mac_resolved := True, healthy := True\<rparr>] @ replicate 62 zero_backend,
     slot_used = [True, True] @ replicate 62 False, next_id = 3\<rparr>"

lemma drain_registry_ok:
  "bm_inv drain_registry" "backend_manager_snapshot_eligible drain_registry BACKEND_MAX \<noteq> []"
  "map_option be_addr (bm_map drain_registry 1) = Some 0x0B00000A"
  "map_option (\<lambda>be. admin_state be = BACKEND_DRAINING \<and> healthy be \<and> mac_resolved be) (bm_map drain_registry 1) = Some True"
  by code_simp+

lemma drain_rebuild:
  "\<exists>tg lost. table_generator_rebuild_and_install demo_xxh demo_env drain_registry (dp_tg demo_dp) = Some (tg, 0, lost)"
proof -
  have "prime_nat (unat (tg_m demo_dp_tg))"
    unfolding maglev_is_prime_iff [symmetric] by code_simp
  then show ?thesis
    by (rule rebuild_cases [OF drain_registry_ok(1) _ quiescent_retired_le [OF demo_dp_tg_inv], of demo_xxh demo_env])
      (use demo_env_ok in auto)
qed

lemma demo_dp_prime: "maglev_is_prime (tg_m (dp_tg demo_dp))"
  by code_simp

text \<open>C10. Draining and failures, seen by an established flow. After a rebuild from a registry, a
  packet of a pinned flow that fits the buffer is sent to the backend the flow is pinned to, at the
  address the registry has for it, exactly when the registry holds that backend, healthy, with a
  resolved MAC address and not disabled; a draining backend thus keeps its flows, and the flows of a
  failed, disabled or removed one are dropped. Either way the flow stays pinned.\<close>

theorem rebuilt_table_pinned_flow:
  assumes "dp_inv xxh leaked dp" "accepted dp rx" "bm_inv bm" "maglev_is_prime (tg_m (dp_tg dp))"
    "table_generator_rebuild_and_install xxh env bm (dp_tg dp) = Some (tg, 0, lost)"
    "ct_map (dp_ct dp) (frame_key rx) = Some (b, t)" "38 + frame_total_len rx \<le> TX_BUF_LEN"
  shows "\<exists>dp'. handle_packet xxh rx now send (dp\<lparr>dp_tg := tg\<rparr>) =
      Some (dp', case bm_map bm b of None \<Rightarrow> None
        | Some be \<Rightarrow> if admin_state be \<noteq> BACKEND_DISABLED \<and> healthy be \<and> mac_resolved be
                    then Some (frame_to dp rx (view_of be)) else None) \<and>
    ct_map (dp_ct dp') (frame_key rx) = Some (b, now)"
proof -
  obtain snap where s: "active_snapshot tg = Some snap" "snapshot_for bm snap"
      "dp_inv xxh (leak lost leaked) (dp\<lparr>dp_tg := tg\<rparr>)"
    using rebuilt_dp_inv [OF assms(1,3,4,5)] by blast
  have ci: "ct_inv xxh (dp_ct dp)" using assms(1) by (simp add: dp_inv_def)
  obtain dp' r where h: "handle_packet xxh rx now send (dp\<lparr>dp_tg := tg\<rparr>) =
        Some (dp', expected_frame (dp\<lparr>dp_tg := tg\<rparr>) rx r)"
      "store_packet (conntrack_lookup xxh) (conntrack_insert xxh) (dp_ct dp) (frame_key rx) now
        (table_choice xxh tg (frame_key rx)) = Some (dp_ct dp', r)"
    using handle_packet_accepted [OF s(3), of rx now send] assms(2) by auto
  have r: "r = Some b" "ct_map (dp_ct dp') (frame_key rx) = Some (b, now)"
    using ct_store.packet_hit [OF ci assms(6), of now "table_choice xxh tg (frame_key rx)"] h(2) by auto
  have "expected_frame (dp\<lparr>dp_tg := tg\<rparr>) rx (Some b) = (case bm_map bm b of None \<Rightarrow> None
        | Some be \<Rightarrow> if admin_state be \<noteq> BACKEND_DISABLED \<and> healthy be \<and> mac_resolved be
                    then Some (frame_to dp rx (view_of be)) else None)"
    using assms(7) snapshot_for_find [OF assms(3) s(2), of b]
    by (auto simp: expected_frame_def s(1) backend_routable_def split: option.splits)
  then show ?thesis using h(1) r by auto
qed

theorem rebuilt_table_pinned_flow_witness:
  "\<exists>tg lost be dp'. table_generator_rebuild_and_install demo_xxh demo_env drain_registry (dp_tg demo_dp) = Some (tg, 0, lost) \<and>
    bm_map drain_registry 1 = Some be \<and> admin_state be = BACKEND_DRAINING \<and> be_addr be = 0x0B00000A \<and>
    handle_packet demo_xxh demo_frame 120 (\<lambda>f. 78) (demo_dp\<lparr>dp_tg := tg\<rparr>) =
      Some (dp', Some (frame_to demo_dp demo_frame (view_of be))) \<and>
    ct_map (dp_ct dp') demo_key = Some (1, 120)"
proof -
  obtain tg lost where r: "table_generator_rebuild_and_install demo_xxh demo_env drain_registry (dp_tg demo_dp) =
      Some (tg, 0, lost)" using drain_rebuild by blast
  obtain be where be: "bm_map drain_registry 1 = Some be" "admin_state be = BACKEND_DRAINING" "healthy be"
      "mac_resolved be" "be_addr be = 0x0B00000A"
    using drain_registry_ok(3,4) by auto
  have pin: "ct_map (dp_ct demo_dp) (frame_key demo_frame) = Some (1, 100)"
    by (simp add: demo_frame_ok demo_ct_map)
  have fits: "38 + frame_total_len demo_frame \<le> TX_BUF_LEN" by (simp add: demo_frame_ok TX_BUF_LEN_def)
  show ?thesis
    using rebuilt_table_pinned_flow [OF demo_dp_inv demo_accepted drain_registry_ok(1) demo_dp_prime r pin fits,
        of 120 "\<lambda>f. 78"] r be by (auto simp: demo_frame_ok)
qed

lemma eligible_backend:
  assumes bm: "bm_inv bm" and e: "be \<in> set (backend_manager_snapshot_eligible bm BACKEND_MAX)"
  shows "bm_map bm (be_id be) = Some be" "admin_state be = BACKEND_ENABLED" "healthy be" "mac_resolved be"
    "be_id be < next_id bm"
proof -
  have "be \<in> ran (bm_map bm)" "backend_eligible be"
    using e set_snapshot_where [OF bm] by (auto simp: backend_manager_snapshot_eligible_def)
  then show "bm_map bm (be_id be) = Some be" "admin_state be = BACKEND_ENABLED" "healthy be" "mac_resolved be"
      "be_id be < next_id bm"
    using bm by (auto simp: ran_def bm_map_Some_iff [OF bm] backend_eligible_def backend_routable_def bm_inv_def)
qed

text \<open>The first packet of a flow on the connection table.\<close>

lemma store_packet_new:
  assumes I: "ct_inv xxh ct" and new: "ct_map ct k = None"
  defines "room \<equiv> card (dom (ct_map ct)) < length (slab ct)"
  shows "\<exists>ct'. store_packet (conntrack_lookup xxh) (conntrack_insert xxh) ct k now (Some b) =
      Some (ct', if room then Some b else None) \<and>
    ct_map ct' = (if room then (ct_map ct)(k \<mapsto> (b, now)) else ct_map ct)"
proof -
  obtain ct1 where l: "conntrack_lookup xxh ct k now = Some (ct1, None)" "ct_inv xxh ct1" "ct_map ct1 = ct_map ct"
      "length (slab ct1) = length (slab ct)"
    using conntrack_lookup_spec [OF ct_inv_rep [OF I], of k now] new ct_rep_inv by fastforce
  then show ?thesis
    using conntrack_insert_inv [OF l(2), of k b now] new by (auto simp: store_packet_def room_def)
qed

text \<open>C11. New flows follow the registry. After a rebuild from a registry that has handed out fewer
  than \<open>2 ^ 31\<close> ids, the first packet of a flow is pinned to a backend that is enabled, healthy and
  resolved in that registry, never to a draining one, provided the connection table has room. It is
  sent to this backend when its frame fits the transmit buffer; a longer packet is pinned but not
  sent. Without room, or when no backend is eligible, nothing is sent and nothing is pinned.\<close>

theorem rebuilt_table_new_flow:
  assumes "dp_inv xxh leaked dp" "accepted dp rx" "bm_inv bm" "maglev_is_prime (tg_m (dp_tg dp))"
    "table_generator_rebuild_and_install xxh env bm (dp_tg dp) = Some (tg, 0, lost)"
    "ct_map (dp_ct dp) (frame_key rx) = None" "next_id bm \<le> 2 ^ 31"
  shows "\<exists>dp' tx. handle_packet xxh rx now send (dp\<lparr>dp_tg := tg\<rparr>) = Some (dp', tx) \<and>
    (if backend_manager_snapshot_eligible bm BACKEND_MAX = [] \<or>
        length (slab (dp_ct dp)) \<le> card (dom (ct_map (dp_ct dp)))
     then tx = None \<and> ct_map (dp_ct dp') = ct_map (dp_ct dp)
     else \<exists>be. bm_map bm (be_id be) = Some be \<and> admin_state be = BACKEND_ENABLED \<and> healthy be \<and> mac_resolved be \<and>
       tx = (if 38 + frame_total_len rx \<le> TX_BUF_LEN then Some (frame_to dp rx (view_of be)) else None) \<and>
       ct_map (dp_ct dp') = (ct_map (dp_ct dp))(frame_key rx \<mapsto> (be_id be, now)))"
proof -
  let ?k = "frame_key rx" and ?dp = "dp\<lparr>dp_tg := tg\<rparr>"
  let ?el = "backend_manager_snapshot_eligible bm BACKEND_MAX"
  let ?room = "card (dom (ct_map (dp_ct dp))) < length (slab (dp_ct dp))"
  obtain snap where s: "active_snapshot tg = Some snap" "snapshot_for bm snap" "dp_inv xxh (leak lost leaked) ?dp"
    using rebuilt_dp_inv [OF assms(1,3,4,5)] by blast
  have ci: "ct_inv xxh (dp_ct dp)" using assms(1) by (simp add: dp_inv_def)
  obtain dp' r where h: "handle_packet xxh rx now send ?dp = Some (dp', expected_frame ?dp rx r)"
      "store_packet (conntrack_lookup xxh) (conntrack_insert xxh) (dp_ct dp) ?k now (table_choice xxh tg ?k) =
        Some (dp_ct dp', r)"
    using handle_packet_accepted [OF s(3), of rx now send] assms(2) by auto
  show ?thesis
  proof (cases "?el = []")
    case True
    have "table_choice xxh tg ?k = None"
      using snapshot_for_nowhere [OF s(2) True] s(1) by (simp add: table_choice_def)
    then have "r = None \<and> ct_map (dp_ct dp') = ct_map (dp_ct dp)"
      using ct_store.packet_miss [OF ci assms(6), of now "table_choice xxh tg ?k"] h(2) by auto
    then show ?thesis using h(1) True expected_frame_None by simp
  next
    case False
    obtain be where be: "be \<in> set ?el" "maglev_table_lookup xxh (rs_table snap) ?k = Some (be_id be)"
        "routing_snapshot_find_backend snap (be_id be) = Some (view_of be)"
      using snapshot_for_resolves [OF assms(3) s(2) False, of xxh ?k] by (auto simp: copy_views_eq)
    note el = eligible_backend [OF assms(3) be(1)]
    have "unat (be_id be) < 2 ^ 31" using el(5) assms(7) by (simp add: word_less_nat_alt word_le_nat_alt)
    then have tc: "table_choice xxh tg ?k = Some (be_id be)"
      using be(2) s(1) sint_nonneg_iff [of "be_id be"] by (simp add: table_choice_def)
    have r: "r = (if ?room then Some (be_id be) else None)"
      "ct_map (dp_ct dp') = (if ?room then (ct_map (dp_ct dp))(?k \<mapsto> (be_id be, now)) else ct_map (dp_ct dp))"
      using store_packet_new [OF ci assms(6), of now "be_id be"] h(2) tc by auto
    have "expected_frame ?dp rx (Some (be_id be)) =
        (if 38 + frame_total_len rx \<le> TX_BUF_LEN then Some (frame_to dp rx (view_of be)) else None)"
      using be(3) s(1) by (simp add: expected_frame_def)
    then show ?thesis
      using h(1) r False el(1-4) expected_frame_None
      by (cases ?room) (auto simp: not_less)
  qed
qed

definition demo_frame2 :: buffer where
  "demo_frame2 = [2, 0, 0, 0, 0, 9, 2, 0, 0, 0, 0, 8, 8, 0, 0x45, 0, 0, 28, 0, 0, 0, 0, 64, 17, 0, 0,
     10, 0, 0, 1, 10, 0, 0, 100, 2, 0, 80, 0, 0, 8, 0, 0]"

theorem rebuilt_table_new_flow_witness:
  "\<exists>tg lost be dp'. table_generator_rebuild_and_install demo_xxh demo_env drain_registry (dp_tg demo_dp) = Some (tg, 0, lost) \<and>
    bm_map drain_registry (be_id be) = Some be \<and> admin_state be = BACKEND_ENABLED \<and>
    handle_packet demo_xxh demo_frame2 120 (\<lambda>f. 66) (demo_dp\<lparr>dp_tg := tg\<rparr>) =
      Some (dp', Some (frame_to demo_dp demo_frame2 (view_of be))) \<and>
    ct_map (dp_ct dp') demo_key2 = Some (be_id be, 120)"
proof -
  obtain tg lost where r: "table_generator_rebuild_and_install demo_xxh demo_env drain_registry (dp_tg demo_dp) =
      Some (tg, 0, lost)" using drain_rebuild by blast
  have f: "frame_routable demo_frame2" "frame_key demo_frame2 = demo_key2" "frame_total_len demo_frame2 = 28"
    by code_simp+
  have acc: "accepted demo_dp demo_frame2" using f by (simp add: accepted_def demo_key2_def demo_key_def)
  have new: "ct_map (dp_ct demo_dp) (frame_key demo_frame2) = None" by (simp add: f demo_ct_map)
  have fits: "38 + frame_total_len demo_frame2 \<le> TX_BUF_LEN" by (simp add: f TX_BUF_LEN_def)
  have ids: "next_id drain_registry \<le> 2 ^ 31" by (simp add: drain_registry_def)
  have room: "card (dom (ct_map demo_ct)) = 1" "length (slab demo_ct) = 2"
    using ct_flows_length [OF demo_ct_inv] by (simp_all add: demo_ct_def)
  show ?thesis
    using rebuilt_table_new_flow [OF demo_dp_inv acc drain_registry_ok(1) demo_dp_prime r new ids, of 120 "\<lambda>f. 66"]
      r room drain_registry_ok(2) fits by (auto simp: f)
qed

end
